(* ===== verification/Prelude.thy ===== *)
theory Prelude
  imports Main "HOL-Library.Word" "HOL-Library.Monad_Syntax"
begin

unbundle bit_operations_syntax

text \<open>
  Shared vocabulary of the development: the machine integers and the integer operations of
  Rust's core library that the kernel uses, panics as the value \<^term>\<open>None\<close> of
  the option monad, runs of a state machine, and the generic facts on lists, maps and words
  that the component theories share.

  Conventions. A Rust function that can panic returns an option, \<^term>\<open>None\<close>
  being the panic, and is written in the option monad; a Rust \<open>Result\<close> is a sum with
  the error on the left. Bit masks and flag words are words of their width; addresses,
  sizes and counters are natural numbers whose checked operations compare with
  \<open>2 ^ 64\<close> explicitly.
\<close>

named_theorems op_defs \<open>definitions of operations, unfolded by the proofs about them\<close>
named_theorems inv_intros \<open>preservation facts of the component invariants\<close>

type_synonym u8 = "8 word"
type_synonym u16 = "16 word"
type_synonym u32 = "32 word"
type_synonym u64 = "64 word"
type_synonym 'a panics = "'a option"

section \<open>Integer operations\<close>

abbreviation u64_limit :: nat where
  "u64_limit \<equiv> 18446744073709551616"

definition U64_MAX :: nat where
  "U64_MAX = u64_limit - 1"

definition checked_add :: "nat \<Rightarrow> nat \<Rightarrow> nat option" where
  "checked_add a b = (if a + b < u64_limit then Some (a + b) else None)"

definition word_checked_add :: "'a::len word \<Rightarrow> 'a word \<Rightarrow> 'a word option" where
  "word_checked_add a b = (if unat a + unat b < 2 ^ LENGTH('a) then Some (a + b) else None)"

definition saturating_add :: "nat \<Rightarrow> nat \<Rightarrow> nat" where
  "saturating_add a b = min (a + b) U64_MAX"

definition assert_that :: "bool \<Rightarrow> unit panics" where
  "assert_that b = (if b then Some () else None)"

fun is_power_of_two :: "nat \<Rightarrow> bool" where
  "is_power_of_two n =
     (if n = 0 then False else if n = 1 then True else even n \<and> is_power_of_two (n div 2))"

declare is_power_of_two.simps [simp del]

fun ilog2 :: "nat \<Rightarrow> nat" where
  "ilog2 n = (if n < 2 then 0 else Suc (ilog2 (n div 2)))"

declare ilog2.simps [simp del]

definition leading_zeros :: "nat \<Rightarrow> nat" where
  "leading_zeros n = (if n = 0 then 64 else 63 - ilog2 n)"

definition mask_down :: "nat \<Rightarrow> nat \<Rightarrow> nat" where
  \<comment> \<open>the expression \<open>n & !(q - 1)\<close> on 64-bit words\<close>
  "mask_down n q = unat ((word_of_nat n :: u64) AND NOT (word_of_nat q - 1))"

section \<open>Runs of a state machine that may panic\<close>

fun run_ops :: "('s \<Rightarrow> 'op \<Rightarrow> 's panics) \<Rightarrow> 's \<Rightarrow> 'op list \<Rightarrow> 's panics" where
  "run_ops step s [] = Some s"
| "run_ops step s (x # xs) = Option.bind (step s x) (\<lambda>t. run_ops step t xs)"

section \<open>Lemmas on integers\<close>

lemma checked_add_Some [simp]:
  "checked_add a b = Some c \<longleftrightarrow> c = a + b \<and> a + b < u64_limit"
  by (auto simp: checked_add_def)

lemma checked_add_None [simp]: "checked_add a b = None \<longleftrightarrow> u64_limit \<le> a + b"
  by (auto simp: checked_add_def)

lemma word_checked_add_SomeD:
  "word_checked_add a b = Some c \<Longrightarrow> unat c = unat a + unat b"
  by (auto simp: word_checked_add_def unat_word_ariths split: if_splits)

lemma unat_u64_less [simp]: "unat (w :: u64) < u64_limit"
  using unsigned_less [of w, where ?'a = nat] by simp

lemma assert_that_Some [simp]: "assert_that b = Some u \<longleftrightarrow> b"
  by (auto simp: assert_that_def)

lemma assert_that_bind [simp]:
  "Option.bind (assert_that b) f = (if b then f () else None)"
  by (simp add: assert_that_def)

lemma is_power_of_two_iff: "is_power_of_two n \<longleftrightarrow> (\<exists>k. n = 2 ^ k)"
proof (induction n rule: is_power_of_two.induct)
  case (1 n)
  show ?case
  proof
    assume "is_power_of_two n"
    then consider "n = 1" | "even n" "n \<noteq> 0" "is_power_of_two (n div 2)"
      by (auto simp: is_power_of_two.simps [of n] split: if_splits)
    then show "\<exists>k. n = 2 ^ k"
    proof cases
      case 1
      then show ?thesis by (auto intro: exI [of _ 0])
    next
      case 2
      then obtain k where "n div 2 = 2 ^ k" using "1" by (cases "n = 1") auto
      with 2 have "n = 2 ^ Suc k" by auto
      then show ?thesis ..
    qed
  next
    assume "\<exists>k. n = 2 ^ k"
    then obtain k where k: "n = 2 ^ k" ..
    show "is_power_of_two n"
    proof (cases k)
      case 0
      with k show ?thesis by (simp add: is_power_of_two.simps)
    next
      case (Suc j)
      with k have "n div 2 = 2 ^ j" "even n" "n \<noteq> 0" "n \<noteq> 1" by auto
      with "1" show ?thesis by (auto simp: is_power_of_two.simps [of n])
    qed
  qed
qed

lemma power_of_two_pos: "is_power_of_two n \<Longrightarrow> 0 < n"
  by (auto simp: is_power_of_two_iff)

lemma power_of_two_dvd:
  "is_power_of_two a \<Longrightarrow> is_power_of_two b \<Longrightarrow> a \<le> b \<Longrightarrow> a dvd b"
  by (auto simp: is_power_of_two_iff le_imp_power_dvd)

lemma ilog2_bounds: "0 < n \<Longrightarrow> 2 ^ ilog2 n \<le> n \<and> n < 2 ^ Suc (ilog2 n)"
proof (induction n rule: ilog2.induct)
  case (1 n)
  show ?case
  proof (cases "n < 2")
    case True
    with "1.prems" show ?thesis by (simp add: ilog2.simps)
  next
    case False
    with "1.IH" have "2 ^ ilog2 (n div 2) \<le> n div 2" "n div 2 < 2 ^ Suc (ilog2 (n div 2))"
      by auto
    with False show ?thesis by (simp add: ilog2.simps [of n]) arith
  qed
qed

lemma ilog2_mono: "0 < m \<Longrightarrow> m \<le> n \<Longrightarrow> ilog2 m \<le> ilog2 n"
proof (rule ccontr)
  assume m: "0 < m" and mn: "m \<le> n" and "\<not> ilog2 m \<le> ilog2 n"
  then have "(2::nat) ^ Suc (ilog2 n) \<le> 2 ^ ilog2 m"
    by (intro power_increasing) auto
  also have "\<dots> \<le> m" using ilog2_bounds [OF m] by simp
  also have "\<dots> \<le> n" by (rule mn)
  also have "\<dots> < 2 ^ Suc (ilog2 n)" using ilog2_bounds [of n] m mn by simp
  finally show False by simp
qed

lemma ilog2_less: "0 < n \<Longrightarrow> n < 2 ^ k \<Longrightarrow> ilog2 n < k"
proof (rule ccontr)
  assume n: "0 < n" "n < 2 ^ k" and "\<not> ilog2 n < k"
  then have "(2::nat) ^ k \<le> 2 ^ ilog2 n" by (intro power_increasing) auto
  with ilog2_bounds [OF n(1)] n(2) show False by simp
qed

lemma word_mask_down:
  fixes w :: "'a::len word"
  shows "unat (w AND NOT (mask k)) = unat w - unat w mod 2 ^ k"
proof -
  have "w - take_bit k w = w AND NOT (take_bit k w)"
    by (rule disjunctive_diff_eq_and_not) (simp add: bit_eq_iff bit_simps)
  also have "\<dots> = w AND NOT (mask k)"
    by (auto simp: bit_eq_iff bit_simps)
  finally have "w AND NOT (mask k) = w - take_bit k w" ..
  moreover have "take_bit k w \<le> w"
    by (simp add: word_le_nat_alt unsigned_take_bit_eq)
  ultimately show ?thesis
    by (simp add: unat_sub unsigned_take_bit_eq flip: take_bit_eq_mod)
qed

lemma mask_down_eq:
  assumes "is_power_of_two q" "q < u64_limit" "n < u64_limit"
  shows "mask_down n q = n - n mod q"
proof -
  from assms(1) obtain k where k: "q = 2 ^ k"
    by (auto simp: is_power_of_two_iff)
  then have "(word_of_nat q - 1 :: u64) = mask k"
    by (simp add: mask_eq_decr_exp)
  moreover have "unat (word_of_nat n :: u64) = n"
    using assms(3) by (simp add: unat_of_nat)
  ultimately show ?thesis
    by (simp add: mask_down_def word_mask_down k)
qed

lemma mask_down_dvd:
  "is_power_of_two q \<Longrightarrow> q < u64_limit \<Longrightarrow> n < u64_limit \<Longrightarrow> q dvd mask_down n q"
  by (simp add: mask_down_eq dvd_minus_mod)

lemma round_up_bounds:
  fixes n q :: nat
  assumes "0 < q"
  shows "n \<le> n + (q - 1) - (n + (q - 1)) mod q" "n + (q - 1) - (n + (q - 1)) mod q < n + q"
proof -
  have "(n + (q - 1)) mod q \<le> q - 1"
    using assms mod_less_divisor [of q "n + (q - 1)"] by linarith
  then show "n \<le> n + (q - 1) - (n + (q - 1)) mod q" by linarith
  show "n + (q - 1) - (n + (q - 1)) mod q < n + q" using assms by linarith
qed

lemma round_up_id:
  fixes n q :: nat
  assumes "0 < q" "q dvd n"
  shows "n + (q - 1) - (n + (q - 1)) mod q = n"
proof -
  have "(n + (q - 1)) mod q = (q - 1) mod q"
    using assms(2) by (auto simp: mod_add_left_eq [symmetric])
  also have "\<dots> = q - 1" using assms(1) by simp
  finally show ?thesis by simp
qed

lemma div_ceil_bounds:
  fixes n b :: nat
  assumes "0 < b"
  shows "n \<le> (n + b - 1) div b * b" "(n + b - 1) div b * b < n + b"
proof -
  have "(n + b - 1) div b * b = (n + b - 1) - (n + b - 1) mod b"
    by (simp add: minus_mod_eq_div_mult)
  then show "n \<le> (n + b - 1) div b * b" "(n + b - 1) div b * b < n + b"
    using round_up_bounds [OF assms, of n] assms by (simp_all add: Nat.add_diff_assoc Suc_leI)
qed

section \<open>Lemmas on runs\<close>

lemma run_ops_append:
  "run_ops step s (xs @ ys) = Option.bind (run_ops step s xs) (\<lambda>t. run_ops step t ys)"
  by (induction xs arbitrary: s) auto

text \<open>
  The interface of a component with an invariant: an operation that is admissible in a state
  satisfying the invariant does not panic and keeps the invariant. Whole runs of admissible
  operations then never panic and keep it too.
\<close>

fun admissible :: "('s \<Rightarrow> 'op \<Rightarrow> 's panics) \<Rightarrow> ('s \<Rightarrow> 'op \<Rightarrow> bool) \<Rightarrow> 's \<Rightarrow> 'op list \<Rightarrow> bool" where
  "admissible step ok s [] = True"
| "admissible step ok s (x # xs) =
     (ok s x \<and> (case step s x of None \<Rightarrow> True | Some t \<Rightarrow> admissible step ok t xs))"

locale safe_machine =
  fixes step :: "'s \<Rightarrow> 'op \<Rightarrow> 's panics"
    and ok :: "'s \<Rightarrow> 'op \<Rightarrow> bool"
    and inv :: "'s \<Rightarrow> bool"
  assumes step_safe: "inv s \<Longrightarrow> ok s x \<Longrightarrow> \<exists>t. step s x = Some t \<and> inv t"
begin

lemma run_safe:
  "inv s \<Longrightarrow> admissible step ok s xs \<Longrightarrow> \<exists>t. run_ops step s xs = Some t \<and> inv t"
proof (induction xs arbitrary: s)
  case Nil
  then show ?case by simp
next
  case (Cons x xs)
  then obtain t where t: "step s x = Some t" "inv t"
    using step_safe [of s x] by auto
  with Cons.prems have "admissible step ok t xs" by simp
  with Cons.IH [OF t(2)] t(1) show ?case by simp
qed

end

end
