(* ===== verification/Addr.thy ===== *)
theory Addr
  imports Prelude
begin

text \<open>
  Model of \<open>kernel/src/mem/addr.rs\<close>: page geometry, the power-of-two rounding helpers
  and the typed physical and virtual addresses. The helpers work on 64-bit words with the
  bit masks of the source; a failed assertion or the explicit panic on overflow is
  \<^term>\<open>None\<close>. The lemmas relate the masks to division with remainder: rounding
  down yields the greatest multiple below, rounding up the least multiple above, and it
  panics exactly when no multiple of the alignment fits in 64 bits.
\<close>

unbundle bit_operations_syntax

definition PAGE_SHIFT :: nat where
  "PAGE_SHIFT = 12"

definition PAGE_SIZE :: u64 where
  "PAGE_SIZE = push_bit PAGE_SHIFT 1"

definition align_down :: "u64 \<Rightarrow> u64 \<Rightarrow> u64 panics" where
  "align_down value align = do {
     assert_that (is_power_of_two (unat align));
     Some (value AND NOT (align - 1))
   }"

definition align_up :: "u64 \<Rightarrow> u64 \<Rightarrow> u64 panics" where
  "align_up value align = do {
     assert_that (is_power_of_two (unat align));
     let mask = align - 1;
     case word_checked_add value mask of
       Some v \<Rightarrow> Some (v AND NOT mask)
     | None \<Rightarrow> None
   }"

definition pages_for_len :: "u64 \<Rightarrow> u64 panics" where
  "pages_for_len len =
     (if len = 0 then Some 0
      else do { a \<leftarrow> align_up len PAGE_SIZE; Some (a div PAGE_SIZE) })"

subsection \<open>Typed addresses\<close>

datatype phys_addr = PhysAddr (phys_as_u64: u64)

definition phys_zero :: phys_addr where
  "phys_zero = PhysAddr 0"

definition phys_is_page_aligned :: "phys_addr \<Rightarrow> bool" where
  "phys_is_page_aligned a \<longleftrightarrow> phys_as_u64 a AND (PAGE_SIZE - 1) = 0"

definition phys_align_down :: "phys_addr \<Rightarrow> phys_addr panics" where
  "phys_align_down a = map_option PhysAddr (align_down (phys_as_u64 a) PAGE_SIZE)"

definition phys_align_up :: "phys_addr \<Rightarrow> phys_addr panics" where
  "phys_align_up a = map_option PhysAddr (align_up (phys_as_u64 a) PAGE_SIZE)"

definition phys_checked_add :: "phys_addr \<Rightarrow> u64 \<Rightarrow> phys_addr option" where
  "phys_checked_add a bytes =
     (case word_checked_add (phys_as_u64 a) bytes of
        Some v \<Rightarrow> Some (PhysAddr v)
      | None \<Rightarrow> None)"

datatype virt_addr = VirtAddr (virt_as_u64: u64)

definition virt_zero :: virt_addr where
  "virt_zero = VirtAddr 0"

definition virt_is_page_aligned :: "virt_addr \<Rightarrow> bool" where
  "virt_is_page_aligned a \<longleftrightarrow> virt_as_u64 a AND (PAGE_SIZE - 1) = 0"

definition virt_align_down :: "virt_addr \<Rightarrow> virt_addr panics" where
  "virt_align_down a = map_option VirtAddr (align_down (virt_as_u64 a) PAGE_SIZE)"

definition virt_align_up :: "virt_addr \<Rightarrow> virt_addr panics" where
  "virt_align_up a = map_option VirtAddr (align_up (virt_as_u64 a) PAGE_SIZE)"

definition virt_checked_add :: "virt_addr \<Rightarrow> u64 \<Rightarrow> virt_addr option" where
  "virt_checked_add a bytes =
     (case word_checked_add (virt_as_u64 a) bytes of
        Some v \<Rightarrow> Some (VirtAddr v)
      | None \<Rightarrow> None)"

section \<open>Masks and remainders\<close>

lemma unat_pow2_minus_1:
  fixes a :: u64
  assumes "is_power_of_two (unat a)"
  obtains k where "unat a = 2 ^ k" "k < 64" "a - 1 = mask k"
proof -
  from assms obtain k where k: "unat a = 2 ^ k" by (auto simp: is_power_of_two_iff)
  have "(2::nat) ^ k < 2 ^ 64" using unat_u64_less [of a] k by simp
  then have "k < 64" by (rule power_less_imp_less_exp [rotated]) simp
  have "a = word_of_nat (unat a)" by simp
  then have "a = word_of_nat (2 ^ k)" by (simp only: k)
  then have "a - 1 = mask k" by (simp add: mask_eq_decr_exp)
  with k \<open>k < 64\<close> show ?thesis by (rule that)
qed

lemma unat_mask_down:
  fixes a v :: u64
  assumes "is_power_of_two (unat a)"
  shows "unat (v AND NOT (a - 1)) = unat v - unat v mod unat a"
proof -
  obtain k where "unat a = 2 ^ k" "a - 1 = mask k" using unat_pow2_minus_1 [OF assms] .
  then show ?thesis by (simp add: word_mask_down)
qed

lemma unat_pow2_pred:
  fixes a :: u64
  assumes "is_power_of_two (unat a)"
  shows "unat (a - 1) = unat a - 1"
  using power_of_two_pos [OF assms] by (metis unat_0 unat_minus_one less_numeral_extra(3))

lemma page_size_eq [simp]: "PAGE_SIZE = 4096"
  by (simp add: PAGE_SIZE_def PAGE_SHIFT_def)

lemma page_size_pow2 [simp]: "is_power_of_two 4096"
proof -
  have "(4096::nat) = 2 ^ 12" by simp
  then show ?thesis by (metis is_power_of_two_iff)
qed

lemma align_down_value:
  "is_power_of_two (unat a) \<Longrightarrow> align_down v a = Some (v AND NOT (a - 1))"
  by (simp add: align_down_def)

lemma multiple_gap_unique:
  fixes a x y v :: nat
  assumes "a dvd x" "a dvd y" "v \<le> x" "x < v + a" "v \<le> y" "y < v + a"
  shows "x = y"
proof (rule ccontr)
  assume "x \<noteq> y"
  then consider "x < y" | "y < x" by linarith
  then show False
  proof cases
    case 1
    with assms have "a dvd y - x" "0 < y - x" "y - x < a" by (auto intro: dvd_diff_nat)
    then show ?thesis by (auto dest: dvd_imp_le)
  next
    case 2
    with assms have "a dvd x - y" "0 < x - y" "x - y < a" by (auto intro: dvd_diff_nat)
    then show ?thesis by (auto dest: dvd_imp_le)
  qed
qed

lemma align_up_overflow:
  assumes "is_power_of_two (unat a)"
  shows "align_up v a = None \<longleftrightarrow> u64_limit - unat a < unat v"
proof -
  have "unat v + (unat a - 1) < u64_limit \<longleftrightarrow> \<not> u64_limit - unat a < unat v"
    using power_of_two_pos [OF assms] unat_u64_less [of a] by linarith
  then show ?thesis
    by (simp add: align_up_def assms word_checked_add_def unat_pow2_pred Let_def)
qed

lemma align_up_SomeD:
  assumes "is_power_of_two (unat a)" "align_up v a = Some r"
  shows "unat a dvd unat r" "unat v \<le> unat r" "unat r < unat v + unat a"
proof -
  from assms obtain s where s: "word_checked_add v (a - 1) = Some s"
      and r: "r = s AND NOT (a - 1)"
    by (auto simp: align_up_def Let_def split: option.splits)
  have "unat s = unat v + (unat a - 1)"
    using word_checked_add_SomeD [OF s] by (simp add: unat_pow2_pred assms(1))
  then have "unat r = unat v + (unat a - 1) - (unat v + (unat a - 1)) mod unat a"
    by (simp add: r unat_mask_down assms(1))
  then show "unat a dvd unat r" "unat v \<le> unat r" "unat r < unat v + unat a"
    using round_up_bounds [of "unat a" "unat v"] power_of_two_pos [OF assms(1)]
    by (simp_all only: dvd_minus_mod)
qed

section \<open>Properties\<close>

text \<open>
  Rounding up to a power of two returns exactly the multiple of the alignment in the
  half-open window of one alignment above the value, and panics only if that multiple does
  not fit in 64 bits.
\<close>

theorem align_up_exact:
  assumes "is_power_of_two (unat a)"
  shows "(align_up v a = Some r \<longleftrightarrow>
           unat a dvd unat r \<and> unat v \<le> unat r \<and> unat r < unat v + unat a) \<and>
         (align_up v a = None \<longleftrightarrow>
           \<not> (\<exists>m < u64_limit. unat a dvd m \<and> unat v \<le> m \<and> m < unat v + unat a))"
proof -
  note D = align_up_SomeD [OF assms]
  have some: "align_up v a = Some r \<longleftrightarrow>
      unat a dvd unat r \<and> unat v \<le> unat r \<and> unat r < unat v + unat a" for r
  proof
    assume r: "unat a dvd unat r \<and> unat v \<le> unat r \<and> unat r < unat v + unat a"
    obtain k where k: "unat a = 2 ^ k" "k < 64" using unat_pow2_minus_1 [OF assms] .
    have "unat a dvd u64_limit"
      using le_imp_power_dvd [of k 64 "2::nat"] k by simp
    then have "unat a dvd u64_limit - unat r" using r by (auto intro: dvd_diff_nat)
    then have "unat a \<le> u64_limit - unat r"
      using unat_u64_less [of r] by (intro dvd_imp_le) auto
    then have "\<not> u64_limit - unat a < unat v" using r by linarith
    then obtain s where s: "align_up v a = Some s"
      using align_up_overflow [OF assms, of v] by (cases "align_up v a") auto
    have "unat s = unat r" using multiple_gap_unique [OF D(1) [OF s]] D [OF s] r by blast
    with s show "align_up v a = Some r" by (simp add: word_unat_eq_iff)
  qed (auto dest: D)
  have "align_up v a = None \<longleftrightarrow>
      \<not> (\<exists>m < u64_limit. unat a dvd m \<and> unat v \<le> m \<and> m < unat v + unat a)"
  proof
    assume none: "align_up v a = None"
    show "\<not> (\<exists>m < u64_limit. unat a dvd m \<and> unat v \<le> m \<and> m < unat v + unat a)"
    proof
      assume "\<exists>m < u64_limit. unat a dvd m \<and> unat v \<le> m \<and> m < unat v + unat a"
      then obtain m where m: "m < u64_limit" "unat a dvd m" "unat v \<le> m" "m < unat v + unat a"
        by auto
      then have "unat (word_of_nat m :: u64) = m" by (simp add: unat_of_nat)
      with m some [of "word_of_nat m"] none show False by simp
    qed
  next
    assume "\<not> (\<exists>m < u64_limit. unat a dvd m \<and> unat v \<le> m \<and> m < unat v + unat a)"
    then show "align_up v a = None"
      using D unat_u64_less by (cases "align_up v a") blast+
  qed
  with some show ?thesis by blast
qed

theorem align_up_exact_witness:
  "is_power_of_two (unat (4096::u64)) \<and> align_up 5000 4096 = Some 8192"
proof -
  have h: "is_power_of_two (unat (4096::u64))" by simp
  show ?thesis using align_up_exact [OF h, of 5000 8192] by simp
qed

text \<open>
  The page count of a length covers the length with less than one page to spare, and it
  is only undefined for lengths in the last page of the address space.
\<close>

theorem pages_for_len_covers:
  "(pages_for_len len = None \<longleftrightarrow> u64_limit - 4096 < unat len) \<and>
   (\<forall>n. pages_for_len len = Some n \<longrightarrow>
      unat len \<le> unat n * 4096 \<and> unat n * 4096 < unat len + 4096)"
proof (intro conjI allI impI)
  show "pages_for_len len = None \<longleftrightarrow> u64_limit - 4096 < unat len"
    using align_up_overflow [of 4096 len]
    by (auto simp: pages_for_len_def bind_eq_None_conv)
next
  fix n
  assume n: "pages_for_len len = Some n"
  show "unat len \<le> unat n * 4096"
  proof (cases "len = 0")
    case False
    with n obtain a where a: "align_up len 4096 = Some a" "n = a div 4096"
      by (auto simp: pages_for_len_def bind_eq_Some_conv)
    with align_up_SomeD [of 4096 len a] show ?thesis by (simp add: unat_div)
  qed simp
  show "unat n * 4096 < unat len + 4096"
  proof (cases "len = 0")
    case True
    with n show ?thesis by (simp add: pages_for_len_def)
  next
    case False
    with n obtain a where a: "align_up len 4096 = Some a" "n = a div 4096"
      by (auto simp: pages_for_len_def bind_eq_Some_conv)
    with align_up_SomeD [of 4096 len a] show ?thesis by (simp add: unat_div)
  qed
qed

theorem pages_for_len_witness:
  "pages_for_len 4097 = Some 2 \<and> (4097::nat) \<le> unat (2::u64) * 4096"
proof -
  have e: "align_up 4097 4096 = Some 8192"
    by (simp add: align_up_def word_checked_add_def)
  then have p: "pages_for_len 4097 = Some 2" by (simp add: pages_for_len_def)
  show ?thesis using pages_for_len_covers [of 4097] p by auto
qed

end
