(* ===== verification/Index.thy ===== *)
theory Index
  imports Prelude
begin

text \<open>
  Model of \<open>kernel/src/mem/index.rs\<close>, the ordered index of the memory subsystem, and of
  the error values of \<open>kernel/src/mem/error.rs\<close>. An index is the sequence of its nodes in
  key order together with its length counter; the red-black tree of the source holds these
  nodes and iterates over them in this order. A node reserved from the pool and not yet
  published is represented by its key. Whether the pool can supply a node for a key is an
  argument \<open>pool\<close> of the reserving operations, because it depends on the state of the
  physical allocator.

  The lemmas show that the index implements a finite map whose range queries return the
  neighbouring keys; the locale \<open>ordered_index\<close> states that contract and derives the
  interval lookup that its clients perform.
\<close>

datatype mem_error =
    OutOfMemory | InvalidAddress | AlreadyMapped | NotMapped | Protection
  | LimitExceeded | SwapUnavailable | CorruptSwap | Pmap | Io

record 'v index =
  ix_tree :: "(nat \<times> 'v) list"
  ix_len :: nat

datatype key_bound = Included nat | Excluded nat | Unbounded

fun above_bound :: "key_bound \<Rightarrow> nat \<Rightarrow> bool" where
  "above_bound (Included b) k = (b \<le> k)"
| "above_bound (Excluded b) k = (b < k)"
| "above_bound Unbounded k = True"

fun below_bound :: "key_bound \<Rightarrow> nat \<Rightarrow> bool" where
  "below_bound (Included b) k = (k \<le> b)"
| "below_bound (Excluded b) k = (k < b)"
| "below_bound Unbounded k = True"

section \<open>Nodes in key order\<close>

fun tree_insert :: "nat \<Rightarrow> 'v \<Rightarrow> (nat \<times> 'v) list \<Rightarrow> (nat \<times> 'v) list" where
  "tree_insert k v [] = [(k, v)]"
| "tree_insert k v ((a, b) # ps) =
     (if k < a then (k, v) # (a, b) # ps else (a, b) # tree_insert k v ps)"

fun tree_remove :: "nat \<Rightarrow> (nat \<times> 'v) list \<Rightarrow> (nat \<times> 'v) list" where
  "tree_remove k [] = []"
| "tree_remove k ((a, b) # ps) = (if a = k then ps else (a, b) # tree_remove k ps)"

definition tree_replace :: "nat \<Rightarrow> 'v \<Rightarrow> (nat \<times> 'v) list \<Rightarrow> (nat \<times> 'v) list" where
  "tree_replace k v ps = map (\<lambda>(a, b). if a = k then (a, v) else (a, b)) ps"

fun iter_next :: "'a list \<Rightarrow> 'a option" where
  "iter_next [] = None"
| "iter_next (x # xs) = Some x"

definition iter_next_back :: "'a list \<Rightarrow> 'a option" where
  "iter_next_back xs = iter_next (rev xs)"

section \<open>Operations of the index\<close>

definition index_new :: "'v index" where
  "index_new = \<lparr>ix_tree = [], ix_len = 0\<rparr>"

definition index_get :: "'v index \<Rightarrow> nat \<Rightarrow> 'v option" where
  "index_get ix k = map_of (ix_tree ix) k"

definition index_contains_key :: "'v index \<Rightarrow> nat \<Rightarrow> bool" where
  "index_contains_key ix k \<longleftrightarrow> index_get ix k \<noteq> None"

definition index_range :: "'v index \<Rightarrow> key_bound \<Rightarrow> key_bound \<Rightarrow> (nat \<times> 'v) list" where
  "index_range ix lo hi = filter (\<lambda>(k, _). above_bound lo k \<and> below_bound hi k) (ix_tree ix)"

definition index_get_mut :: "'v index \<Rightarrow> nat \<Rightarrow> ('v \<Rightarrow> 'v) \<Rightarrow> 'v index option" where
  \<comment> \<open>the effect of \<open>f\<close> applied through the mutable reference\<close>
  "index_get_mut ix k f =
     (case iter_next (index_range ix (Included k) (Included k)) of
        None \<Rightarrow> None
      | Some (_, v) \<Rightarrow> Some (ix\<lparr>ix_tree := tree_replace k (f v) (ix_tree ix)\<rparr>))"

definition index_rekey :: "'v index \<Rightarrow> nat \<Rightarrow> nat \<Rightarrow> 'v index panics" where
  "index_rekey ix old new = do {
     assert_that (\<not> index_contains_key ix new);
     v \<leftarrow> index_get ix old;
     Some (ix\<lparr>ix_tree := tree_insert new v (tree_remove old (ix_tree ix))\<rparr>)
   }"

definition index_reserve_new :: "(nat \<Rightarrow> bool) \<Rightarrow> nat \<Rightarrow> mem_error + nat" where
  "index_reserve_new pool k = (if pool k then Inr k else Inl OutOfMemory)"

definition index_reserve :: "(nat \<Rightarrow> bool) \<Rightarrow> 'v index \<Rightarrow> nat \<Rightarrow> mem_error + nat option" where
  "index_reserve pool ix k =
     (if index_contains_key ix k then Inr None
      else case index_reserve_new pool k of Inl e \<Rightarrow> Inl e | Inr n \<Rightarrow> Inr (Some n))"

definition index_insert ::
  "'v index \<Rightarrow> nat \<Rightarrow> 'v \<Rightarrow> nat option \<Rightarrow> ('v option \<times> 'v index) panics" where
  "index_insert ix k v reserved =
     (case index_get ix k of
        Some old \<Rightarrow> Some (Some old, ix\<lparr>ix_tree := tree_replace k v (ix_tree ix)\<rparr>)
      | None \<Rightarrow> do {
          node \<leftarrow> reserved;
          assert_that (node = k);
          Some (None, \<lparr>ix_tree = tree_insert k v (ix_tree ix), ix_len = ix_len ix + 1\<rparr>)
        })"

definition index_remove :: "'v index \<Rightarrow> nat \<Rightarrow> 'v option \<times> 'v index" where
  "index_remove ix k =
     (case index_get ix k of
        None \<Rightarrow> (None, ix)
      | Some v \<Rightarrow> (Some v, \<lparr>ix_tree = tree_remove k (ix_tree ix), ix_len = ix_len ix - 1\<rparr>))"

definition index_into_entries :: "'v index \<Rightarrow> (nat \<times> 'v) list" where
  "index_into_entries ix = ix_tree ix"

fun move_nodes :: "(nat \<times> 'v) list \<Rightarrow> 'v index \<Rightarrow> 'v index" where
  "move_nodes [] removed = removed"
| "move_nodes ((k, v) # ps) removed =
     move_nodes ps \<lparr>ix_tree = tree_insert k v (ix_tree removed), ix_len = ix_len removed + 1\<rparr>"

definition index_split_off :: "'v index \<Rightarrow> nat \<Rightarrow> 'v index \<times> 'v index" where
  \<comment> \<open>the index that stays and the index returned\<close>
  "index_split_off ix key =
     (if (case iter_next (ix_tree ix) of None \<Rightarrow> False | Some (k, _) \<Rightarrow> key \<le> k)
      then (index_new, ix)
      else
        let kept = takeWhile (\<lambda>(k, _). k < key) (ix_tree ix);
            removed = move_nodes (dropWhile (\<lambda>(k, _). k < key) (ix_tree ix)) index_new
        in (\<lparr>ix_tree = kept, ix_len = ix_len ix - ix_len removed\<rparr>, removed))"

definition index_extract_range :: "'v index \<Rightarrow> nat \<Rightarrow> nat \<Rightarrow> 'v index \<times> 'v index" where
  "index_extract_range ix start stop =
     (let front = takeWhile (\<lambda>(k, _). k < start) (ix_tree ix);
          rest = dropWhile (\<lambda>(k, _). k < start) (ix_tree ix);
          removed = move_nodes (takeWhile (\<lambda>(k, _). k < stop) rest) index_new
      in (\<lparr>ix_tree = front @ dropWhile (\<lambda>(k, _). k < stop) rest,
           ix_len = ix_len ix - ix_len removed\<rparr>, removed))"

section \<open>Invariant\<close>

definition keys_sorted :: "(nat \<times> 'v) list \<Rightarrow> bool" where
  "keys_sorted ps \<longleftrightarrow> sorted_wrt (<) (map fst ps)"

definition index_inv :: "'v index \<Rightarrow> bool" where
  "index_inv ix \<longleftrightarrow> keys_sorted (ix_tree ix) \<and> ix_len ix = length (ix_tree ix)"

section \<open>Lemmas on node sequences\<close>

lemma keys_sorted_Nil [simp]: "keys_sorted []"
  by (simp add: keys_sorted_def)

lemma keys_sorted_Cons [simp]:
  "keys_sorted ((a, b) # ps) \<longleftrightarrow> (\<forall>k \<in> fst ` set ps. a < k) \<and> keys_sorted ps"
  by (auto simp: keys_sorted_def)

lemma keys_sorted_append [simp]:
  "keys_sorted (ps @ qs) \<longleftrightarrow>
     keys_sorted ps \<and> keys_sorted qs \<and> (\<forall>k \<in> fst ` set ps. \<forall>l \<in> fst ` set qs. k < l)"
  by (auto simp: keys_sorted_def sorted_wrt_append)

lemma keys_sorted_distinct: "keys_sorted ps \<Longrightarrow> distinct (map fst ps)"
  by (simp add: keys_sorted_def strict_sorted_iff)

lemma keys_sorted_map_of:
  "keys_sorted ps \<Longrightarrow> map_of ps k = Some v \<longleftrightarrow> (k, v) \<in> set ps"
  by (auto intro: map_of_is_SomeI dest: map_of_SomeD keys_sorted_distinct)

lemma keys_sorted_filter: "keys_sorted ps \<Longrightarrow> keys_sorted (filter P ps)"
  by (auto simp: keys_sorted_def sorted_wrt_map intro: sorted_wrt_filter)

lemma set_tree_insert [simp]: "set (tree_insert k v ps) = insert (k, v) (set ps)"
  by (induction ps) (auto split: if_splits)

lemma length_tree_insert [simp]: "length (tree_insert k v ps) = Suc (length ps)"
  by (induction ps) auto

lemma keys_sorted_tree_insert:
  "keys_sorted ps \<Longrightarrow> k \<notin> fst ` set ps \<Longrightarrow> keys_sorted (tree_insert k v ps)"
proof (induction ps)
  case (Cons p ps)
  obtain a b where p: "p = (a, b)" by (cases p)
  show ?case
  proof (cases "k < a")
    case True
    with Cons.prems p show ?thesis by (auto dest: less_trans)
  next
    case False
    with Cons.prems p have "a < k" by auto
    with Cons p show ?thesis by simp
  qed
qed simp

lemma map_of_tree_insert:
  "k \<notin> fst ` set ps \<Longrightarrow> map_of (tree_insert k v ps) = (map_of ps)(k \<mapsto> v)"
proof (induction ps)
  case (Cons p ps)
  then show ?case by (cases p) (auto simp: fun_eq_iff)
qed simp

lemma tree_remove_notin: "k \<notin> fst ` set ps \<Longrightarrow> tree_remove k ps = ps"
  by (induction ps) auto

lemma set_tree_remove_subset: "set (tree_remove k ps) \<subseteq> set ps"
  by (induction ps) (auto split: if_splits)

lemma keys_sorted_tree_remove: "keys_sorted ps \<Longrightarrow> keys_sorted (tree_remove k ps)"
proof (induction ps)
  case (Cons p ps)
  then show ?case
    using set_tree_remove_subset [of k ps] by (cases p) (auto simp: image_iff)
qed simp

lemma map_of_tree_remove:
  "keys_sorted ps \<Longrightarrow> map_of (tree_remove k ps) = (map_of ps)(k := None)"
proof (induction ps)
  case (Cons p ps)
  obtain a b where p: "p = (a, b)" by (cases p)
  show ?case
  proof (cases "a = k")
    case True
    with Cons.prems p have "k \<notin> fst ` set ps" by auto
    then have "map_of ps k = None" by (simp add: map_of_eq_None_iff)
    with True p show ?thesis by (auto simp: fun_eq_iff)
  next
    case False
    with Cons p show ?thesis by (auto simp: fun_eq_iff)
  qed
qed (auto simp: fun_eq_iff)

lemma length_tree_remove:
  "map_of ps k = Some v \<Longrightarrow> Suc (length (tree_remove k ps)) = length ps"
  by (induction ps) (auto split: if_splits)

lemma map_fst_tree_replace [simp]: "map fst (tree_replace k v ps) = map fst ps"
  by (induction ps) (auto simp: tree_replace_def)

lemma length_tree_replace [simp]: "length (tree_replace k v ps) = length ps"
  by (simp add: tree_replace_def)

lemma keys_sorted_tree_replace [simp]: "keys_sorted (tree_replace k v ps) = keys_sorted ps"
  by (simp add: keys_sorted_def)

lemma map_of_tree_replace:
  "map_of (tree_replace k v ps) =
     (if k \<in> fst ` set ps then (map_of ps)(k \<mapsto> v) else map_of ps)"
  by (induction ps) (auto simp: tree_replace_def fun_eq_iff)

lemma move_nodes_tree:
  assumes "keys_sorted ps" "\<forall>k \<in> fst ` set (ix_tree r). \<forall>l \<in> fst ` set ps. k < l"
  shows "ix_tree (move_nodes ps r) = ix_tree r @ ps"
    and "ix_len (move_nodes ps r) = ix_len r + length ps"
proof -
  have snoc: "tree_insert k v qs = qs @ [(k, v)]" if "\<forall>a \<in> fst ` set qs. a < k"
    for k and v :: 'a and qs
    using that by (induction qs) auto
  have "ix_tree (move_nodes ps r) = ix_tree r @ ps \<and>
        ix_len (move_nodes ps r) = ix_len r + length ps"
    using assms
  proof (induction ps arbitrary: r)
    case (Cons p ps)
    obtain k v where p: "p = (k, v)" by (cases p)
    from Cons.prems p have "\<forall>a \<in> fst ` set (ix_tree r). a < k" by auto
    note s = snoc [OF this, of v]
    let ?r = "\<lparr>ix_tree = tree_insert k v (ix_tree r), ix_len = ix_len r + 1\<rparr>"
    from Cons.prems p have "keys_sorted ps"
      "\<forall>a \<in> fst ` set (ix_tree ?r). \<forall>l \<in> fst ` set ps. a < l" by auto
    with Cons.IH [of ?r] p s show ?case by simp
  qed simp
  then show "ix_tree (move_nodes ps r) = ix_tree r @ ps"
    and "ix_len (move_nodes ps r) = ix_len r + length ps" by auto
qed

section \<open>The index as a finite map\<close>

lemma index_new_inv [simp]: "index_inv index_new"
  by (simp add: index_inv_def index_new_def)

lemma index_get_new [simp]: "index_get index_new = Map.empty"
  by (simp add: index_get_def index_new_def fun_eq_iff)

lemma finite_index_dom [simp]: "finite (dom (index_get ix))"
  by (simp add: index_get_def [abs_def] finite_dom_map_of)

lemma index_get_iff: "index_inv ix \<Longrightarrow> index_get ix k = Some v \<longleftrightarrow> (k, v) \<in> set (ix_tree ix)"
  by (simp add: index_get_def index_inv_def keys_sorted_map_of)

lemma index_get_None: "index_get ix k = None \<longleftrightarrow> k \<notin> fst ` set (ix_tree ix)"
  by (simp add: index_get_def map_of_eq_None_iff)

lemma index_insert_fresh:
  assumes "index_inv ix" "index_get ix k = None"
  obtains ix' where "index_insert ix k v (Some k) = Some (None, ix')" "index_inv ix'"
    "index_get ix' = (index_get ix)(k \<mapsto> v)"
proof
  show "index_insert ix k v (Some k) =
      Some (None, \<lparr>ix_tree = tree_insert k v (ix_tree ix), ix_len = ix_len ix + 1\<rparr>)"
    using assms by (simp add: index_insert_def)
  show "index_inv \<lparr>ix_tree = tree_insert k v (ix_tree ix), ix_len = ix_len ix + 1\<rparr>"
    using assms by (simp add: index_inv_def index_get_None keys_sorted_tree_insert)
  show "index_get \<lparr>ix_tree = tree_insert k v (ix_tree ix), ix_len = ix_len ix + 1\<rparr> =
      (index_get ix)(k \<mapsto> v)"
    using map_of_tree_insert [of k "ix_tree ix" v] assms(2) [unfolded index_get_None]
    by (simp add: index_get_def [abs_def])
qed

lemma index_insert_present:
  assumes "index_inv ix" "index_get ix k = Some old"
  shows "\<exists>ix'. index_insert ix k v r = Some (Some old, ix') \<and> index_inv ix' \<and>
    index_get ix' = (index_get ix)(k \<mapsto> v)"
proof -
  have "k \<in> fst ` set (ix_tree ix)" using assms(2) index_get_None [of ix k] by auto
  then show ?thesis
    using assms by (simp add: index_insert_def index_inv_def index_get_def [abs_def]
        map_of_tree_replace)
qed

lemma index_remove_spec:
  assumes "index_inv ix"
  shows "fst (index_remove ix k) = index_get ix k" "index_inv (snd (index_remove ix k))"
    "index_get (snd (index_remove ix k)) = (index_get ix)(k := None)"
proof -
  show "fst (index_remove ix k) = index_get ix k"
    by (simp add: index_remove_def split: option.split)
  show "index_inv (snd (index_remove ix k))"
    using assms length_tree_remove [of "ix_tree ix" k]
    by (auto simp: index_remove_def index_inv_def index_get_def keys_sorted_tree_remove
        split: option.split)
  show "index_get (snd (index_remove ix k)) = (index_get ix)(k := None)"
    using assms
    by (auto simp: index_remove_def index_inv_def index_get_def [abs_def] map_of_tree_remove
        split: option.split)
qed

lemma iter_next_rev_last: "xs \<noteq> [] \<Longrightarrow> iter_next_back xs = Some (last xs)"
  by (cases xs rule: rev_cases) (simp_all add: iter_next_back_def)

lemma keys_sorted_last_max:
  "keys_sorted ps \<Longrightarrow> ps \<noteq> [] \<Longrightarrow> k \<in> fst ` set ps \<Longrightarrow> k \<le> fst (last ps)"
  by (cases ps rule: rev_cases) (auto simp: less_imp_le)

lemma keys_sorted_first_min:
  "keys_sorted (p # ps) \<Longrightarrow> k \<in> fst ` set (p # ps) \<Longrightarrow> fst p \<le> k"
  by (cases p) (auto simp: less_imp_le)

lemma index_next_back_Some:
  assumes "index_inv ix"
  shows "iter_next_back (index_range ix Unbounded hi) = Some (k, v) \<longleftrightarrow>
    index_get ix k = Some v \<and> below_bound hi k \<and>
    (\<forall>l \<in> dom (index_get ix). below_bound hi l \<longrightarrow> l \<le> k)" (is "?L = _ \<longleftrightarrow> ?R")
proof
  let ?r = "index_range ix Unbounded hi"
  have sorted: "keys_sorted ?r"
    using assms by (simp add: index_range_def index_inv_def keys_sorted_filter)
  have mem: "(l, w) \<in> set ?r \<longleftrightarrow> index_get ix l = Some w \<and> below_bound hi l" for l w
    using assms by (auto simp: index_range_def index_get_iff)
  have dommem: "l \<in> fst ` set ?r \<longleftrightarrow> l \<in> dom (index_get ix) \<and> below_bound hi l" for l
    using mem by (force simp: image_iff)
  {
    assume L: "?L = Some (k, v)"
    then have ne: "?r \<noteq> []" by (auto simp: iter_next_back_def)
    with L have l: "last ?r = (k, v)" by (simp add: iter_next_rev_last)
    then have "(k, v) \<in> set ?r" using ne last_in_set by metis
    moreover have "l \<le> k" if "l \<in> dom (index_get ix)" "below_bound hi l" for l
      using keys_sorted_last_max [OF sorted ne, of l] that dommem [of l] \<open>last ?r = (k, v)\<close>
      by simp
    ultimately show ?R using mem by blast
  }
  assume R: ?R
  then have kv: "(k, v) \<in> set ?r" using mem by blast
  then have ne: "?r \<noteq> []" by auto
  obtain l w where lw: "last ?r = (l, w)" by (cases "last ?r")
  then have lw_in: "(l, w) \<in> set ?r" using ne last_in_set by metis
  have "k \<le> l" using keys_sorted_last_max [OF sorted ne, of k] kv lw by (force simp: image_iff)
  moreover have "l \<le> k" using R lw_in mem by blast
  ultimately have "l = k" by simp
  then have "w = v" using lw_in kv mem by simp
  then show "?L = Some (k, v)" using ne lw \<open>l = k\<close> by (simp add: iter_next_rev_last)
qed

lemma index_next_back_None:
  assumes "index_inv ix"
  shows "iter_next_back (index_range ix Unbounded hi) = None \<longleftrightarrow>
    (\<forall>l \<in> dom (index_get ix). \<not> below_bound hi l)"
proof -
  let ?r = "index_range ix Unbounded hi"
  have "iter_next_back ?r = None \<longleftrightarrow> ?r = []"
    using iter_next_rev_last [of ?r] by (cases "?r = []") (simp_all add: iter_next_back_def)
  then show ?thesis
    using assms by (force simp: index_range_def filter_empty_conv index_get_iff)
qed

lemma index_next_Some:
  assumes "index_inv ix"
  shows "iter_next (index_range ix lo Unbounded) = Some (k, v) \<longleftrightarrow>
    index_get ix k = Some v \<and> above_bound lo k \<and>
    (\<forall>l \<in> dom (index_get ix). above_bound lo l \<longrightarrow> k \<le> l)" (is "?L = _ \<longleftrightarrow> ?R")
proof
  let ?r = "index_range ix lo Unbounded"
  have sorted: "keys_sorted ?r"
    using assms by (simp add: index_range_def index_inv_def keys_sorted_filter)
  have mem: "(l, w) \<in> set ?r \<longleftrightarrow> index_get ix l = Some w \<and> above_bound lo l" for l w
    using assms by (auto simp: index_range_def index_get_iff)
  {
    assume L: "?L = Some (k, v)"
    then obtain ps where r: "?r = (k, v) # ps" by (cases ?r) auto
    then have "(k, v) \<in> set ?r" by simp
    moreover have "k \<le> l" if "l \<in> dom (index_get ix)" "above_bound lo l" for l
    proof -
      from that obtain w where "(l, w) \<in> set ?r" using mem by blast
      then show ?thesis
        using keys_sorted_first_min [of "(k, v)" ps l] sorted r by (force simp: image_iff)
    qed
    ultimately show ?R using mem by blast
  }
  assume R: ?R
  then have kv: "(k, v) \<in> set ?r" using mem by blast
  then obtain l w ps where r: "?r = (l, w) # ps" by (cases ?r) auto
  then have lw_in: "(l, w) \<in> set ?r" by simp
  have "l \<le> k" using keys_sorted_first_min [of "(l, w)" ps k] sorted r kv by (force simp: image_iff)
  moreover have "k \<le> l" using R lw_in mem by blast
  ultimately have "l = k" by simp
  then have "w = v" using lw_in kv mem by simp
  then show "?L = Some (k, v)" using r \<open>l = k\<close> by simp
qed

lemma index_next_None:
  assumes "index_inv ix"
  shows "iter_next (index_range ix lo Unbounded) = None \<longleftrightarrow>
    (\<forall>l \<in> dom (index_get ix). \<not> above_bound lo l)"
proof -
  let ?r = "index_range ix lo Unbounded"
  have "iter_next ?r = None \<longleftrightarrow> ?r = []" by (cases ?r) auto
  then show ?thesis
    using assms by (force simp: index_range_def filter_empty_conv index_get_iff)
qed

section \<open>The interface of an ordered index\<close>

text \<open>
  What a client of an ordered index relies on: insertion and removal act as map update and
  the two range queries return the neighbours of an address.
\<close>

locale ordered_index =
  fixes get :: "'i \<Rightarrow> nat \<Rightarrow> 'v option"
    and put :: "'i \<Rightarrow> nat \<Rightarrow> 'v \<Rightarrow> 'i"
    and del :: "'i \<Rightarrow> nat \<Rightarrow> 'i"
    and floor_at :: "'i \<Rightarrow> nat \<Rightarrow> (nat \<times> 'v) option"
    and ok :: "'i \<Rightarrow> bool"
  assumes get_put: "ok i \<Longrightarrow> get (put i k v) = (get i)(k \<mapsto> v)"
    and get_del: "ok i \<Longrightarrow> get (del i k) = (get i)(k := None)"
    and ok_put: "ok i \<Longrightarrow> ok (put i k v)"
    and ok_del: "ok i \<Longrightarrow> ok (del i k)"
    and floor_Some: "ok i \<Longrightarrow> floor_at i a = Some (k, v) \<longleftrightarrow>
          get i k = Some v \<and> k \<le> a \<and> (\<forall>l \<in> dom (get i). l \<le> a \<longrightarrow> l \<le> k)"
    and floor_None: "ok i \<Longrightarrow> floor_at i a = None \<longleftrightarrow> (\<forall>l \<in> dom (get i). a < l)"
begin

lemma put_del_same: "ok i \<Longrightarrow> get (del (put i k v) k) = (get i)(k := None)"
  by (simp add: get_put get_del ok_put)

lemma floor_after_put:
  assumes "ok i" "floor_at i a = Some (l, w)" "l < k" "k \<le> a"
  shows "floor_at (put i k v) a = Some (k, v)"
proof -
  have "m \<le> l" if "m \<in> dom (get i)" "m \<le> a" for m
    using assms(1,2) that by (simp add: floor_Some)
  then show ?thesis
    using assms(1,3,4) by (auto simp: floor_Some ok_put get_put dest: order_trans less_imp_le)
qed

text \<open>
  If the values are intervals that start at their keys and do not overlap, the value with
  the greatest key at or below an address is the only one that can contain the address.
\<close>

lemma floor_covers:
  assumes ok: "ok i"
    and disj: "\<And>k l v w. get i k = Some v \<Longrightarrow> get i l = Some w \<Longrightarrow> k < l \<Longrightarrow> k + len v \<le> l"
  shows "floor_at i a = Some (k, v) \<and> a < k + len v \<longleftrightarrow>
    get i k = Some v \<and> k \<le> a \<and> a < k + len v"
proof
  assume R: "get i k = Some v \<and> k \<le> a \<and> a < k + len v"
  have "l \<le> k" if "l \<in> dom (get i)" "l \<le> a" for l
  proof (rule ccontr)
    assume "\<not> l \<le> k"
    with that R obtain w where "get i l = Some w" "k < l" by auto
    with disj [of k v l w] R that(2) show False by linarith
  qed
  with R ok show "floor_at i a = Some (k, v) \<and> a < k + len v" by (simp add: floor_Some)
qed (use ok in \<open>simp add: floor_Some\<close>)

end

definition index_put :: "'v index \<Rightarrow> nat \<Rightarrow> 'v \<Rightarrow> 'v index" where
  \<comment> \<open>insertion with the node reserved for the key\<close>
  "index_put ix k v = (case index_insert ix k v (Some k) of Some (_, ix') \<Rightarrow> ix' | None \<Rightarrow> ix)"

definition index_floor :: "'v index \<Rightarrow> nat \<Rightarrow> (nat \<times> 'v) option" where
  "index_floor ix a = iter_next_back (index_range ix Unbounded (Included a))"

lemma index_put_spec:
  assumes "index_inv ix"
  shows "index_get (index_put ix k v) = (index_get ix)(k \<mapsto> v)" "index_inv (index_put ix k v)"
proof -
  have "index_get (index_put ix k v) = (index_get ix)(k \<mapsto> v) \<and> index_inv (index_put ix k v)"
  proof (cases "index_get ix k")
    case None
    obtain ix' where "index_insert ix k v (Some k) = Some (None, ix')" "index_inv ix'"
      "index_get ix' = (index_get ix)(k \<mapsto> v)"
      by (rule index_insert_fresh [OF assms None])
    then show ?thesis by (simp add: index_put_def)
  next
    case (Some old)
    from index_insert_present [OF assms Some, of v "Some k"] show ?thesis
      by (auto simp: index_put_def)
  qed
  then show "index_get (index_put ix k v) = (index_get ix)(k \<mapsto> v)" "index_inv (index_put ix k v)"
    by auto
qed

interpretation idx: ordered_index index_get index_put "\<lambda>ix k. snd (index_remove ix k)"
  index_floor index_inv
proof unfold_locales
  fix ix :: "'a index" and a k v
  assume "index_inv ix"
  then show "index_floor ix a = Some (k, v) \<longleftrightarrow>
      index_get ix k = Some v \<and> k \<le> a \<and> (\<forall>l \<in> dom (index_get ix). l \<le> a \<longrightarrow> l \<le> k)"
    by (simp add: index_floor_def index_next_back_Some)
next
  fix ix :: "'a index" and a
  assume "index_inv ix"
  then show "index_floor ix a = None \<longleftrightarrow> (\<forall>l \<in> dom (index_get ix). a < l)"
    by (simp add: index_floor_def index_next_back_None not_le)
qed (auto simp: index_put_spec index_remove_spec)

section \<open>Detaching ranges\<close>

lemma takeWhile_keys:
  "keys_sorted ps \<Longrightarrow> takeWhile (\<lambda>(k, _). k < c) ps = filter (\<lambda>(k, _). k < c) ps"
proof (induction ps)
  case (Cons p ps)
  obtain a b where p: "p = (a, b)" by (cases p)
  show ?case
  proof (cases "a < c")
    case False
    with Cons.prems p have "\<forall>q \<in> set ps. \<not> fst q < c" by auto
    then have "filter (\<lambda>(k, _). k < c) ps = []" by (auto simp: filter_empty_conv)
    with False p show ?thesis by simp
  qed (use Cons p in simp)
qed simp

lemma dropWhile_keys:
  "keys_sorted ps \<Longrightarrow> dropWhile (\<lambda>(k, _). k < c) ps = filter (\<lambda>(k, _). \<not> k < c) ps"
proof (induction ps)
  case (Cons p ps)
  obtain a b where p: "p = (a, b)" by (cases p)
  show ?case
  proof (cases "a < c")
    case False
    with Cons.prems p have "\<forall>q \<in> set ps. \<not> fst q < c" by auto
    then have "filter (\<lambda>(k, _). \<not> k < c) ps = ps" by (auto simp: filter_id_conv)
    with False p show ?thesis by simp
  qed (use Cons p in simp)
qed simp

lemma map_of_filter_keys:
  "map_of (filter (\<lambda>(k, _). P k) ps) = map_of ps |` {k. P k}"
  by (induction ps) (auto simp: restrict_map_def fun_eq_iff)

lemma length_filter_keys2:
  "length ps = length (filter (\<lambda>(k, _). k < c) ps) + length (filter (\<lambda>(k, _). \<not> k < c) ps)"
  for c :: nat
  by (induction ps) auto

lemma length_filter_keys3:
  "length ps = length (filter (\<lambda>(k, _). k < a) ps) +
     length (filter (\<lambda>(k, _). a \<le> k \<and> k < b) ps) +
     length (filter (\<lambda>(k, _). a \<le> k \<and> \<not> k < b) ps)" for a b :: nat
  by (induction ps) auto

lemma index_of_nodes:
  "keys_sorted ps \<Longrightarrow> index_inv (move_nodes ps index_new) \<and>
     ix_tree (move_nodes ps index_new) = ps \<and> ix_len (move_nodes ps index_new) = length ps"
  using move_nodes_tree [of ps index_new] by (simp add: index_inv_def index_new_def)

text \<open>
  C8. Detaching the keys of a half-open range splits the index: the detached index holds
  exactly the entries whose keys lie in the range, the original keeps exactly the others,
  and both stay well-formed with correct length counters.
\<close>

theorem index_extract_range_partitions:
  assumes "index_inv ix" "index_extract_range ix start stop = (kept, removed)"
  shows "index_inv kept \<and> index_inv removed \<and>
    index_get kept = index_get ix |` (- {start..<stop}) \<and>
    index_get removed = index_get ix |` {start..<stop}"
proof -
  let ?t = "ix_tree ix"
  have sorted: "keys_sorted ?t" and len: "ix_len ix = length ?t"
    using assms(1) by (auto simp: index_inv_def)
  let ?front = "filter (\<lambda>(k, _). k < start) ?t"
  let ?mid = "filter (\<lambda>(k, _). start \<le> k \<and> k < stop) ?t"
  let ?rebuilt = "filter (\<lambda>(k, _). start \<le> k \<and> \<not> k < stop) ?t"
  have rest: "dropWhile (\<lambda>(k, _). k < start) ?t = filter (\<lambda>(k, _). start \<le> k) ?t"
    by (simp add: dropWhile_keys sorted not_less)
  have srest: "keys_sorted (filter (\<lambda>(k, _). start \<le> k) ?t)"
    using sorted by (rule keys_sorted_filter)
  have mid: "takeWhile (\<lambda>(k, _). k < stop) (filter (\<lambda>(k, _). start \<le> k) ?t) = ?mid"
    unfolding takeWhile_keys [OF srest] by (auto intro: filter_cong)
  have tail_nodes: "dropWhile (\<lambda>(k, _). k < stop) (filter (\<lambda>(k, _). start \<le> k) ?t) = ?rebuilt"
    unfolding dropWhile_keys [OF srest] by (auto intro: filter_cong)
  have smid: "keys_sorted ?mid" using sorted by (rule keys_sorted_filter)
  have kept: "kept = \<lparr>ix_tree = ?front @ ?rebuilt, ix_len = length ?t - length ?mid\<rparr>"
    and removed: "removed = move_nodes ?mid index_new"
    using assms(2) index_of_nodes [OF smid]
    by (auto simp: index_extract_range_def rest mid tail_nodes takeWhile_keys sorted len Let_def)
  have "length ?t = length ?front + length ?mid + length ?rebuilt"
    by (rule length_filter_keys3)
  then have "ix_len kept = length (ix_tree kept)" by (simp add: kept)
  moreover have "keys_sorted (?front @ ?rebuilt)"
    using sorted by (auto simp: keys_sorted_filter)
  moreover have "map_of (?front @ ?rebuilt) = map_of ?t |` (- {start..<stop})"
  proof -
    have "map_of (?front @ ?rebuilt) =
        map_of ?t |` {k. start \<le> k \<and> \<not> k < stop} ++ map_of ?t |` {k. k < start}"
      by (simp only: map_of_append map_of_filter_keys)
    also have "\<dots> = map_of ?t |` (- {start..<stop})"
      by (auto simp: fun_eq_iff restrict_map_def map_add_def split: option.split)
    finally show ?thesis .
  qed
  moreover have "map_of ?mid = map_of ?t |` {start..<stop}"
    using map_of_filter_keys [of "\<lambda>k. start \<le> k \<and> k < stop" ?t]
    by (simp add: atLeastLessThan_def atLeast_def lessThan_def Int_def)
  ultimately show ?thesis
    using index_of_nodes [OF smid] kept removed smid
    by (simp add: index_inv_def index_get_def [abs_def])
qed

theorem index_extract_range_witness:
  "index_extract_range \<lparr>ix_tree = [(1, True), (4, False), (9, True)], ix_len = 3\<rparr> 2 9 =
     (\<lparr>ix_tree = [(1, True), (9, True)], ix_len = 2\<rparr>, \<lparr>ix_tree = [(4, False)], ix_len = 1\<rparr>) \<and>
   index_inv \<lparr>ix_tree = [(1, True), (9, True)], ix_len = 2\<rparr>"
proof -
  let ?ix = "\<lparr>ix_tree = [(1, True), (4, False), (9, True)], ix_len = 3\<rparr>"
  have inv: "index_inv ?ix" by (simp add: index_inv_def)
  have e: "index_extract_range ?ix 2 9 =
      (\<lparr>ix_tree = [(1, True), (9, True)], ix_len = 2\<rparr>, \<lparr>ix_tree = [(4, False)], ix_len = 1\<rparr>)"
    by (simp add: index_extract_range_def index_new_def)
  show ?thesis using index_extract_range_partitions [OF inv e] e by simp
qed

lemma index_split_off_spec:
  assumes "index_inv ix" "index_split_off ix key = (kept, removed)"
  shows "index_inv kept \<and> index_inv removed \<and>
    index_get kept = index_get ix |` {..<key} \<and> index_get removed = index_get ix |` {key..}"
proof (cases "case iter_next (ix_tree ix) of None \<Rightarrow> False | Some (k, _) \<Rightarrow> key \<le> k")
  case True
  then obtain k v ps where t: "ix_tree ix = (k, v) # ps" and k: "key \<le> k"
    by (cases "ix_tree ix") auto
  from assms(2) True have "kept = index_new" "removed = ix" by (auto simp: index_split_off_def)
  moreover have "key \<le> l" if "index_get ix l \<noteq> None" for l
    using that k t assms(1) by (auto simp: index_inv_def index_get_def dest!: map_of_SomeD split: if_splits)
  ultimately show ?thesis
    using assms(1) by (simp add: restrict_map_def fun_eq_iff) (metis not_le lessThan_iff option.exhaust)
next
  case False
  let ?t = "ix_tree ix"
  let ?rebuilt = "filter (\<lambda>(k, _). \<not> k < key) ?t"
  have sorted: "keys_sorted ?t" and len: "ix_len ix = length ?t"
    using assms(1) by (auto simp: index_inv_def)
  have sback: "keys_sorted ?rebuilt" using sorted by (rule keys_sorted_filter)
  from assms(2) False index_of_nodes [OF sback]
  have kept: "kept = \<lparr>ix_tree = filter (\<lambda>(k, _). k < key) ?t, ix_len = length ?t - length ?rebuilt\<rparr>"
    and removed: "removed = move_nodes ?rebuilt index_new"
    by (auto simp: index_split_off_def takeWhile_keys dropWhile_keys sorted len Let_def)
  have "length ?t = length (filter (\<lambda>(k, _). k < key) ?t) + length ?rebuilt"
    by (rule length_filter_keys2)
  moreover have "map_of ?rebuilt = map_of ?t |` {key..}"
    using map_of_filter_keys [of "\<lambda>k. \<not> k < key" ?t] by (simp add: atLeast_def not_less)
  moreover have "map_of (filter (\<lambda>(k, _). k < key) ?t) = map_of ?t |` {..<key}"
    using map_of_filter_keys [of "\<lambda>k. k < key" ?t] by (simp add: lessThan_def)
  ultimately show ?thesis
    using index_of_nodes [OF sback] kept removed sorted
    by (simp add: index_inv_def index_get_def [abs_def] keys_sorted_filter)
qed

lemma index_rekey_spec:
  assumes "index_inv ix" "index_get ix old = Some v" "index_get ix new = None"
  shows "\<exists>ix'. index_rekey ix old new = Some ix' \<and> index_inv ix' \<and>
    index_get ix' = (index_get ix)(old := None, new \<mapsto> v)"
proof -
  let ?t = "tree_remove old (ix_tree ix)"
  have "map_of ?t = (index_get ix)(old := None)"
    using assms(1) by (simp add: index_inv_def map_of_tree_remove index_get_def [abs_def])
  moreover have new: "new \<notin> fst ` set ?t"
    using assms(3) set_tree_remove_subset [of old "ix_tree ix"] by (force simp: index_get_None)
  ultimately show ?thesis
    using assms length_tree_remove [of "ix_tree ix" old v] map_of_tree_insert [OF new]
    by (simp add: index_rekey_def index_contains_key_def index_inv_def index_get_def [abs_def]
        keys_sorted_tree_insert keys_sorted_tree_remove)
qed

end
