(* ===== verification/Vmem.thy ===== *)
theory Vmem
  imports Index
begin

text \<open>
  Model of \<open>kernel/src/mem/vmem.rs\<close>, the virtual-address arena. Boundary tags live in the
  ordered index of \<open>Index\<close>; the segregated free lists are threaded through the tags as
  doubly linked lists, exactly as in the source: a link is the base address of the tag it
  points to (tags never move and the base of a live tag is unique). Following a link to a tag
  that is not in the index, a failed assertion or an \<open>expect\<close> on a missing tag is a panic.
  The outcome of reserving a tag from the pool is the argument \<open>pool\<close>.

  The theory \<open>Vmem_Lists\<close> proves the free lists correct, \<open>Vmem_Correct\<close> the arena.
\<close>

unbundle bit_operations_syntax

section \<open>Data\<close>

definition FREELIST_COUNT :: nat where
  "FREELIST_COUNT = 64"

datatype vmem_fit = Instant | Best

datatype vmem_error = NoSpace | NoMemory | Invalid

record segment =
  seg_base :: nat
  seg_size :: nat
  seg_span :: nat
  seg_free :: bool
  seg_previous :: "nat option"
  seg_next :: "nat option"

definition segment_new :: "nat \<Rightarrow> nat \<Rightarrow> nat \<Rightarrow> bool \<Rightarrow> segment" where
  "segment_new base sz span free =
     \<lparr>seg_base = base, seg_size = sz, seg_span = span, seg_free = free,
      seg_previous = None, seg_next = None\<rparr>"

definition seg_end :: "segment \<Rightarrow> nat" where
  "seg_end t = seg_base t + seg_size t"

record reservation =
  res_base :: nat
  res_size :: nat
  res_start :: "nat option"
  res_end :: "nat option"

record vmem =
  vm_segments :: "segment index"
  vm_freelists :: "nat option list"
  vm_freelist_map :: u64
  vm_quantum :: nat
  vm_total :: nat
  vm_used :: nat

section \<open>Size classes and placement\<close>

definition freelist_index :: "nat \<Rightarrow> nat" where
  "freelist_index sz = 63 - leading_zeros (max sz 1)"

definition guaranteed_freelist :: "nat \<Rightarrow> nat" where
  "guaranteed_freelist sz = freelist_index sz + (if is_power_of_two sz then 0 else 1)"

definition placement :: "segment \<Rightarrow> nat \<Rightarrow> nat \<Rightarrow> nat \<Rightarrow> nat \<Rightarrow> nat option" where
  "placement segment sz align mn mx = do {
     b \<leftarrow> checked_add (max (seg_base segment) mn) (align - 1);
     let base = mask_down b align;
     e \<leftarrow> checked_add base sz;
     if e \<le> seg_end segment \<and> e \<le> mx then Some base else None
   }"

section \<open>Boundary tags and free lists\<close>

definition vmem_new :: "nat \<Rightarrow> vmem panics" where
  "vmem_new quantum = do {
     assert_that (is_power_of_two quantum);
     Some \<lparr>vm_segments = index_new, vm_freelists = replicate FREELIST_COUNT None,
           vm_freelist_map = 0, vm_quantum = quantum, vm_total = 0, vm_used = 0\<rparr>
   }"

definition vmem_available :: "vmem \<Rightarrow> nat" where
  "vmem_available v = vm_total v - vm_used v"

definition vmem_tag :: "vmem \<Rightarrow> nat \<Rightarrow> segment panics" where
  "vmem_tag v base = index_get (vm_segments v) base"

definition vmem_link :: "vmem \<Rightarrow> nat \<Rightarrow> segment panics" where
  "vmem_link v pointer = index_get (vm_segments v) pointer"

definition tag_set :: "vmem \<Rightarrow> nat \<Rightarrow> (segment \<Rightarrow> segment) \<Rightarrow> vmem panics" where
  \<comment> \<open>a write to the cells of a tag\<close>
  "tag_set v base f = do {
     t \<leftarrow> index_get (vm_segments v) base;
     Some (v\<lparr>vm_segments :=
       (vm_segments v)\<lparr>ix_tree := tree_replace base (f t) (ix_tree (vm_segments v))\<rparr>\<rparr>)
   }"

definition seg_insert :: "vmem \<Rightarrow> nat \<Rightarrow> segment \<Rightarrow> nat option \<Rightarrow> vmem panics" where
  "seg_insert v base t reserved = do {
     (_, ix) \<leftarrow> index_insert (vm_segments v) base t reserved;
     Some (v\<lparr>vm_segments := ix\<rparr>)
   }"

definition seg_remove :: "vmem \<Rightarrow> nat \<Rightarrow> vmem" where
  "seg_remove v base = v\<lparr>vm_segments := snd (index_remove (vm_segments v) base)\<rparr>"

definition reserve_tag :: "(nat \<Rightarrow> bool) \<Rightarrow> nat \<Rightarrow> vmem_error + nat" where
  "reserve_tag pool base =
     (case index_reserve_new pool base of Inl _ \<Rightarrow> Inl NoMemory | Inr n \<Rightarrow> Inr n)"

definition push_free :: "vmem \<Rightarrow> nat \<Rightarrow> vmem panics" where
  "push_free v base = do {
     t \<leftarrow> vmem_tag v base;
     let list = freelist_index (seg_size t);
     let head = vm_freelists v ! list;
     v \<leftarrow> tag_set v base (\<lambda>t. t\<lparr>seg_previous := None, seg_next := head\<rparr>);
     v \<leftarrow> (case head of
             None \<Rightarrow> Some v
           | Some h \<Rightarrow> tag_set v h (\<lambda>t. t\<lparr>seg_previous := Some base\<rparr>));
     Some (v\<lparr>vm_freelists := (vm_freelists v)[list := Some base],
             vm_freelist_map := vm_freelist_map v OR push_bit list 1\<rparr>)
   }"

definition pop_free :: "vmem \<Rightarrow> nat \<Rightarrow> vmem panics" where
  "pop_free v base = do {
     t \<leftarrow> vmem_tag v base;
     let list = freelist_index (seg_size t);
     let previous = seg_previous t;
     let nxt = seg_next t;
     v \<leftarrow> tag_set v base (\<lambda>t. t\<lparr>seg_previous := None, seg_next := None\<rparr>);
     v \<leftarrow> (case previous of
             Some p \<Rightarrow> tag_set v p (\<lambda>t. t\<lparr>seg_next := nxt\<rparr>)
           | None \<Rightarrow> (let v = v\<lparr>vm_freelists := (vm_freelists v)[list := nxt]\<rparr> in
               Some (if nxt = None
                     then v\<lparr>vm_freelist_map := vm_freelist_map v AND NOT (push_bit list 1)\<rparr>
                     else v)));
     (case nxt of
        Some n \<Rightarrow> tag_set v n (\<lambda>t. t\<lparr>seg_previous := previous\<rparr>)
      | None \<Rightarrow> Some v)
   }"

section \<open>Searching\<close>

definition trailing_zeros :: "u64 \<Rightarrow> nat" where
  "trailing_zeros w = length (takeWhile (\<lambda>i. \<not> bit w i) [0..<64])"

partial_function (option) instant_walk ::
  "vmem \<Rightarrow> nat \<Rightarrow> nat option \<Rightarrow> (nat \<times> nat) option panics" where
  "instant_walk v sz nxt =
     (case nxt of
        None \<Rightarrow> Some None
      | Some pointer \<Rightarrow> Option.bind (vmem_link v pointer) (\<lambda>tag.
          if sz \<le> seg_size tag then Some (Some (seg_base tag, seg_base tag))
          else instant_walk v sz (seg_next tag)))"

declare instant_walk.simps [code]

definition instant_fit :: "vmem \<Rightarrow> nat \<Rightarrow> (nat \<times> nat) option panics" where
  "instant_fit v sz = do {
     let guaranteed = guaranteed_freelist sz;
     let candidates = (if guaranteed < FREELIST_COUNT
                       then vm_freelist_map v AND push_bit guaranteed (NOT 0) else 0);
     (if candidates \<noteq> 0 then do {
        pointer \<leftarrow> vm_freelists v ! trailing_zeros candidates;
        tag \<leftarrow> vmem_link v pointer;
        Some (Some (seg_base tag, seg_base tag))
      } else
        instant_walk v sz (vm_freelists v ! freelist_index sz))
   }"

partial_function (option) scan_list ::
  "vmem \<Rightarrow> nat \<Rightarrow> nat \<Rightarrow> nat \<Rightarrow> nat \<Rightarrow> bool \<Rightarrow> (nat \<times> nat \<times> nat) option \<Rightarrow> nat option \<Rightarrow>
   ((nat \<times> nat) + (nat \<times> nat \<times> nat) option) panics" where
  "scan_list v sz align mn mx best chosen nxt =
     (case nxt of
        None \<Rightarrow> Some (Inr chosen)
      | Some pointer \<Rightarrow> Option.bind (vmem_link v pointer) (\<lambda>tag.
          case placement tag sz align mn mx of
            None \<Rightarrow> scan_list v sz align mn mx best chosen (seg_next tag)
          | Some base \<Rightarrow>
              if \<not> best then Some (Inl (seg_base tag, base))
              else scan_list v sz align mn mx best
                (if (case chosen of None \<Rightarrow> True
                     | Some (_, _, chosen_size) \<Rightarrow> seg_size tag < chosen_size)
                 then Some (seg_base tag, base, seg_size tag) else chosen)
                (seg_next tag)))"

declare scan_list.simps [code]

fun scan_lists ::
  "vmem \<Rightarrow> nat \<Rightarrow> nat \<Rightarrow> nat \<Rightarrow> nat \<Rightarrow> bool \<Rightarrow> nat list \<Rightarrow> (nat \<times> nat) option panics" where
  "scan_lists v sz align mn mx best [] = Some None"
| "scan_lists v sz align mn mx best (list # ls) = do {
     r \<leftarrow> scan_list v sz align mn mx best None (vm_freelists v ! list);
     (case r of
        Inl found \<Rightarrow> Some (Some found)
      | Inr (Some (segment, base, _)) \<Rightarrow> Some (Some (segment, base))
      | Inr None \<Rightarrow> scan_lists v sz align mn mx best ls)
   }"

definition scan_fit ::
  "vmem \<Rightarrow> nat \<Rightarrow> nat \<Rightarrow> nat \<Rightarrow> nat \<Rightarrow> bool \<Rightarrow> (nat \<times> nat) option panics" where
  "scan_fit v sz align mn mx best =
     scan_lists v sz align mn mx best [freelist_index sz..<FREELIST_COUNT]"

definition free_segment_containing :: "vmem \<Rightarrow> nat \<Rightarrow> nat option" where
  "free_segment_containing v address =
     (case iter_next_back (index_range (vm_segments v) Unbounded (Included address)) of
        Some (base, t) \<Rightarrow> if seg_free t \<and> address < seg_end t then Some base else None
      | None \<Rightarrow> None)"

section \<open>Operations of the arena\<close>

definition round_size :: "vmem \<Rightarrow> nat \<Rightarrow> vmem_error + nat" where
  "round_size v sz =
     (if sz = 0 then Inl Invalid
      else case checked_add sz (vm_quantum v - 1) of
        Some n \<Rightarrow> Inr (mask_down n (vm_quantum v))
      | None \<Rightarrow> Inl Invalid)"

definition fixed_size :: "vmem \<Rightarrow> nat \<Rightarrow> nat \<Rightarrow> vmem_error + nat" where
  "fixed_size v base sz =
     (case round_size v sz of
        Inl e \<Rightarrow> Inl e
      | Inr sz \<Rightarrow>
          if base mod vm_quantum v \<noteq> 0 \<or> checked_add base sz = None then Inl Invalid
          else Inr sz)"

definition prepare_take ::
  "(nat \<Rightarrow> bool) \<Rightarrow> vmem \<Rightarrow> nat \<Rightarrow> nat \<Rightarrow> nat \<Rightarrow> (vmem_error + reservation) panics" where
  "prepare_take pool v segment base sz = do {
     tag \<leftarrow> vmem_tag v segment;
     Some (case (if base \<noteq> segment then map_sum id Some (reserve_tag pool base) else Inr None) of
             Inl e \<Rightarrow> Inl e
           | Inr start \<Rightarrow>
               (case (if base + sz \<noteq> seg_end tag
                      then map_sum id Some (reserve_tag pool (base + sz)) else Inr None) of
                  Inl e \<Rightarrow> Inl e
                | Inr trailing \<Rightarrow>
                    Inr \<lparr>res_base = base, res_size = sz, res_start = start, res_end = trailing\<rparr>))
   }"

definition vmem_take :: "vmem \<Rightarrow> nat \<Rightarrow> reservation \<Rightarrow> vmem panics" where
  "vmem_take v segment r = do {
     let base = res_base r;
     let sz = res_size r;
     original \<leftarrow> vmem_tag v segment;
     let stop = seg_end original;
     let span = seg_span original;
     v \<leftarrow> pop_free v segment;
     v \<leftarrow> (if segment < base then do {
              v \<leftarrow> tag_set v segment (\<lambda>t. t\<lparr>seg_size := base - segment\<rparr>);
              v \<leftarrow> push_free v segment;
              seg_insert v base (segment_new base sz span False) (res_start r)
            } else
              tag_set v segment (\<lambda>t. t\<lparr>seg_size := sz, seg_free := False\<rparr>));
     v \<leftarrow> (if base + sz < stop then do {
              v \<leftarrow> seg_insert v (base + sz)
                     (segment_new (base + sz) (stop - base - sz) span True) (res_end r);
              push_free v (base + sz)
            } else Some v);
     Some (v\<lparr>vm_used := vm_used v + sz\<rparr>)
   }"

definition add_span ::
  "(nat \<Rightarrow> bool) \<Rightarrow> vmem \<Rightarrow> nat \<Rightarrow> nat \<Rightarrow> ((vmem_error + unit) \<times> vmem) panics" where
  "add_span pool v base sz =
     (case checked_add base sz of None \<Rightarrow> Some (Inl Invalid, v) | Some stop \<Rightarrow>
      case checked_add (vm_total v) sz of None \<Rightarrow> Some (Inl Invalid, v) | Some new_total \<Rightarrow>
      if sz = 0 \<or> base mod vm_quantum v \<noteq> 0 \<or> sz mod vm_quantum v \<noteq> 0 \<or>
         (case iter_next_back (index_range (vm_segments v) Unbounded (Excluded stop)) of
            None \<Rightarrow> False | Some (_, tag) \<Rightarrow> base < seg_end tag)
      then Some (Inl Invalid, v)
      else case reserve_tag pool base of Inl e \<Rightarrow> Some (Inl e, v) | Inr tag \<Rightarrow> do {
        v \<leftarrow> seg_insert v base (segment_new base sz base True) (Some tag);
        v \<leftarrow> push_free v base;
        Some (Inr (), v\<lparr>vm_total := new_total\<rparr>)
      })"

definition take_at ::
  "(nat \<Rightarrow> bool) \<Rightarrow> vmem \<Rightarrow> nat \<Rightarrow> nat \<Rightarrow> nat \<Rightarrow> ((vmem_error + nat) \<times> vmem) panics" where
  \<comment> \<open>the common tail of the allocating operations: reserve the tags, then take the range\<close>
  "take_at pool v segment base sz = do {
     r \<leftarrow> prepare_take pool v segment base sz;
     (case r of
        Inl e \<Rightarrow> Some (Inl e, v)
      | Inr reservation \<Rightarrow> do {
          v \<leftarrow> vmem_take v segment reservation;
          Some (Inr base, v)
        })
   }"

definition xalloc ::
  "(nat \<Rightarrow> bool) \<Rightarrow> vmem \<Rightarrow> nat \<Rightarrow> nat \<Rightarrow> nat \<Rightarrow> nat \<Rightarrow> vmem_fit \<Rightarrow>
   ((vmem_error + nat) \<times> vmem) panics" where
  "xalloc pool v sz align mn mx fit =
     (case round_size v sz of
        Inl e \<Rightarrow> Some (Inl e, v)
      | Inr sz \<Rightarrow>
          if align = 0 \<or> \<not> is_power_of_two align \<or> mx \<le> mn then Some (Inl Invalid, v)
          else do {
            let align = max align (vm_quantum v);
            found \<leftarrow> (if mn = 0 \<and> mx = U64_MAX \<and> align = vm_quantum v \<and> fit = Instant
                      then instant_fit v sz
                      else scan_fit v sz align mn mx (fit = Best));
            (case found of
               None \<Rightarrow> Some (Inl NoSpace, v)
             | Some (segment, base) \<Rightarrow> take_at pool v segment base sz)
          })"

definition vmem_alloc ::
  "(nat \<Rightarrow> bool) \<Rightarrow> vmem \<Rightarrow> nat \<Rightarrow> nat \<Rightarrow> vmem_fit \<Rightarrow> ((vmem_error + nat) \<times> vmem) panics" where
  "vmem_alloc pool v sz align fit = xalloc pool v sz align 0 U64_MAX fit"

definition alloc_random ::
  "(nat \<Rightarrow> bool) \<Rightarrow> vmem \<Rightarrow> nat \<Rightarrow> nat \<Rightarrow> nat \<Rightarrow> ((vmem_error + nat) \<times> vmem) panics" where
  "alloc_random pool v sz align entropy =
     (case round_size v sz of
        Inl e \<Rightarrow> Some (Inl e, v)
      | Inr sz \<Rightarrow>
          if align = 0 \<or> \<not> is_power_of_two align then Some (Inl Invalid, v)
          else do {
            let align = max align (vm_quantum v);
            found \<leftarrow> (if align = vm_quantum v then instant_fit v sz
                      else scan_fit v sz align 0 U64_MAX False);
            (case found of
               None \<Rightarrow> Some (Inl NoSpace, v)
             | Some (segment, start) \<Rightarrow> do {
                 tag \<leftarrow> vmem_tag v segment;
                 let slack = seg_end tag - start - sz;
                 let base = start + (entropy mod (slack div align + 1)) * align;
                 take_at pool v segment base sz
               })
          })"

definition alloc_fixed ::
  "(nat \<Rightarrow> bool) \<Rightarrow> vmem \<Rightarrow> nat \<Rightarrow> nat \<Rightarrow> ((vmem_error + unit) \<times> vmem) panics" where
  "alloc_fixed pool v base sz =
     (case fixed_size v base sz of
        Inl e \<Rightarrow> Some (Inl e, v)
      | Inr sz \<Rightarrow>
          (case free_segment_containing v base of
             None \<Rightarrow> Some (Inl NoSpace, v)
           | Some segment \<Rightarrow> do {
               tag \<leftarrow> vmem_tag v segment;
               (if base + sz \<le> seg_end tag then do {
                  (r, v) \<leftarrow> take_at pool v segment base sz;
                  Some (map_sum id (\<lambda>_. ()) r, v)
                } else Some (Inl NoSpace, v))
             }))"

definition reserve_fixed ::
  "(nat \<Rightarrow> bool) \<Rightarrow> vmem \<Rightarrow> nat \<Rightarrow> nat \<Rightarrow> vmem_error + reservation" where
  "reserve_fixed pool v base sz =
     (case fixed_size v base sz of
        Inl e \<Rightarrow> Inl e
      | Inr sz \<Rightarrow>
          (case reserve_tag pool base of Inl e \<Rightarrow> Inl e | Inr start \<Rightarrow>
           case reserve_tag pool (base + sz) of Inl e \<Rightarrow> Inl e | Inr trailing \<Rightarrow>
             Inr \<lparr>res_base = base, res_size = sz,
                  res_start = Some start, res_end = Some trailing\<rparr>))"

definition alloc_reserved :: "vmem \<Rightarrow> reservation \<Rightarrow> vmem panics" where
  "alloc_reserved v r = do {
     segment \<leftarrow> free_segment_containing v (res_base r);
     tag \<leftarrow> vmem_tag v segment;
     assert_that (res_base r + res_size r \<le> seg_end tag);
     vmem_take v segment r
   }"

definition vmem_is_free :: "vmem \<Rightarrow> nat \<Rightarrow> nat \<Rightarrow> bool panics" where
  "vmem_is_free v base sz =
     (case checked_add base sz of
        None \<Rightarrow> Some False
      | Some stop \<Rightarrow>
          (case free_segment_containing v base of
             None \<Rightarrow> Some False
           | Some key \<Rightarrow> do { tag \<leftarrow> vmem_tag v key; Some (stop \<le> seg_end tag) }))"

definition vmem_free :: "vmem \<Rightarrow> nat \<Rightarrow> (nat \<times> vmem) panics" where
  "vmem_free v base = do {
     tag \<leftarrow> vmem_tag v base;
     assert_that (\<not> seg_free tag);
     let sz = seg_size tag;
     let span = seg_span tag;
     v \<leftarrow> (case iter_next (index_range (vm_segments v) (Excluded base) Unbounded) of
             Some (nxt, n) \<Rightarrow>
               if seg_free n \<and> seg_span n = span \<and> seg_base n = seg_end tag then do {
                 v \<leftarrow> pop_free v nxt;
                 t \<leftarrow> vmem_tag v base;
                 n \<leftarrow> vmem_tag v nxt;
                 v \<leftarrow> tag_set v base (\<lambda>t. t\<lparr>seg_size := seg_size t + seg_size n\<rparr>);
                 Some (seg_remove v nxt)
               } else Some v
           | None \<Rightarrow> Some v);
     (free, v) \<leftarrow>
       (case iter_next_back (index_range (vm_segments v) Unbounded (Excluded base)) of
          Some (previous, p) \<Rightarrow>
            if seg_free p \<and> seg_span p = span \<and> seg_end p = base then do {
              v \<leftarrow> pop_free v previous;
              t \<leftarrow> vmem_tag v base;
              v \<leftarrow> tag_set v previous (\<lambda>p. p\<lparr>seg_size := seg_size p + seg_size t\<rparr>);
              Some (previous, seg_remove v base)
            } else do {
              v \<leftarrow> tag_set v base (\<lambda>t. t\<lparr>seg_free := True\<rparr>);
              Some (base, v)
            }
        | None \<Rightarrow> do {
            v \<leftarrow> tag_set v base (\<lambda>t. t\<lparr>seg_free := True\<rparr>);
            Some (base, v)
          });
     v \<leftarrow> push_free v free;
     Some (sz, v\<lparr>vm_used := vm_used v - sz\<rparr>)
   }"

end
