(* ===== verification/Vmem_Lists.thy ===== *)
theory Vmem_Lists
  imports Vmem
begin

text \<open>
  Correctness of the segregated free lists of the arena model \<open>Vmem\<close>: each of the 64 list
  heads starts a doubly linked, acyclic chain of tags of one size class, the bitmap records
  which chains are nonempty, and \<^const>\<open>push_free\<close> and \<^const>\<open>pop_free\<close>
  add and remove exactly one tag without panicking and without touching anything but links.
\<close>

unbundle bit_operations_syntax

abbreviation segs :: "vmem \<Rightarrow> nat \<Rightarrow> segment option" where
  "segs v \<equiv> index_get (vm_segments v)"

definition put_tag :: "vmem \<Rightarrow> nat \<Rightarrow> segment \<Rightarrow> vmem" where
  "put_tag v b x = v\<lparr>vm_segments :=
     (vm_segments v)\<lparr>ix_tree := tree_replace b x (ix_tree (vm_segments v))\<rparr>\<rparr>"

fun dseg :: "(nat \<Rightarrow> segment option) \<Rightarrow> nat option \<Rightarrow> nat option \<Rightarrow> nat list \<Rightarrow> nat option \<Rightarrow>
    nat option \<Rightarrow> bool" where
  "dseg m prev p [] lst q \<longleftrightarrow> lst = prev \<and> q = p"
| "dseg m prev p (x # xs) lst q \<longleftrightarrow> p = Some x \<and>
     (\<exists>t. m x = Some t \<and> seg_previous t = prev \<and> dseg m (Some x) (seg_next t) xs lst q)"

definition free_lists :: "vmem \<Rightarrow> (nat \<Rightarrow> nat list) \<Rightarrow> bool" where
  "free_lists v L \<longleftrightarrow> length (vm_freelists v) = FREELIST_COUNT \<and>
     (\<forall>i < FREELIST_COUNT. distinct (L i) \<and>
        (\<exists>lst. dseg (segs v) None (vm_freelists v ! i) (L i) lst None) \<and>
        (\<forall>x \<in> set (L i). \<exists>t. segs v x = Some t \<and> freelist_index (seg_size t) = i) \<and>
        (bit (vm_freelist_map v) i \<longleftrightarrow> L i \<noteq> []))"

definition linked :: "vmem \<Rightarrow> nat set \<Rightarrow> bool" where
  "linked v S \<longleftrightarrow> (\<exists>L. free_lists v L \<and> S = (\<Union>i < FREELIST_COUNT. set (L i)))"

definition strip :: "segment \<Rightarrow> segment" where
  "strip t = t\<lparr>seg_previous := None, seg_next := None\<rparr>"

definition same_tags :: "vmem \<Rightarrow> vmem \<Rightarrow> bool" where
  "same_tags v w \<longleftrightarrow> (\<forall>k. map_option strip (segs v k) = map_option strip (segs w k)) \<and>
     vm_quantum w = vm_quantum v \<and> vm_total w = vm_total v \<and> vm_used w = vm_used v"

section \<open>Chains\<close>

lemma dseg_append:
  "dseg m prev p (xs @ ys) lst q \<longleftrightarrow> (\<exists>l r. dseg m prev p xs l r \<and> dseg m l r ys lst q)"
  by (induction xs arbitrary: prev p) auto

lemma dseg_cong:
  "(\<And>x. x \<in> set xs \<Longrightarrow> m x = m' x) \<Longrightarrow> dseg m prev p xs lst q = dseg m' prev p xs lst q"
  by (induction xs arbitrary: prev p) auto

lemma dseg_upd_notin [simp]:
  "y \<notin> set xs \<Longrightarrow> dseg (m(y := z)) prev p xs lst q = dseg m prev p xs lst q"
  by (rule dseg_cong) auto

lemma dseg_last:
  "dseg m prev p xs lst q \<Longrightarrow> lst = (if xs = [] then prev else Some (last xs))"
  by (induction xs arbitrary: prev p) auto

lemma dseg_first:
  "dseg m prev p xs lst q \<Longrightarrow> p = (case xs of [] \<Rightarrow> q | x # _ \<Rightarrow> Some x)"
  by (cases xs) auto

lemma dseg_set_previous:
  assumes "dseg m prev p (y # ys) lst q" "y \<notin> set ys" "m y = Some t"
  shows "dseg (m(y \<mapsto> t\<lparr>seg_previous := prev'\<rparr>)) prev' p (y # ys) lst q"
  using assms by auto

lemma dseg_set_next:
  assumes "dseg m prev p (xs @ [y]) lst q" "y \<notin> set xs" "m y = Some t"
  shows "dseg (m(y \<mapsto> t\<lparr>seg_next := q'\<rparr>)) prev p (xs @ [y]) lst q'"
  using assms by (auto simp: dseg_append)

section \<open>Writing tags\<close>

lemma index_replace_spec:
  assumes "index_inv ix" "index_get ix b = Some t"
  shows "index_get (ix\<lparr>ix_tree := tree_replace b x (ix_tree ix)\<rparr>) = (index_get ix)(b \<mapsto> x)"
    and "index_inv (ix\<lparr>ix_tree := tree_replace b x (ix_tree ix)\<rparr>)"
proof -
  have "b \<in> fst ` set (ix_tree ix)" using assms(2) index_get_None [of ix b] by auto
  then show "index_get (ix\<lparr>ix_tree := tree_replace b x (ix_tree ix)\<rparr>) = (index_get ix)(b \<mapsto> x)"
    by (simp add: index_get_def [abs_def] map_of_tree_replace)
  show "index_inv (ix\<lparr>ix_tree := tree_replace b x (ix_tree ix)\<rparr>)"
    using assms(1) by (simp add: index_inv_def)
qed

lemma put_tag_fields [simp]:
  "vm_freelists (put_tag v b x) = vm_freelists v"
  "vm_freelist_map (put_tag v b x) = vm_freelist_map v"
  "vm_quantum (put_tag v b x) = vm_quantum v"
  "vm_total (put_tag v b x) = vm_total v"
  "vm_used (put_tag v b x) = vm_used v"
  by (simp_all add: put_tag_def)

lemma tag_set_eq: "tag_set v b f = map_option (\<lambda>t. put_tag v b (f t)) (segs v b)"
  by (cases "segs v b") (simp_all add: tag_set_def put_tag_def)

lemma put_tag_segs:
  assumes "index_inv (vm_segments v)" "segs v b = Some t"
  shows "segs (put_tag v b x) = (segs v)(b \<mapsto> x)" "index_inv (vm_segments (put_tag v b x))"
  using index_replace_spec [OF assms] by (simp_all add: put_tag_def)

lemma freelist_index_bound [simp]: "freelist_index n < FREELIST_COUNT"
  by (simp add: freelist_index_def FREELIST_COUNT_def)

section \<open>Adding a tag\<close>

lemma linkedI: "free_lists v L \<Longrightarrow> S = (\<Union>i < FREELIST_COUNT. set (L i)) \<Longrightarrow> linked v S"
  by (auto simp: linked_def)

lemma union_lists_split:
  "c < n \<Longrightarrow> (\<Union>i < n. set (L i)) = (\<Union>i \<in> {..<n} - {c}. set (L i)) \<union> set (L c)" for c n :: nat
  by auto

lemma union_lists_upd:
  "c < n \<Longrightarrow> (\<Union>i < n. set ((L(c := ys)) i)) = (\<Union>i \<in> {..<n} - {c}. set (L i)) \<union> set ys"
  for c n :: nat
  using union_lists_split [of c n "L(c := ys)"] by simp

lemma bit_or_push:
  fixes w :: u64
  assumes "j < 64" "i < 64"
  shows "bit (w OR push_bit i 1) j \<longleftrightarrow> bit w j \<or> j = i"
  using assms by (auto simp: bit_simps)

lemma bit_and_not_push:
  fixes w :: u64
  assumes "j < 64" "i < 64"
  shows "bit (w AND NOT (push_bit i 1)) j \<longleftrightarrow> bit w j \<and> j \<noteq> i"
  using assms by (auto simp: bit_simps)

lemma free_listsD:
  assumes "free_lists v L" "i < FREELIST_COUNT"
  shows "distinct (L i)" "\<exists>lst. dseg (segs v) None (vm_freelists v ! i) (L i) lst None"
    "x \<in> set (L i) \<Longrightarrow> \<exists>t. segs v x = Some t \<and> freelist_index (seg_size t) = i"
    "bit (vm_freelist_map v) i \<longleftrightarrow> L i \<noteq> []"
  using assms by (auto simp: free_lists_def)

lemma free_lists_class:
  assumes "free_lists v L" "i < FREELIST_COUNT" "j < FREELIST_COUNT"
    and "x \<in> set (L i)" "x \<in> set (L j)"
  shows "i = j"
  using free_listsD(3) [OF assms(1,2,4)] free_listsD(3) [OF assms(1,3,5)] by auto

lemma strip_size:
  "map_option strip (segs w x) = map_option strip (segs v x) \<Longrightarrow>
   map_option seg_size (segs w x) = map_option seg_size (segs v x)"
proof (cases "segs w x"; cases "segs v x")
  fix t t'
  assume "map_option strip (segs w x) = map_option strip (segs v x)"
    "segs w x = Some t" "segs v x = Some t'"
  then have "seg_size (strip t) = seg_size (strip t')" by simp
  then show ?thesis using \<open>segs w x = Some t\<close> \<open>segs v x = Some t'\<close> by (simp add: strip_def)
qed auto

text \<open>Replacing one list, the links of the others being untouched.\<close>

lemma free_lists_update:
  assumes L: "free_lists v L" and c: "c < FREELIST_COUNT"
    and heads: "vm_freelists w = (vm_freelists v)[c := h]"
    and frame: "\<And>x. x \<notin> A \<Longrightarrow> segs w x = segs v x"
    and disj: "\<And>j. j < FREELIST_COUNT \<Longrightarrow> j \<noteq> c \<Longrightarrow> A \<inter> set (L j) = {}"
    and tags: "\<And>x. map_option strip (segs w x) = map_option strip (segs v x)"
    and chain: "\<exists>l. dseg (segs w) None h ys l None" and dist: "distinct ys"
    and cls: "\<And>x. x \<in> set ys \<Longrightarrow> \<exists>t. segs v x = Some t \<and> freelist_index (seg_size t) = c"
    and bits: "\<And>j. j < FREELIST_COUNT \<Longrightarrow> bit (vm_freelist_map w) j \<longleftrightarrow>
      (if j = c then ys \<noteq> [] else bit (vm_freelist_map v) j)"
  shows "free_lists w (L(c := ys))"
  unfolding free_lists_def
proof (intro conjI allI impI ballI)
  show "length (vm_freelists w) = FREELIST_COUNT" using L by (simp add: heads free_lists_def)
  fix j
  assume j: "j < FREELIST_COUNT"
  show "distinct ((L(c := ys)) j)" using dist free_listsD(1) [OF L j] by simp
  show "\<exists>lst. dseg (segs w) None (vm_freelists w ! j) ((L(c := ys)) j) lst None"
  proof (cases "j = c")
    case True
    then show ?thesis using chain c L by (simp add: heads free_lists_def)
  next
    case False
    have "segs w x = segs v x" if "x \<in> set (L j)" for x
      using frame [of x] disj [OF j False] that by auto
    then show ?thesis
      using dseg_cong [of "L j" "segs w" "segs v"] free_listsD(2) [OF L j] False
      by (simp add: heads)
  qed
  show "bit (vm_freelist_map w) j \<longleftrightarrow> (L(c := ys)) j \<noteq> []"
    using bits [OF j] free_listsD(4) [OF L j] by simp
  fix x
  assume x: "x \<in> set ((L(c := ys)) j)"
  then have "\<exists>t. segs v x = Some t \<and> freelist_index (seg_size t) = j"
    using cls free_listsD(3) [OF L j] by (cases "j = c") auto
  then show "\<exists>t. segs w x = Some t \<and> freelist_index (seg_size t) = j"
    using strip_size [OF tags [of x]] by (cases "segs w x") auto
qed

lemma push_free_linked:
  assumes inv: "index_inv (vm_segments v)" and lk: "linked v S"
    and k: "segs v k = Some t" and new: "k \<notin> S"
  shows "\<exists>w. push_free v k = Some w \<and> index_inv (vm_segments w) \<and>
    linked w (insert k S) \<and> same_tags v w"
proof -
  obtain L where L: "free_lists v L" and S: "S = (\<Union>i < FREELIST_COUNT. set (L i))"
    using lk by (auto simp: linked_def)
  define c where "c = freelist_index (seg_size t)"
  define h0 where "h0 = vm_freelists v ! c"
  define t1 where "t1 = t\<lparr>seg_previous := None, seg_next := h0\<rparr>"
  define v1 where "v1 = put_tag v k t1"
  note p1 = put_tag_segs [OF inv k, of t1, folded v1_def]
  have i: "c < FREELIST_COUNT" by (simp add: c_def)
  obtain lst where chain: "dseg (segs v) None h0 (L c) lst None"
    and dist: "distinct (L c)"
    using free_listsD(1,2) [OF L i] unfolding h0_def by blast
  have notin: "k \<notin> set (L j)" if "j < FREELIST_COUNT" for j using new that S by auto
  define v2 where "v2 = (case h0 of None \<Rightarrow> v1
    | Some h \<Rightarrow> put_tag v1 h ((the (segs v1 h))\<lparr>seg_previous := Some k\<rparr>))"
  have step: "(case h0 of None \<Rightarrow> Some v1
      | Some h \<Rightarrow> tag_set v1 h (\<lambda>t. t\<lparr>seg_previous := Some k\<rparr>)) = Some v2 \<and>
    index_inv (vm_segments v2) \<and>
    (\<exists>l. dseg (segs v2) None (Some k) (k # L c) l None) \<and>
    (\<forall>x. x \<noteq> k \<longrightarrow> x \<notin> set (L c) \<longrightarrow> segs v2 x = segs v x) \<and>
    (\<forall>x. map_option strip (segs v2 x) = map_option strip (segs v x))"
  proof (cases "L c")
    case Nil
    with chain have h: "h0 = None" by simp
    with p1 Nil k show ?thesis by (simp add: v2_def strip_def t1_def)
  next
    case (Cons y ys)
    with chain have h: "h0 = Some y" by simp
    from chain Cons obtain ty where ty: "segs v y = Some ty" by auto
    have yk: "y \<noteq> k" using notin [OF i] Cons by auto
    let ?ty = "ty\<lparr>seg_previous := Some k\<rparr>"
    have y1: "segs v1 y = Some ty" using p1 ty yk by simp
    note p2 = put_tag_segs [OF p1(2) y1, of ?ty]
    have v2: "v2 = put_tag v1 y ?ty" using y1 by (simp add: v2_def h)
    have "dseg (segs v1) None h0 (y # ys) lst None"
      using chain Cons notin [OF i] dseg_cong [of "y # ys" "segs v" "segs v1"] p1 by auto
    then have "dseg (segs v2) (Some k) h0 (y # ys) lst None"
      using dseg_set_previous [of "segs v1" None h0 y ys lst None ty "Some k"] y1 p2 dist Cons
      by (simp add: v2)
    moreover have "segs v2 k = Some t1" using p1 p2 yk by (simp add: v2)
    ultimately have "dseg (segs v2) None (Some k) (k # L c) lst None"
      using Cons h by (simp add: t1_def)
    then show ?thesis
      using p1 p2 yk ty k Cons y1 by (auto simp: v2 h tag_set_eq strip_def t1_def)
  qed
  define w where "w = v2\<lparr>vm_freelists := (vm_freelists v2)[c := Some k],
    vm_freelist_map := vm_freelist_map v2 OR push_bit c 1\<rparr>"
  have fields: "vm_freelists v2 = vm_freelists v" "vm_freelist_map v2 = vm_freelist_map v"
    "vm_quantum v2 = vm_quantum v" "vm_total v2 = vm_total v" "vm_used v2 = vm_used v"
    by (simp_all add: v2_def v1_def split: option.split)
  have run: "push_free v k = Some w"
  proof -
    have "tag_set v k (\<lambda>t. t\<lparr>seg_previous := None, seg_next := h0\<rparr>) = Some v1"
      using k by (simp add: tag_set_eq v1_def t1_def)
    then show ?thesis
      using step k by (simp add: push_free_def vmem_tag_def Let_def w_def flip: c_def h0_def)
  qed
  let ?L = "L(c := k # L c)"
  have "free_lists w ?L"
  proof (rule free_lists_update [OF L i, where A = "insert k (set (L c))" and h = "Some k"])
    show "vm_freelists w = (vm_freelists v)[c := Some k]" by (simp add: w_def fields)
    show "segs w x = segs v x" if "x \<notin> insert k (set (L c))" for x
      using step that by (simp add: w_def)
    show "insert k (set (L c)) \<inter> set (L j) = {}" if "j < FREELIST_COUNT" "j \<noteq> c" for j
      using notin [OF that(1)] free_lists_class [OF L that(1) i] that(2) by auto
    show "map_option strip (segs w x) = map_option strip (segs v x)" for x
      using step by (simp add: w_def)
    show "\<exists>l. dseg (segs w) None (Some k) (k # L c) l None" using step by (simp add: w_def)
    show "distinct (k # L c)" using dist notin [OF i] by simp
    show "\<exists>t. segs v x = Some t \<and> freelist_index (seg_size t) = c" if "x \<in> set (k # L c)" for x
      using that k free_listsD(3) [OF L i] by (auto simp: c_def)
    show "bit (vm_freelist_map w) j \<longleftrightarrow> (if j = c then k # L c \<noteq> [] else bit (vm_freelist_map v) j)"
      if "j < FREELIST_COUNT" for j
      using that i bit_or_push [of j c "vm_freelist_map v"]
      by (simp add: w_def fields FREELIST_COUNT_def)
  qed
  moreover have "insert k S = (\<Union>i < FREELIST_COUNT. set (?L i))"
    unfolding union_lists_upd [OF i] using S union_lists_split [OF i, of L] by simp
  ultimately have "linked w (insert k S)" by (rule linkedI)
  moreover have "same_tags v w" using step by (simp add: same_tags_def w_def fields)
  moreover have "index_inv (vm_segments w)" using step by (simp add: w_def)
  ultimately show ?thesis using run by blast
qed

section \<open>Removing a tag\<close>

definition unlink_map :: "(nat \<Rightarrow> segment option) \<Rightarrow> nat \<Rightarrow> segment \<Rightarrow> nat \<Rightarrow> segment option" where
  "unlink_map m k t =
     (let m1 = m(k \<mapsto> strip t);
          m2 = (case seg_previous t of None \<Rightarrow> m1
                | Some a \<Rightarrow> m1(a := map_option (\<lambda>u. u\<lparr>seg_next := seg_next t\<rparr>) (m1 a)))
      in case seg_next t of None \<Rightarrow> m2
         | Some b \<Rightarrow> m2(b := map_option (\<lambda>u. u\<lparr>seg_previous := seg_previous t\<rparr>) (m2 b)))"

lemma dseg_neighbours:
  assumes "dseg m None h (xs @ k # ys) lst None" "m k = Some t"
  shows "seg_previous t = (if xs = [] then None else Some (last xs))"
    and "seg_next t = (case ys of [] \<Rightarrow> None | y # _ \<Rightarrow> Some y)"
    and "h = (case xs of [] \<Rightarrow> Some k | x # _ \<Rightarrow> Some x)"
proof -
  obtain l r where x: "dseg m None h xs l r" and y: "dseg m l r (k # ys) lst None"
    using assms(1) by (auto simp: dseg_append)
  show "seg_previous t = (if xs = [] then None else Some (last xs))"
    using dseg_last [OF x] y assms(2) by auto
  show "seg_next t = (case ys of [] \<Rightarrow> None | y # _ \<Rightarrow> Some y)"
    using y assms(2) dseg_first [of m "Some k" "seg_next t" ys lst None] by auto
  show "h = (case xs of [] \<Rightarrow> Some k | x # _ \<Rightarrow> Some x)"
    using dseg_first [OF x] y by (auto split: list.splits)
qed

lemma dseg_unlink:
  assumes chain: "dseg m None h (xs @ k # ys) lst None" and dist: "distinct (xs @ k # ys)"
    and k: "m k = Some t"
  shows "\<exists>l. dseg (unlink_map m k t) None (if xs = [] then seg_next t else h) (xs @ ys) l None"
proof -
  obtain pr where x: "dseg m None h xs pr (Some k)" and y: "dseg m (Some k) (seg_next t) ys lst None"
    and pr: "seg_previous t = pr"
    using chain k by (auto simp: dseg_append)
  define m1 where "m1 = m(k \<mapsto> strip t)"
  have x1: "dseg m1 None h xs pr (Some k)" and y1: "dseg m1 (Some k) (seg_next t) ys lst None"
    using x y dist by (auto simp: m1_def)
  define m2 where "m2 = (case pr of None \<Rightarrow> m1
    | Some a \<Rightarrow> m1(a := map_option (\<lambda>u. u\<lparr>seg_next := seg_next t\<rparr>) (m1 a)))"
  have x2: "dseg m2 None (if xs = [] then seg_next t else h) xs pr (seg_next t)"
    and y2: "dseg m2 (Some k) (seg_next t) ys lst None"
  proof -
    show "dseg m2 None (if xs = [] then seg_next t else h) xs pr (seg_next t)"
    proof (cases xs rule: rev_cases)
      case (snoc zs a)
      then have a: "pr = Some a" using dseg_last [OF x] by simp
      from x1 snoc obtain ta where ta: "m1 a = Some ta" by (auto simp: dseg_append)
      have "a \<notin> set zs" using dist snoc by auto
      with dseg_set_next [of m1 None h zs a pr "Some k" ta "seg_next t"] x1 snoc ta
      show ?thesis by (simp add: m2_def a)
    qed (use dseg_last [OF x] in \<open>simp add: m2_def\<close>)
    show "dseg m2 (Some k) (seg_next t) ys lst None"
    proof (cases pr)
      case (Some a)
      then have "a \<in> set xs" using dseg_last [OF x] by (auto split: if_splits)
      then have "a \<notin> set ys" using dist by auto
      with y1 Some show ?thesis by (simp add: m2_def)
    qed (use y1 in \<open>simp add: m2_def\<close>)
  qed
  show ?thesis
  proof (cases ys)
    case Nil
    then have "seg_next t = None" using y by simp
    then have "unlink_map m k t = m2" by (simp add: unlink_map_def m1_def m2_def pr Let_def split: option.split)
    with x2 Nil \<open>seg_next t = None\<close> show ?thesis by auto
  next
    case (Cons b zs)
    then have b: "seg_next t = Some b" using y by simp
    then have u: "unlink_map m k t = m2(b := map_option (\<lambda>u. u\<lparr>seg_previous := pr\<rparr>) (m2 b))"
      by (simp add: unlink_map_def m1_def m2_def pr Let_def split: option.split)
    from y2 Cons obtain tb where tb: "m2 b = Some tb" by auto
    have "b \<notin> set zs" "b \<notin> set xs" using dist Cons by auto
    with dseg_set_previous [of m2 "Some k" "seg_next t" b zs lst None tb pr] y2 Cons tb
    have "dseg (unlink_map m k t) pr (seg_next t) ys lst None" by (simp add: u)
    moreover have "dseg (unlink_map m k t) None (if xs = [] then seg_next t else h) xs pr (seg_next t)"
      using x2 \<open>b \<notin> set xs\<close> by (simp add: u)
    ultimately show ?thesis unfolding dseg_append by blast
  qed
qed

lemma unlink_map_strip:
  "m k = Some t \<Longrightarrow> map_option strip (unlink_map m k t x) = map_option strip (m x)"
  by (auto simp: unlink_map_def Let_def strip_def [abs_def] map_option.compositionality o_def
      split: option.split)

lemma dseg_mem: "dseg m prev p xs lst q \<Longrightarrow> x \<in> set xs \<Longrightarrow> \<exists>t. m x = Some t"
  by (induction xs arbitrary: prev p) auto

lemma pop_free_state:
  assumes inv: "index_inv (vm_segments v)" and k: "segs v k = Some t"
    and prev: "\<And>a. seg_previous t = Some a \<Longrightarrow> a \<noteq> k \<and> (\<exists>u. segs v a = Some u)"
    and nxt: "\<And>b. seg_next t = Some b \<Longrightarrow> b \<noteq> k \<and> (\<exists>u. segs v b = Some u)"
  defines "c \<equiv> freelist_index (seg_size t)"
  shows "\<exists>w. pop_free v k = Some w \<and> index_inv (vm_segments w) \<and>
    segs w = unlink_map (segs v) k t \<and>
    vm_freelists w = (if seg_previous t = None then (vm_freelists v)[c := seg_next t]
                      else vm_freelists v) \<and>
    vm_freelist_map w = (if seg_previous t = None \<and> seg_next t = None
      then vm_freelist_map v AND NOT (push_bit c 1) else vm_freelist_map v) \<and>
    vm_quantum w = vm_quantum v \<and> vm_total w = vm_total v \<and> vm_used w = vm_used v"
proof -
  define v1 where "v1 = put_tag v k (strip t)"
  note p1 = put_tag_segs [OF inv k, of "strip t", folded v1_def]
  have f1: "vm_freelists v1 = vm_freelists v" "vm_freelist_map v1 = vm_freelist_map v"
    "vm_quantum v1 = vm_quantum v" "vm_total v1 = vm_total v" "vm_used v1 = vm_used v"
    by (simp_all add: v1_def)
  define m2 where "m2 = (case seg_previous t of None \<Rightarrow> segs v1
    | Some a \<Rightarrow> (segs v1)(a := map_option (\<lambda>u. u\<lparr>seg_next := seg_next t\<rparr>) (segs v1 a)))"
  obtain v2 where v2: "(case seg_previous t of
        Some p \<Rightarrow> tag_set v1 p (\<lambda>u. u\<lparr>seg_next := seg_next t\<rparr>)
      | None \<Rightarrow> (let v = v1\<lparr>vm_freelists := (vm_freelists v1)[c := seg_next t]\<rparr> in
          Some (if seg_next t = None
                then v\<lparr>vm_freelist_map := vm_freelist_map v AND NOT (push_bit c 1)\<rparr>
                else v))) = Some v2"
    and inv2: "index_inv (vm_segments v2)" and segs2: "segs v2 = m2"
    and f2: "vm_freelists v2 = (if seg_previous t = None then (vm_freelists v)[c := seg_next t]
        else vm_freelists v)"
      "vm_freelist_map v2 = (if seg_previous t = None \<and> seg_next t = None
        then vm_freelist_map v AND NOT (push_bit c 1) else vm_freelist_map v)"
      "vm_quantum v2 = vm_quantum v" "vm_total v2 = vm_total v" "vm_used v2 = vm_used v"
  proof (cases "seg_previous t")
    case None
    then show ?thesis
      by (intro that [of "let v = v1\<lparr>vm_freelists := (vm_freelists v1)[c := seg_next t]\<rparr> in
          if seg_next t = None
          then v\<lparr>vm_freelist_map := vm_freelist_map v AND NOT (push_bit c 1)\<rparr> else v"])
        (auto simp: p1 f1 m2_def Let_def)
  next
    case (Some a)
    then obtain u where u: "segs v1 a = Some u" using prev [of a] p1 by auto
    note p2 = put_tag_segs [OF p1(2) u, of "u\<lparr>seg_next := seg_next t\<rparr>"]
    show ?thesis
      by (rule that [of "put_tag v1 a (u\<lparr>seg_next := seg_next t\<rparr>)"])
        (use Some u p2 in \<open>simp_all add: tag_set_eq m2_def f1\<close>)
  qed
  obtain w where w: "(case seg_next t of
        Some n \<Rightarrow> tag_set v2 n (\<lambda>u. u\<lparr>seg_previous := seg_previous t\<rparr>)
      | None \<Rightarrow> Some v2) = Some w"
    and inv3: "index_inv (vm_segments w)" and segs3: "segs w = unlink_map (segs v) k t"
    and f3: "vm_freelists w = vm_freelists v2" "vm_freelist_map w = vm_freelist_map v2"
      "vm_quantum w = vm_quantum v2" "vm_total w = vm_total v2" "vm_used w = vm_used v2"
  proof (cases "seg_next t")
    case None
    then show ?thesis
      by (intro that [of v2]) (simp_all add: inv2 segs2 m2_def unlink_map_def Let_def p1 split: option.split)
  next
    case (Some b)
    have "\<exists>u. segs v1 b = Some u" using nxt [OF Some] p1 by auto
    then have "\<exists>u. segs v2 b = Some u"
      unfolding segs2 m2_def by (auto split: option.split)
    then obtain u where u: "segs v2 b = Some u" ..
    note p3 = put_tag_segs [OF inv2 u, of "u\<lparr>seg_previous := seg_previous t\<rparr>"]
    have "unlink_map (segs v) k t = m2(b := map_option (\<lambda>u. u\<lparr>seg_previous := seg_previous t\<rparr>) (m2 b))"
      using Some by (simp add: unlink_map_def Let_def m2_def p1 split: option.split)
    then have un: "unlink_map (segs v) k t = (segs v2)(b \<mapsto> u\<lparr>seg_previous := seg_previous t\<rparr>)"
      using u by (simp add: segs2)
    show ?thesis
      by (rule that [of "put_tag v2 b (u\<lparr>seg_previous := seg_previous t\<rparr>)"])
        (use Some u p3 un in \<open>simp_all add: tag_set_eq\<close>)
  qed
  have t1: "tag_set v k (\<lambda>t. t\<lparr>seg_previous := None, seg_next := None\<rparr>) = Some v1"
    using k by (simp add: tag_set_eq v1_def strip_def)
  have "pop_free v k = Some w"
    using k t1 v2 [unfolded c_def] w
    by (simp add: pop_free_def vmem_tag_def Let_def cong: option.case_cong)
  then show ?thesis using inv3 segs3 f2 f3 by simp
qed

lemma pop_free_linked:
  assumes inv: "index_inv (vm_segments v)" and lk: "linked v S" and kS: "k \<in> S"
  shows "\<exists>w. pop_free v k = Some w \<and> index_inv (vm_segments w) \<and>
    linked w (S - {k}) \<and> same_tags v w"
proof -
  obtain L where L: "free_lists v L" and S: "S = (\<Union>i < FREELIST_COUNT. set (L i))"
    using lk by (auto simp: linked_def)
  obtain c where c: "c < FREELIST_COUNT" and kc: "k \<in> set (L c)" using kS S by auto
  obtain t where k: "segs v k = Some t" and tc: "freelist_index (seg_size t) = c"
    using free_listsD(3) [OF L c kc] by auto
  obtain xs ys where split: "L c = xs @ k # ys" using kc by (meson split_list)
  obtain lst where chain: "dseg (segs v) None (vm_freelists v ! c) (xs @ k # ys) lst None"
    using free_listsD(2) [OF L c] split by auto
  have dist: "distinct (xs @ k # ys)" using free_listsD(1) [OF L c] split by simp
  note nb = dseg_neighbours [OF chain k]
  have mem: "\<exists>u. segs v x = Some u" if "x \<in> set (L c)" for x
    using free_listsD(3) [OF L c that] by auto
  have P: "a \<noteq> k \<and> (\<exists>u. segs v a = Some u)" if "seg_previous t = Some a" for a
    using that nb(1) mem [of a] dist split by (auto split: if_splits)
  have N: "b \<noteq> k \<and> (\<exists>u. segs v b = Some u)" if "seg_next t = Some b" for b
    using that nb(2) mem [of b] dist split by (auto split: list.splits)
  obtain w where w: "pop_free v k = Some w" "index_inv (vm_segments w)"
    "segs w = unlink_map (segs v) k t"
    "vm_freelists w = (if seg_previous t = None then (vm_freelists v)[c := seg_next t]
                      else vm_freelists v)"
    "vm_freelist_map w = (if seg_previous t = None \<and> seg_next t = None
      then vm_freelist_map v AND NOT (push_bit c 1) else vm_freelist_map v)"
    "vm_quantum w = vm_quantum v" "vm_total w = vm_total v" "vm_used w = vm_used v"
    using pop_free_state [OF inv k P N] tc by auto
  have prev_nil: "seg_previous t = None \<longleftrightarrow> xs = []" and next_nil: "seg_next t = None \<longleftrightarrow> ys = []"
    using nb by (auto split: list.splits)
  have unchanged: "segs w x = segs v x" if "x \<notin> set (L c)" for x
    using that nb split
    by (auto simp: w(3) unlink_map_def Let_def split: option.split if_splits list.splits)
  let ?h = "if xs = [] then seg_next t else vm_freelists v ! c"
  have "free_lists w (L(c := xs @ ys))"
  proof (rule free_lists_update [OF L c, where A = "set (L c)" and h = ?h])
    show "vm_freelists w = (vm_freelists v)[c := ?h]"
      using w(4) prev_nil by simp
    show "segs w x = segs v x" if "x \<notin> set (L c)" for x using unchanged that .
    show "set (L c) \<inter> set (L j) = {}" if "j < FREELIST_COUNT" "j \<noteq> c" for j
      using free_lists_class [OF L that(1) c] that(2) by auto
    show "map_option strip (segs w x) = map_option strip (segs v x)" for x
      by (simp add: w(3) unlink_map_strip k)
    show "\<exists>l. dseg (segs w) None ?h (xs @ ys) l None"
      using dseg_unlink [OF chain dist k] by (simp add: w(3))
    show "distinct (xs @ ys)" using dist by auto
    show "\<exists>t. segs v x = Some t \<and> freelist_index (seg_size t) = c" if "x \<in> set (xs @ ys)" for x
      using free_listsD(3) [OF L c, of x] that split by auto
    show "bit (vm_freelist_map w) j \<longleftrightarrow> (if j = c then xs @ ys \<noteq> [] else bit (vm_freelist_map v) j)"
      if "j < FREELIST_COUNT" for j
      using that c w(5) prev_nil next_nil bit_and_not_push [of j c "vm_freelist_map v"]
        free_listsD(4) [OF L c] split
      by (auto simp: FREELIST_COUNT_def)
  qed
  moreover have "S - {k} = (\<Union>i < FREELIST_COUNT. set ((L(c := xs @ ys)) i))"
  proof -
    have "k \<notin> set (L j)" if "j < FREELIST_COUNT" "j \<noteq> c" for j
      using free_lists_class [OF L that(1) c] kc that(2) by auto
    then have "k \<notin> (\<Union>i \<in> {..<FREELIST_COUNT} - {c}. set (L i))" by auto
    moreover have "set (L c) - {k} = set (xs @ ys)" using split dist by auto
    ultimately show ?thesis
      unfolding union_lists_upd [OF c] S union_lists_split [OF c, of L] by blast
  qed
  ultimately have "linked w (S - {k})" by (rule linkedI)
  moreover have "same_tags v w"
    using w(3,6-8) unlink_map_strip [of "segs v" k t] k by (simp add: same_tags_def)
  ultimately show ?thesis using w(1,2) by blast
qed

section \<open>Changes outside the lists\<close>

lemma linked_frame:
  assumes "linked v S" "\<And>x. x \<in> S \<Longrightarrow> segs w x = segs v x"
    "vm_freelists w = vm_freelists v" "vm_freelist_map w = vm_freelist_map v"
  shows "linked w S"
proof -
  obtain L where L: "free_lists v L" and S: "S = (\<Union>i < FREELIST_COUNT. set (L i))"
    using assms(1) by (auto simp: linked_def)
  have same: "segs w x = segs v x" if "x \<in> set (L i)" "i < FREELIST_COUNT" for x i
    using assms(2) S that by auto
  have "free_lists w L"
    unfolding free_lists_def
  proof (intro conjI allI impI ballI)
    show "length (vm_freelists w) = FREELIST_COUNT" using L assms(3) by (simp add: free_lists_def)
    fix j
    assume j: "j < FREELIST_COUNT"
    show "distinct (L j)" by (rule free_listsD(1) [OF L j])
    show "\<exists>lst. dseg (segs w) None (vm_freelists w ! j) (L j) lst None"
      using dseg_cong [of "L j" "segs w" "segs v"] same [OF _ j] free_listsD(2) [OF L j] assms(3)
      by simp
    show "bit (vm_freelist_map w) j \<longleftrightarrow> L j \<noteq> []" using free_listsD(4) [OF L j] assms(4) by simp
    fix x
    assume "x \<in> set (L j)"
    then show "\<exists>t. segs w x = Some t \<and> freelist_index (seg_size t) = j"
      using free_listsD(3) [OF L j] same [OF _ j] by simp
  qed
  then show ?thesis using S by (rule linkedI)
qed

lemma linked_dom: "linked v S \<Longrightarrow> k \<in> S \<Longrightarrow> \<exists>t. segs v k = Some t"
  using free_listsD(3) by (fastforce simp: linked_def)

end
