(* ===== verification/Vmem_Core.thy ===== *)
theory Vmem_Core
  imports Vmem_Lists
begin

text \<open>
  A calculus for the arena operations of \<open>Vmem\<close>. The relation \<open>core v F A\<close> says that the arena
  \<open>v\<close> has a well-formed index, that exactly the tags \<open>F\<close> are on its free lists, and that its
  boundary tags without their links are the map \<open>A\<close>. Each primitive step changes \<open>F\<close> and \<open>A\<close>
  in a simple way, so that splitting and coalescing are computed on maps.
\<close>

definition tags :: "vmem \<Rightarrow> nat \<Rightarrow> segment option" where
  "tags v = (\<lambda>k. map_option strip (segs v k))"

definition core :: "vmem \<Rightarrow> nat set \<Rightarrow> (nat \<Rightarrow> segment option) \<Rightarrow> bool" where
  "core v F A \<longleftrightarrow> index_inv (vm_segments v) \<and> linked v F \<and> tags v = A"

definition counters :: "vmem \<Rightarrow> nat \<times> nat \<times> nat" where
  "counters v = (vm_quantum v, vm_total v, vm_used v)"

section \<open>Primitive steps\<close>

lemma strip_strip [simp]: "strip (strip t) = strip t"
  by (simp add: strip_def)

lemma strip_fields [simp]:
  "seg_base (strip t) = seg_base t" "seg_size (strip t) = seg_size t"
  "seg_span (strip t) = seg_span t" "seg_free (strip t) = seg_free t"
  "seg_end (strip t) = seg_end t"
  by (simp_all add: strip_def seg_end_def)

lemma strip_new [simp]: "strip (segment_new b s sp f) = segment_new b s sp f"
  by (simp add: strip_def segment_new_def)

lemma segment_new_fields [simp]:
  "seg_base (segment_new b s sp f) = b" "seg_size (segment_new b s sp f) = s"
  "seg_span (segment_new b s sp f) = sp" "seg_free (segment_new b s sp f) = f"
  by (simp_all add: segment_new_def)

lemma core_get: "core v F A \<Longrightarrow> A k = Some a \<Longrightarrow> \<exists>t. segs v k = Some t \<and> strip t = a"
  by (auto simp: core_def tags_def)

lemma core_None: "core v F A \<Longrightarrow> A k = None \<longleftrightarrow> segs v k = None"
  by (auto simp: core_def tags_def)

lemma core_free_dom: "core v F A \<Longrightarrow> k \<in> F \<Longrightarrow> \<exists>a. A k = Some a"
  using linked_dom [of v F k] by (auto simp: core_def tags_def)

lemma core_not_free: "core v F A \<Longrightarrow> A k = None \<Longrightarrow> k \<notin> F"
  using core_free_dom [of v F A k] by auto

lemma core_finite: "core v F A \<Longrightarrow> finite (dom A)"
  by (auto simp: core_def tags_def dom_def intro: finite_subset [OF _ finite_index_dom])

lemma same_tags_core:
  assumes "same_tags v w" shows "tags w = tags v" "counters w = counters v"
  using assms by (auto simp: same_tags_def tags_def counters_def)

lemma core_pop:
  assumes "core v F A" "k \<in> F"
  shows "\<exists>w. pop_free v k = Some w \<and> core w (F - {k}) A \<and> counters w = counters v"
  using pop_free_linked [of v F k] assms same_tags_core unfolding core_def by metis

lemma core_push:
  assumes "core v F A" "A k = Some a" "k \<notin> F"
  shows "\<exists>w. push_free v k = Some w \<and> core w (insert k F) A \<and> counters w = counters v"
proof -
  obtain t where t: "segs v k = Some t" using core_get [OF assms(1,2)] by blast
  have "index_inv (vm_segments v)" "linked v F" using assms(1) by (simp_all add: core_def)
  from push_free_linked [OF this t assms(3)] show ?thesis
    using assms(1) same_tags_core unfolding core_def by metis
qed

lemma core_set:
  assumes c: "core v F A" and a: "A k = Some a" and k: "k \<notin> F"
    and comm: "\<And>t. strip (f t) = g (strip t)"
  shows "\<exists>w. tag_set v k f = Some w \<and> core w F (A(k \<mapsto> g a)) \<and> counters w = counters v"
proof -
  obtain t where t: "segs v k = Some t" "strip t = a" using core_get [OF c a] by blast
  let ?w = "put_tag v k (f t)"
  have inv: "index_inv (vm_segments v)" and lk: "linked v F" and A: "tags v = A"
    using c by (simp_all add: core_def)
  note p = put_tag_segs [OF inv t(1), of "f t"]
  have "linked ?w F" by (rule linked_frame [OF lk]) (use p k in auto)
  moreover have "tags ?w = A(k \<mapsto> g a)"
    using p comm [of t] t(2) A by (auto simp: tags_def)
  ultimately show ?thesis
    using t(1) p by (simp add: tag_set_eq core_def counters_def)
qed

lemma core_insert:
  assumes c: "core v F A" and new: "A k = None" and x: "strip x = x"
  shows "\<exists>w. seg_insert v k x (Some k) = Some w \<and> core w F (A(k \<mapsto> x)) \<and> counters w = counters v"
proof -
  have inv: "index_inv (vm_segments v)" and lk: "linked v F" and A: "tags v = A"
    using c by (simp_all add: core_def)
  have "segs v k = None" using core_None [OF c] new by blast
  from index_insert_fresh [OF inv this, of x] obtain ix where
    ix: "index_insert (vm_segments v) k x (Some k) = Some (None, ix)" "index_inv ix"
      "index_get ix = (segs v)(k \<mapsto> x)" by metis
  let ?w = "v\<lparr>vm_segments := ix\<rparr>"
  have "k \<notin> F" by (rule core_not_free [OF c new])
  then have "linked ?w F" by (intro linked_frame [OF lk]) (auto simp: ix(3))
  moreover have "tags ?w = A(k \<mapsto> x)" using ix(3) A x by (auto simp: tags_def)
  ultimately show ?thesis using ix by (simp add: seg_insert_def core_def counters_def)
qed

lemma core_remove:
  assumes c: "core v F A" and k: "k \<notin> F"
  shows "core (seg_remove v k) F (A(k := None)) \<and> counters (seg_remove v k) = counters v"
proof -
  have inv: "index_inv (vm_segments v)" and lk: "linked v F" and A: "tags v = A"
    using c by (simp_all add: core_def)
  note r = index_remove_spec [OF inv, of k]
  have "linked (seg_remove v k) F"
    by (rule linked_frame [OF lk]) (use r k in \<open>auto simp: seg_remove_def\<close>)
  then show ?thesis
    using r A by (auto simp: core_def tags_def counters_def seg_remove_def)
qed

lemma core_used: "core v F A \<Longrightarrow> core (v\<lparr>vm_used := n\<rparr>) F A"
  and core_total: "core v F A \<Longrightarrow> core (v\<lparr>vm_total := n\<rparr>) F A"
  by (auto simp: core_def tags_def intro: linked_frame)

section \<open>Taking a range\<close>

definition take_tags :: "(nat \<Rightarrow> segment option) \<Rightarrow> nat \<Rightarrow> segment \<Rightarrow> nat \<Rightarrow> nat \<Rightarrow> nat \<Rightarrow> segment option" where
  "take_tags A s a base sz =
     (let A1 = (if s < base
                then A(s \<mapsto> a\<lparr>seg_size := base - s\<rparr>, base \<mapsto> segment_new base sz (seg_span a) False)
                else A(s \<mapsto> a\<lparr>seg_size := sz, seg_free := False\<rparr>))
      in if base + sz < seg_end a
         then A1(base + sz \<mapsto> segment_new (base + sz) (seg_end a - base - sz) (seg_span a) True)
         else A1)"

definition take_free :: "nat set \<Rightarrow> nat \<Rightarrow> segment \<Rightarrow> nat \<Rightarrow> nat \<Rightarrow> nat set" where
  "take_free F s a base sz =
     (if s < base then F else F - {s}) \<union> (if base + sz < seg_end a then {base + sz} else {})"

lemma core_take_left:
  assumes c: "core v F A" and s: "s \<in> F" "A s = Some a"
    and new: "base \<noteq> s \<Longrightarrow> A base = None \<and> r = Some base" and b: "s \<le> base"
  shows "\<exists>u w. pop_free v s = Some u \<and>
    (if s < base then do {
       v \<leftarrow> tag_set u s (\<lambda>t. t\<lparr>seg_size := base - s\<rparr>);
       v \<leftarrow> push_free v s;
       seg_insert v base (segment_new base sz (seg_span a) False) r
     } else tag_set u s (\<lambda>t. t\<lparr>seg_size := sz, seg_free := False\<rparr>)) = Some w \<and>
    counters w = counters v \<and>
    core w (if s < base then F else F - {s})
      (if s < base
       then A(s \<mapsto> a\<lparr>seg_size := base - s\<rparr>, base \<mapsto> segment_new base sz (seg_span a) False)
       else A(s \<mapsto> a\<lparr>seg_size := sz, seg_free := False\<rparr>))"
proof -
  obtain u where u: "pop_free v s = Some u" "core u (F - {s}) A" "counters u = counters v"
    using core_pop [OF c s(1)] by blast
  show ?thesis
  proof (cases "s < base")
    case True
    have "strip (t\<lparr>seg_size := base - s\<rparr>) = (strip t)\<lparr>seg_size := base - s\<rparr>" for t
      by (simp add: strip_def)
    from core_set [OF u(2) s(2), where f = "\<lambda>t. t\<lparr>seg_size := base - s\<rparr>", OF _ this]
    obtain v1 where v1: "tag_set u s (\<lambda>t. t\<lparr>seg_size := base - s\<rparr>) = Some v1"
      "core v1 (F - {s}) (A(s \<mapsto> a\<lparr>seg_size := base - s\<rparr>))" "counters v1 = counters v"
      using u(3) by auto
    from core_push [OF v1(2), of s] obtain v2 where v2: "push_free v1 s = Some v2"
      "core v2 F (A(s \<mapsto> a\<lparr>seg_size := base - s\<rparr>))" "counters v2 = counters v"
      using v1(3) s(1) by (auto simp: insert_absorb)
    from core_insert [OF v2(2), of base "segment_new base sz (seg_span a) False"]
    show ?thesis using u(1) v1 v2 new True by auto
  next
    case False
    have "strip (t\<lparr>seg_size := sz, seg_free := False\<rparr>) = (strip t)\<lparr>seg_size := sz, seg_free := False\<rparr>" for t
      by (simp add: strip_def)
    from core_set [OF u(2) s(2), where f = "\<lambda>t. t\<lparr>seg_size := sz, seg_free := False\<rparr>", OF _ this]
    show ?thesis using u False by auto
  qed
qed

lemma vmem_take_core:
  assumes c: "core v F A" and s: "s \<in> F" "A s = Some a" "seg_base a = s" and b: "s \<le> base"
    and sz: "0 < sz" "base + sz \<le> seg_end a"
    and new: "base \<noteq> s \<Longrightarrow> A base = None \<and> res_start r = Some base"
    and new2: "base + sz \<noteq> seg_end a \<Longrightarrow> A (base + sz) = None \<and> res_end r = Some (base + sz)"
    and r: "res_base r = base" "res_size r = sz"
  shows "\<exists>w. vmem_take v s r = Some w \<and> core w (take_free F s a base sz) (take_tags A s a base sz) \<and>
    counters w = (vm_quantum v, vm_total v, vm_used v + sz)"
proof -
  obtain t where t: "segs v s = Some t" "strip t = a" using core_get [OF c s(2)] by blast
  have t': "seg_end t = seg_end a" "seg_span t = seg_span a" using t(2) by auto
  define A1 where "A1 = (if s < base
       then A(s \<mapsto> a\<lparr>seg_size := base - s\<rparr>, base \<mapsto> segment_new base sz (seg_span a) False)
       else A(s \<mapsto> a\<lparr>seg_size := sz, seg_free := False\<rparr>))"
  define F1 where "F1 = (if s < base then F else F - {s})"
  from core_take_left [OF c s(1,2) new b, of sz, folded A1_def F1_def]
  obtain u w where u: "pop_free v s = Some u" and w: "(if s < base then do {
       v \<leftarrow> tag_set u s (\<lambda>t. t\<lparr>seg_size := base - s\<rparr>);
       v \<leftarrow> push_free v s;
       seg_insert v base (segment_new base sz (seg_span a) False) (res_start r)
     } else tag_set u s (\<lambda>t. t\<lparr>seg_size := sz, seg_free := False\<rparr>)) = Some w"
    and w': "counters w = counters v" "core w F1 A1" by blast
  define x where "x = segment_new (base + sz) (seg_end a - base - sz) (seg_span a) True"
  obtain z where z: "(if base + sz < seg_end a then do {
       v \<leftarrow> seg_insert w (base + sz) x (res_end r);
       push_free v (base + sz)
     } else Some w) = Some z" and z': "counters z = counters v"
    and zc: "core z (take_free F s a base sz) (take_tags A s a base sz)"
  proof (cases "base + sz < seg_end a")
    case True
    then have n: "A (base + sz) = None" "res_end r = Some (base + sz)" using new2 by auto
    have n1: "A1 (base + sz) = None" using n(1) sz b by (auto simp: A1_def)
    obtain w1 where w1: "seg_insert w (base + sz) x (Some (base + sz)) = Some w1"
      "core w1 F1 (A1(base + sz \<mapsto> x))" "counters w1 = counters v"
      using core_insert [OF w'(2) n1, of x] w'(1) by (auto simp: x_def)
    have nF: "base + sz \<notin> F1" by (rule core_not_free [OF w'(2) n1])
    from core_push [OF w1(2), of "base + sz"] nF obtain z where
      "push_free w1 (base + sz) = Some z" "core z (insert (base + sz) F1) (A1(base + sz \<mapsto> x))"
      "counters z = counters v" using w1(3) by auto
    then show ?thesis using True w1(1) n(2)
      by (intro that [of z]) (auto simp: take_free_def take_tags_def A1_def F1_def Let_def x_def)
  next
    case False
    then show ?thesis using w'
      by (intro that [of w]) (auto simp: take_free_def take_tags_def A1_def F1_def Let_def)
  qed
  have run: "vmem_take v s r = Some (z\<lparr>vm_used := vm_used z + sz\<rparr>)"
    using t(1) u w z
    by (simp add: vmem_take_def vmem_tag_def Let_def r t' x_def cong: if_cong split del: if_split)
  show ?thesis unfolding run using zc z' by (auto simp: counters_def intro: core_used)
qed

end
