(* ===== verification/Vmem_Arena.thy ===== *)
theory Vmem_Arena
  imports Vmem_Core
begin

text \<open>
  The geometry of an arena, on the maps from base addresses to boundary tags: segments are
  nonempty, aligned to the quantum and pairwise disjoint, every segment other than the first of
  its span continues a neighbour of the same span, and no two neighbours of one span are both
  free. Cutting a segment in two and joining neighbours keep the geometry and the sums.
\<close>

definition geom :: "nat \<Rightarrow> (nat \<Rightarrow> segment option) \<Rightarrow> bool" where
  "geom q A \<longleftrightarrow> finite (dom A) \<and>
     (\<forall>k a. A k = Some a \<longrightarrow> seg_base a = k \<and> 0 < seg_size a \<and> k + seg_size a < u64_limit \<and>
        q dvd k \<and> q dvd seg_size a \<and> seg_span a \<le> k) \<and>
     (\<forall>k l a b. A k = Some a \<longrightarrow> A l = Some b \<longrightarrow> k < l \<longrightarrow> k + seg_size a \<le> l) \<and>
     (\<forall>k a. A k = Some a \<longrightarrow> seg_span a \<noteq> k \<longrightarrow>
        (\<exists>j b. A j = Some b \<and> j + seg_size b = k \<and> seg_span b = seg_span a))"

definition coalesced :: "(nat \<Rightarrow> segment option) \<Rightarrow> bool" where
  "coalesced A \<longleftrightarrow> (\<forall>k a b. A k = Some a \<longrightarrow> A (k + seg_size a) = Some b \<longrightarrow>
     seg_span a = seg_span b \<longrightarrow> seg_free a \<longrightarrow> \<not> seg_free b)"

definition frees :: "(nat \<Rightarrow> segment option) \<Rightarrow> nat set" where
  "frees A = {k. \<exists>a. A k = Some a \<and> seg_free a}"

definition wsum :: "(segment \<Rightarrow> nat) \<Rightarrow> (nat \<Rightarrow> segment option) \<Rightarrow> nat" where
  "wsum f A = (\<Sum>k \<in> dom A. f (the (A k)))"

definition used_size :: "segment \<Rightarrow> nat" where
  "used_size a = (if seg_free a then 0 else seg_size a)"

section \<open>Consequences\<close>

lemma geom_finite: "geom q A \<Longrightarrow> finite (dom A)"
  by (simp add: geom_def)

lemma geomD:
  assumes "geom q A" "A k = Some a"
  shows "seg_base a = k" "0 < seg_size a" "k + seg_size a < u64_limit" "q dvd k"
    "q dvd seg_size a" "seg_span a \<le> k" "seg_end a = k + seg_size a"
  using assms by (auto simp: geom_def seg_end_def)

lemma geom_disjoint:
  "geom q A \<Longrightarrow> A k = Some a \<Longrightarrow> A l = Some b \<Longrightarrow> k < l \<Longrightarrow> k + seg_size a \<le> l"
  unfolding geom_def by blast

lemma geom_span:
  "geom q A \<Longrightarrow> A k = Some a \<Longrightarrow> seg_span a \<noteq> k \<Longrightarrow>
    \<exists>j b. A j = Some b \<and> j + seg_size b = k \<and> seg_span b = seg_span a"
  unfolding geom_def by blast

lemma geom_inside:
  assumes "geom q A" "A k = Some a" "k < l" "l < k + seg_size a"
  shows "A l = None"
  using geom_disjoint [OF assms(1,2) _ assms(3)] assms(4) by (cases "A l") auto

lemma geom_unique:
  assumes g: "geom q A" and "A k = Some a" "A l = Some b"
    and "k \<le> x" "x < k + seg_size a" "l \<le> x" "x < l + seg_size b"
  shows "k = l"
  using geom_disjoint [OF g, of k a l b] geom_disjoint [OF g, of l b k a] assms
  by (cases k l rule: linorder_cases) auto

lemma coalescedD:
  "coalesced A \<Longrightarrow> A k = Some a \<Longrightarrow> A (k + seg_size a) = Some b \<Longrightarrow> seg_span a = seg_span b \<Longrightarrow>
    seg_free a \<Longrightarrow> \<not> seg_free b"
  unfolding coalesced_def by blast

lemma wsum_insert: "finite (dom A) \<Longrightarrow> A k = None \<Longrightarrow> wsum f (A(k \<mapsto> x)) = wsum f A + f x"
proof -
  assume fin: "finite (dom A)" and k: "A k = None"
  then have "wsum f (A(k \<mapsto> x)) = f x + (\<Sum>j \<in> dom A. f (the ((A(k \<mapsto> x)) j)))"
    by (simp add: wsum_def domIff)
  also have "(\<Sum>j \<in> dom A. f (the ((A(k \<mapsto> x)) j))) = wsum f A"
    unfolding wsum_def using k by (intro sum.cong) auto
  finally show "wsum f (A(k \<mapsto> x)) = wsum f A + f x" by (simp only: add.commute)
qed

lemma wsum_remove: "finite (dom A) \<Longrightarrow> A k = Some a \<Longrightarrow> wsum f (A(k := None)) + f a = wsum f A"
  using wsum_insert [of "A(k := None)" k f a] by (simp add: fun_upd_idem)

lemma wsum_replace:
  assumes "finite (dom A)" "A k = Some a"
  shows "wsum f (A(k \<mapsto> x)) + f a = wsum f A + f x"
proof -
  have "wsum f (A(k \<mapsto> x)) = wsum f (A(k := None)) + f x"
    using wsum_insert [of "A(k := None)" k f x] assms(1) by simp
  then show ?thesis using wsum_remove [OF assms, of f] by simp
qed

lemma wsum_member: "finite (dom A) \<Longrightarrow> A k = Some a \<Longrightarrow> f a \<le> wsum f A"
  using wsum_remove [of A k a f] by simp

lemma wsum_mono: "(\<And>a. f a \<le> g a) \<Longrightarrow> wsum f A \<le> wsum g A"
  unfolding wsum_def by (rule sum_mono) simp

section \<open>Cutting a segment\<close>

definition cut :: "(nat \<Rightarrow> segment option) \<Rightarrow> nat \<Rightarrow> segment \<Rightarrow> nat \<Rightarrow> bool \<Rightarrow> bool \<Rightarrow> nat \<Rightarrow> segment option" where
  "cut A k a m f g = A(k \<mapsto> a\<lparr>seg_size := m, seg_free := f\<rparr>,
     k + m \<mapsto> segment_new (k + m) (seg_size a - m) (seg_span a) g)"

lemma cut_geom:
  assumes g: "geom q A" and a: "A k = Some a" and m: "0 < m" "m < seg_size a" "q dvd m"
  shows "geom q (cut A k a m f h)"
proof -
  let ?B = "cut A k a m f h"
  note d = geomD [OF g a]
  have B: "?B j = (if j = k + m then Some (segment_new (k + m) (seg_size a - m) (seg_span a) h)
      else if j = k then Some (a\<lparr>seg_size := m, seg_free := f\<rparr>) else A j)" for j
    using m by (simp add: cut_def)
  have old: "j \<noteq> k \<Longrightarrow> A j = Some b \<Longrightarrow> j + seg_size b \<le> k \<or> k + seg_size a \<le> j" for j b
    using geom_disjoint [OF g, of j b k a] geom_disjoint [OF g, of k a j b] a
    by (cases j k rule: linorder_cases) auto
  show ?thesis
    unfolding geom_def
  proof (intro conjI allI impI)
    show "finite (dom ?B)" using g by (simp add: cut_def geom_def)
  next
    fix j b
    assume b: "?B j = Some b"
    show "seg_base b = j" "0 < seg_size b" "j + seg_size b < u64_limit" "q dvd j"
      "q dvd seg_size b" "seg_span b \<le> j"
      using b d m geomD [OF g, of j b] by (auto simp: B split: if_splits)
    assume sp: "seg_span b \<noteq> j"
    show "\<exists>i c. ?B i = Some c \<and> i + seg_size c = j \<and> seg_span c = seg_span b"
    proof -
      consider "j = k + m" | "j = k" | "j \<noteq> k" "j \<noteq> k + m" by blast
      then show ?thesis
      proof cases
        case 1
        then show ?thesis using b m by (intro exI [of _ k]) (auto simp: B)
      next
        case 2
        then have "seg_span a = seg_span b" using b m by (auto simp: B)
        then obtain i c where c: "A i = Some c" "i + seg_size c = k" "seg_span c = seg_span b"
          using geom_span [OF g a] sp 2 by auto
        moreover have "i \<noteq> k" "i \<noteq> k + m" using c geomD(2) [OF g c(1)] by auto
        ultimately show ?thesis using 2 by (intro exI [of _ i]) (simp add: B)
      next
        case 3
        then have bj: "A j = Some b" using b by (simp add: B)
        obtain i c where c: "A i = Some c" "i + seg_size c = j" "seg_span c = seg_span b"
          using geom_span [OF g bj sp] by blast
        show ?thesis
        proof (cases "i = k")
          case True
          then have "c = a" using c(1) a by simp
          then show ?thesis using c m True by (intro exI [of _ "k + m"]) (simp add: B)
        next
          case False
          then have "i \<noteq> k + m" using old [OF False c(1)] geomD(2) [OF g c(1)] m by auto
          with False c show ?thesis by (intro exI [of _ i]) (simp add: B)
        qed
      qed
    qed
  next
    fix i j b c
    assume b: "?B i = Some b" and c: "?B j = Some c" and ij: "i < j"
    show "i + seg_size b \<le> j"
      using b c ij m old [of i b] old [of j c] geom_disjoint [OF g, of i b j c] geomD(2) [OF g, of j c]
      by (auto simp: B split: if_splits)
  qed
qed

lemma cut_wsum:
  assumes "geom q A" "A k = Some a" "0 < m" "m < seg_size a"
  shows "wsum F (cut A k a m f h) + F a = wsum F A + F (a\<lparr>seg_size := m, seg_free := f\<rparr>) +
    F (segment_new (k + m) (seg_size a - m) (seg_span a) h)"
proof -
  have "A (k + m) = None" by (rule geom_inside [OF assms(1,2)]) (use assms(3,4) in auto)
  then show ?thesis
    using wsum_insert [of "A(k \<mapsto> a\<lparr>seg_size := m, seg_free := f\<rparr>)" "k + m" F
        "segment_new (k + m) (seg_size a - m) (seg_span a) h"]
      wsum_replace [of A k a F "a\<lparr>seg_size := m, seg_free := f\<rparr>"] assms geom_finite [OF assms(1)]
    by (simp add: cut_def)
qed

section \<open>Joining two segments\<close>

definition join :: "(nat \<Rightarrow> segment option) \<Rightarrow> nat \<Rightarrow> segment \<Rightarrow> segment \<Rightarrow> nat \<Rightarrow> segment option" where
  "join A k a b = A(k + seg_size a := None, k \<mapsto> a\<lparr>seg_size := seg_size a + seg_size b\<rparr>)"

lemma join_geom:
  assumes g: "geom q A" and a: "A k = Some a" and b: "A (k + seg_size a) = Some b"
    and sp: "seg_span b = seg_span a"
  shows "geom q (join A k a b)"
proof -
  let ?B = "join A k a b" and ?l = "k + seg_size a"
  note da = geomD [OF g a] and db = geomD [OF g b]
  have B: "?B j = (if j = k then Some (a\<lparr>seg_size := seg_size a + seg_size b\<rparr>)
      else if j = ?l then None else A j)" for j
    by (simp add: join_def)
  have after: "?l + seg_size b \<le> j" if "A j = Some c" "k < j" "j \<noteq> ?l" for j c
    using geom_disjoint [OF g a that(1,2)] geom_disjoint [OF g b that(1)] that(3) by auto
  show ?thesis
    unfolding geom_def
  proof (intro conjI allI impI)
    show "finite (dom ?B)" using g by (auto simp: join_def geom_def)
  next
    fix j c
    assume c: "?B j = Some c"
    show "seg_base c = j" "0 < seg_size c" "j + seg_size c < u64_limit" "q dvd j"
      "q dvd seg_size c" "seg_span c \<le> j"
      using c da db geomD [OF g, of j c] by (auto simp: B split: if_splits)
    assume sc: "seg_span c \<noteq> j"
    show "\<exists>i d. ?B i = Some d \<and> i + seg_size d = j \<and> seg_span d = seg_span c"
    proof -
      have "\<exists>i d. A i = Some d \<and> i + seg_size d = j \<and> seg_span d = seg_span c"
        using geom_span [OF g, of j] c sc a by (auto simp: B split: if_splits)
      then obtain i d where d: "A i = Some d" "i + seg_size d = j" "seg_span d = seg_span c" by blast
      have "j \<noteq> ?l" using c da(2) by (auto simp: B split: if_splits)
      then have ik: "i \<noteq> k" using d a by auto
      show ?thesis
      proof (cases "i = ?l")
        case True
        then have "d = b" using d b by simp
        then show ?thesis using d True sp by (intro exI [of _ k]) (simp add: B)
      next
        case False
        then show ?thesis using d ik by (intro exI [of _ i]) (simp add: B)
      qed
    qed
  next
    fix i j c d
    assume c: "?B i = Some c" and d: "?B j = Some d" and ij: "i < j"
    show "i + seg_size c \<le> j"
    proof (cases "i = k")
      case True
      then show ?thesis using c d ij after [of j d] by (auto simp: B split: if_splits)
    next
      case False
      then have "A i = Some c" using c by (simp add: B split: if_splits)
      moreover have "\<exists>e. A j = Some e" using d a by (auto simp: B split: if_splits)
      ultimately show ?thesis using geom_disjoint [OF g] ij by blast
    qed
  qed
qed

lemma join_wsum:
  assumes "finite (dom A)" "A k = Some a" "A (k + seg_size a) = Some b" "0 < seg_size a"
  shows "wsum F (join A k a b) + F a + F b = wsum F A + F (a\<lparr>seg_size := seg_size a + seg_size b\<rparr>)"
  using wsum_remove [OF assms(1,3), of F]
    wsum_replace [of "A(k + seg_size a := None)" k a F "a\<lparr>seg_size := seg_size a + seg_size b\<rparr>"]
    assms by (simp add: join_def)

section \<open>Changing the state of a segment\<close>

lemma flag_geom:
  assumes "geom q A" "A k = Some a"
  shows "geom q (A(k \<mapsto> a\<lparr>seg_free := f\<rparr>))"
proof -
  have same: "\<exists>b. A j = Some b \<and> seg_base c = seg_base b \<and> seg_size c = seg_size b \<and>
      seg_span c = seg_span b" if "(A(k \<mapsto> a\<lparr>seg_free := f\<rparr>)) j = Some c" for j c
    using that assms(2) by (auto split: if_splits)
  have forth: "\<exists>c. (A(k \<mapsto> a\<lparr>seg_free := f\<rparr>)) j = Some c \<and> seg_size c = seg_size b \<and>
      seg_span c = seg_span b" if "A j = Some b" for j b
    using that assms(2) by auto
  show ?thesis
    unfolding geom_def
  proof (intro conjI allI impI)
    show "finite (dom (A(k \<mapsto> a\<lparr>seg_free := f\<rparr>)))" using assms(1) by (simp add: geom_def)
  next
    fix j c
    assume c: "(A(k \<mapsto> a\<lparr>seg_free := f\<rparr>)) j = Some c"
    show "seg_base c = j" "0 < seg_size c" "j + seg_size c < u64_limit" "q dvd j"
      "q dvd seg_size c" "seg_span c \<le> j"
      using same [OF c] geomD [OF assms(1)] by auto
    assume "seg_span c \<noteq> j"
    then show "\<exists>i d. (A(k \<mapsto> a\<lparr>seg_free := f\<rparr>)) i = Some d \<and> i + seg_size d = j \<and> seg_span d = seg_span c"
      using same [OF c] geom_span [OF assms(1), of j] forth by metis
  next
    fix i j c d
    assume "(A(k \<mapsto> a\<lparr>seg_free := f\<rparr>)) i = Some c" "(A(k \<mapsto> a\<lparr>seg_free := f\<rparr>)) j = Some d" "i < j"
    then show "i + seg_size c \<le> j" using same geom_disjoint [OF assms(1)] by metis
  qed
qed

section \<open>The abstract arena\<close>

text \<open>
  What a client sees of an arena: the addresses of each span and the allocated ranges.
\<close>

definition allocs :: "(nat \<Rightarrow> segment option) \<Rightarrow> (nat \<times> nat) set" where
  "allocs A = {(k, seg_size a) | k a. A k = Some a \<and> \<not> seg_free a}"

definition region :: "(nat \<Rightarrow> segment option) \<Rightarrow> nat \<Rightarrow> nat set" where
  "region A sp = {x. \<exists>k a. A k = Some a \<and> seg_span a = sp \<and> k \<le> x \<and> x < k + seg_size a}"

lemma regionI: "A k = Some a \<Longrightarrow> k \<le> x \<Longrightarrow> x < k + seg_size a \<Longrightarrow> x \<in> region A (seg_span a)"
  by (auto simp: region_def)

lemma cut_region:
  assumes g: "geom q A" and a: "A k = Some a" and m: "0 < m" "m < seg_size a"
  shows "region (cut A k a m f h) = region A"
proof (intro ext set_eqI iffI)
  have new: "A (k + m) = None" by (rule geom_inside [OF g a]) (use m in auto)
  fix sp x
  {
    assume "x \<in> region (cut A k a m f h) sp"
    then obtain j b where j: "cut A k a m f h j = Some b" "seg_span b = sp" "j \<le> x" "x < j + seg_size b"
      by (auto simp: region_def)
    then consider "j = k \<or> j = k + m" | "A j = Some b" by (auto simp: cut_def split: if_splits)
    then show "x \<in> region A sp"
    proof cases
      case 1
      then have "k \<le> x" "x < k + seg_size a" "seg_span a = sp" using j m by (auto simp: cut_def)
      then show ?thesis using regionI [of A, OF a] by auto
    next
      case 2
      then show ?thesis using regionI [of A, OF 2] j by auto
    qed
  next
    assume "x \<in> region A sp"
    then obtain j b where j: "A j = Some b" "seg_span b = sp" "j \<le> x" "x < j + seg_size b"
      by (auto simp: region_def)
    show "x \<in> region (cut A k a m f h) sp"
    proof (cases "j = k")
      case True
      then have [simp]: "b = a" using j a by simp
      have "cut A k a m f h (if x < k + m then k else k + m) = Some (if x < k + m
          then a\<lparr>seg_size := m, seg_free := f\<rparr> else segment_new (k + m) (seg_size a - m) (seg_span a) h)"
        using m by (simp add: cut_def)
      from regionI [of "cut A k a m f h", OF this, of x] j True m show ?thesis
        by (cases "x < k + m") auto
    next
      case False
      then have "cut A k a m f h j = Some b" using j new by (auto simp: cut_def)
      from regionI [of "cut A k a m f h", OF this] j show ?thesis by auto
    qed
  }
qed

lemma join_region:
  assumes a: "A k = Some a" and b: "A (k + seg_size a) = Some b" and sp: "seg_span b = seg_span a"
  shows "region (join A k a b) = region A"
proof (intro ext set_eqI iffI)
  fix s x
  {
    assume "x \<in> region (join A k a b) s"
    then obtain j c where j: "join A k a b j = Some c" "seg_span c = s" "j \<le> x" "x < j + seg_size c"
      by (auto simp: region_def)
    show "x \<in> region A s"
    proof (cases "j = k")
      case True
      then show ?thesis
        using j sp regionI [of A, OF a, of x] regionI [of A, OF b, of x]
        by (cases "x < k + seg_size a") (auto simp: join_def)
    next
      case False
      then have "A j = Some c" using j by (auto simp: join_def split: if_splits)
      from regionI [of A, OF this] j show ?thesis by auto
    qed
  next
    assume "x \<in> region A s"
    then obtain j c where j: "A j = Some c" "seg_span c = s" "j \<le> x" "x < j + seg_size c"
      by (auto simp: region_def)
    have k: "join A k a b k = Some (a\<lparr>seg_size := seg_size a + seg_size b\<rparr>)" by (simp add: join_def)
    show "x \<in> region (join A k a b) s"
    proof (cases "j = k \<or> j = k + seg_size a")
      case True
      then show ?thesis using j a b sp regionI [of "join A k a b", OF k, of x] by auto
    next
      case False
      then have "join A k a b j = Some c" using j by (simp add: join_def)
      from regionI [of "join A k a b", OF this] j show ?thesis by auto
    qed
  }
qed

lemma flag_region:
  assumes "A k = Some a" shows "region (A(k \<mapsto> a\<lparr>seg_free := f\<rparr>)) = region A"
proof (intro ext set_eqI iffI)
  fix s x
  assume "x \<in> region (A(k \<mapsto> a\<lparr>seg_free := f\<rparr>)) s"
  then show "x \<in> region A s" using assms by (force simp: region_def split: if_splits)
next
  fix s x
  assume "x \<in> region A s"
  then obtain j b where j: "A j = Some b" "seg_span b = s" "j \<le> x" "x < j + seg_size b"
    by (auto simp: region_def)
  then have "\<exists>c. (A(k \<mapsto> a\<lparr>seg_free := f\<rparr>)) j = Some c \<and> seg_span c = s \<and> seg_size c = seg_size b"
    using assms by auto
  then obtain c where c: "(A(k \<mapsto> a\<lparr>seg_free := f\<rparr>)) j = Some c" "seg_span c = s"
    "seg_size c = seg_size b" by blast
  with j regionI [of "A(k \<mapsto> a\<lparr>seg_free := f\<rparr>)", OF c(1), of x]
  show "x \<in> region (A(k \<mapsto> a\<lparr>seg_free := f\<rparr>)) s" by simp
qed

end
