(* ===== verification/Vmem_Search.thy ===== *)
theory Vmem_Search
  imports Vmem_Arena
begin

text \<open>
  The searches of the arena model: where \<^const>\<open>placement\<close> puts a range in a segment,
  and that \<^const>\<open>instant_fit\<close> and \<^const>\<open>scan_fit\<close> terminate on
  well-formed free lists, return a segment that fits, and fail only when no free segment fits.
\<close>

unbundle bit_operations_syntax

section \<open>Size classes\<close>

lemma freelist_index_ilog2: "0 < n \<Longrightarrow> n < u64_limit \<Longrightarrow> freelist_index n = ilog2 n"
  using ilog2_less [of n 64] max_absorb1 [of 1 n]
  by (simp add: freelist_index_def leading_zeros_def)

lemma freelist_index_mono:
  "0 < m \<Longrightarrow> m \<le> n \<Longrightarrow> n < u64_limit \<Longrightarrow> freelist_index m \<le> freelist_index n"
  using ilog2_mono [of m n] by (simp add: freelist_index_ilog2)

lemma ilog2_power [simp]: "ilog2 (2 ^ k) = k"
proof (induction k)
  case (Suc k)
  have "\<not> (2::nat) ^ Suc k < 2" by simp
  then show ?case using Suc ilog2.simps [of "2 ^ Suc k"] by simp
qed (simp add: ilog2.simps)

lemma guaranteed_fits:
  assumes "0 < sz" "sz < u64_limit" "0 < n" "n < u64_limit" "guaranteed_freelist sz \<le> freelist_index n"
  shows "sz \<le> n"
proof -
  have "sz \<le> 2 ^ guaranteed_freelist sz"
    using ilog2_bounds [of sz] assms(1,2)
    by (auto simp: guaranteed_freelist_def freelist_index_ilog2 is_power_of_two_iff)
  also have "\<dots> \<le> 2 ^ ilog2 n"
    using assms(3-5) by (intro power_increasing) (simp_all add: freelist_index_ilog2)
  also have "\<dots> \<le> n" using ilog2_bounds [OF assms(3)] by simp
  finally show ?thesis .
qed

lemma guaranteed_bound: "guaranteed_freelist sz \<le> Suc (freelist_index sz)"
  by (simp add: guaranteed_freelist_def)

section \<open>Placement inside a segment\<close>

definition fits_at :: "segment \<Rightarrow> nat \<Rightarrow> nat \<Rightarrow> nat \<Rightarrow> nat \<Rightarrow> nat \<Rightarrow> bool" where
  "fits_at t sz align mn mx b \<longleftrightarrow>
     align dvd b \<and> seg_base t \<le> b \<and> mn \<le> b \<and> b + sz \<le> seg_end t \<and> b + sz \<le> mx"

lemma placement_fits:
  assumes p: "is_power_of_two align" "align < u64_limit"
    and r: "placement t sz align mn mx = Some b"
  shows "fits_at t sz align mn mx b"
proof -
  define m where "m = max (seg_base t) mn"
  from r have lim: "m + (align - 1) < u64_limit" and b: "b = mask_down (m + (align - 1)) align"
    and e: "b + sz \<le> seg_end t" "b + sz \<le> mx"
    by (auto simp: placement_def Let_def m_def bind_eq_Some_conv split: if_splits)
  have "align dvd b" unfolding b by (rule mask_down_dvd [OF p lim])
  moreover have "m \<le> b"
    unfolding b mask_down_eq [OF p lim] by (rule round_up_bounds(1) [OF power_of_two_pos [OF p(1)]])
  ultimately show ?thesis using e by (simp add: fits_at_def m_def)
qed

lemma dvd_u64_limit:
  assumes "is_power_of_two q" "q < u64_limit"
  shows "q dvd u64_limit"
proof -
  obtain k where k: "q = 2 ^ k" using assms(1) by (auto simp: is_power_of_two_iff)
  then have "(2::nat) ^ k < 2 ^ 64" using assms(2) by simp
  then have "k < 64" by (metis power_strict_increasing_iff one_less_numeral_iff semiring_norm(76))
  then have "(2::nat) ^ k dvd 2 ^ 64" by (intro le_imp_power_dvd) simp
  then show ?thesis using k by simp
qed

lemma dvd_gap:
  fixes b c q :: nat
  assumes "q dvd b" "q dvd c" "b < c" shows "b + q \<le> c"
proof -
  from assms obtain m n where "b = q * m" "c = q * n" by (auto simp: dvd_def)
  with assms(3) have "m < n" by (cases "q = 0") auto
  then have "q * Suc m \<le> q * n" by (intro mult_le_mono2) simp
  then show ?thesis using \<open>b = q * m\<close> \<open>c = q * n\<close> by simp
qed

lemma placement_least:
  assumes p: "is_power_of_two align" "align < u64_limit" and e: "seg_end t < u64_limit"
    and f: "fits_at t sz align mn mx b"
  shows "\<exists>c \<le> b. placement t sz align mn mx = Some c"
proof -
  define m where "m = max (seg_base t) mn"
  have mb: "m \<le> b" and d: "align dvd b" and be: "b + sz \<le> seg_end t" "b + sz \<le> mx"
    using f by (auto simp: fits_at_def m_def)
  have pos: "0 < align" by (rule power_of_two_pos [OF p(1)])
  have "b + align \<le> u64_limit" by (rule dvd_gap [OF d dvd_u64_limit [OF p]]) (use be e in simp)
  then have lim: "m + (align - 1) < u64_limit" using mb pos by linarith
  define c where "c = mask_down (m + (align - 1)) align"
  have c: "c = m + (align - 1) - (m + (align - 1)) mod align"
    unfolding c_def by (rule mask_down_eq [OF p lim])
  have "c < m + align" unfolding c by (rule round_up_bounds(2) [OF pos])
  moreover have "align dvd c" unfolding c_def by (rule mask_down_dvd [OF p lim])
  ultimately have "c \<le> b" using dvd_gap [OF d, of c] mb by (meson leD le_less_linear order_trans add_mono_thms_linordered_semiring(3))
  then have "placement t sz align mn mx = Some c"
    using lim be e by (simp add: placement_def Let_def c_def m_def checked_add_def)
  then show ?thesis using \<open>c \<le> b\<close> by blast
qed

section \<open>Walking one list\<close>

definition tag_at :: "vmem \<Rightarrow> nat \<Rightarrow> segment" where
  "tag_at v x = the (segs v x)"

definition good_tag :: "vmem \<Rightarrow> nat \<Rightarrow> bool" where
  "good_tag v x \<longleftrightarrow> (\<exists>t. segs v x = Some t \<and> seg_base t = x \<and> 0 < seg_size t \<and>
     seg_end t < u64_limit)"

definition place :: "vmem \<Rightarrow> nat \<Rightarrow> nat \<Rightarrow> nat \<Rightarrow> nat \<Rightarrow> nat \<Rightarrow> nat option" where
  "place v sz align mn mx x = placement (tag_at v x) sz align mn mx"

definition pick :: "vmem \<Rightarrow> nat \<Rightarrow> nat \<Rightarrow> nat \<Rightarrow> nat \<Rightarrow> (nat \<times> nat \<times> nat) option \<Rightarrow> nat \<Rightarrow>
    (nat \<times> nat \<times> nat) option" where
  "pick v sz align mn mx chosen x =
     (case place v sz align mn mx x of
        None \<Rightarrow> chosen
      | Some b \<Rightarrow>
          if (case chosen of None \<Rightarrow> True | Some (_, _, c) \<Rightarrow> seg_size (tag_at v x) < c)
          then Some (x, b, seg_size (tag_at v x)) else chosen)"

lemma good_tagD:
  assumes "good_tag v x"
  shows "segs v x = Some (tag_at v x)" "seg_base (tag_at v x) = x" "0 < seg_size (tag_at v x)"
    "seg_end (tag_at v x) < u64_limit" "seg_size (tag_at v x) < u64_limit"
  using assms by (auto simp: good_tag_def tag_at_def seg_end_def)

lemma instant_walk_chain:
  assumes "dseg (segs v) prev p xs lst None" "\<And>x. x \<in> set xs \<Longrightarrow> good_tag v x"
  shows "instant_walk v sz p =
    Some (map_option (\<lambda>x. (x, x)) (find (\<lambda>x. sz \<le> seg_size (tag_at v x)) xs))"
  using assms
proof (induction xs arbitrary: prev p)
  case Nil
  then show ?case by (simp add: instant_walk.simps)
next
  case (Cons x xs)
  then have p: "p = Some x" and x: "segs v x = Some (tag_at v x)" "seg_base (tag_at v x) = x"
    using good_tagD [of v x] by auto
  with Cons.prems have "dseg (segs v) (Some x) (seg_next (tag_at v x)) xs lst None" by auto
  with Cons.IH [OF this] Cons.prems(2) show ?case
    by (subst instant_walk.simps) (simp add: p x vmem_link_def)
qed

lemma scan_first_chain:
  assumes "dseg (segs v) prev p xs lst None" "\<And>x. x \<in> set xs \<Longrightarrow> good_tag v x"
  shows "scan_list v sz align mn mx False ch p =
    Some (case find (\<lambda>x. place v sz align mn mx x \<noteq> None) xs of
            None \<Rightarrow> Inr ch | Some x \<Rightarrow> Inl (x, the (place v sz align mn mx x)))"
  using assms
proof (induction xs arbitrary: prev p)
  case Nil
  then show ?case by (simp add: scan_list.simps)
next
  case (Cons x xs)
  then have p: "p = Some x" and x: "segs v x = Some (tag_at v x)" "seg_base (tag_at v x) = x"
    using good_tagD [of v x] by auto
  with Cons.prems have "dseg (segs v) (Some x) (seg_next (tag_at v x)) xs lst None" by auto
  note IH = Cons.IH [OF this]
  show ?case
    using IH Cons.prems(2)
    by (subst scan_list.simps) (auto simp: p x vmem_link_def place_def split: option.split)
qed

lemma scan_best_chain:
  assumes "dseg (segs v) prev p xs lst None" "\<And>x. x \<in> set xs \<Longrightarrow> good_tag v x"
  shows "scan_list v sz align mn mx True ch p = Some (Inr (foldl (pick v sz align mn mx) ch xs))"
  using assms
proof (induction xs arbitrary: prev p ch)
  case Nil
  then show ?case by (simp add: scan_list.simps)
next
  case (Cons x xs)
  then have p: "p = Some x" and x: "segs v x = Some (tag_at v x)" "seg_base (tag_at v x) = x"
    using good_tagD [of v x] by auto
  with Cons.prems have "dseg (segs v) (Some x) (seg_next (tag_at v x)) xs lst None" by auto
  note IH = Cons.IH [OF this]
  have "scan_list v sz align mn mx True ch p =
      scan_list v sz align mn mx True (pick v sz align mn mx ch x) (seg_next (tag_at v x))"
    by (subst scan_list.simps) (simp add: p x vmem_link_def place_def pick_def split: option.split)
  then show ?case using IH Cons.prems(2) by simp
qed

lemma foldl_pick:
  "case foldl (pick v sz align mn mx) ch xs of
     None \<Rightarrow> ch = None \<and> (\<forall>x \<in> set xs. place v sz align mn mx x = None)
   | Some (s, b, n) \<Rightarrow>
       (ch = Some (s, b, n) \<or> s \<in> set xs \<and> place v sz align mn mx s = Some b \<and> n = seg_size (tag_at v s)) \<and>
       (\<forall>c \<in> set_option ch. n \<le> snd (snd c)) \<and>
       (\<forall>x \<in> set xs. place v sz align mn mx x \<noteq> None \<longrightarrow> n \<le> seg_size (tag_at v x))"
proof (induction xs arbitrary: ch)
  case Nil
  then show ?case by (cases ch) auto
next
  case (Cons x xs)
  let ?ch = "pick v sz align mn mx ch x"
  have step: "?ch = ch \<and> (place v sz align mn mx x \<noteq> None \<longrightarrow>
      (\<exists>s b c. ch = Some (s, b, c) \<and> c \<le> seg_size (tag_at v x))) \<or>
    (\<exists>b. place v sz align mn mx x = Some b \<and> ?ch = Some (x, b, seg_size (tag_at v x)) \<and>
      (\<forall>c \<in> set_option ch. seg_size (tag_at v x) \<le> snd (snd c)))"
    by (cases ch; cases "place v sz align mn mx x") (auto simp: pick_def)
  show ?case
  proof (cases "foldl (pick v sz align mn mx) ?ch xs")
    case None
    then show ?thesis using Cons.IH [of ?ch] step by auto
  next
    case (Some r)
    obtain s b n where r: "r = (s, b, n)" by (cases r)
    with Some Cons.IH [of ?ch] have ih: "?ch = Some (s, b, n) \<or>
        s \<in> set xs \<and> place v sz align mn mx s = Some b \<and> n = seg_size (tag_at v s)"
      "\<forall>c \<in> set_option ?ch. n \<le> snd (snd c)"
      "\<forall>x \<in> set xs. place v sz align mn mx x \<noteq> None \<longrightarrow> n \<le> seg_size (tag_at v x)" by auto
    have "ch = Some (s, b, n) \<or> s \<in> set (x # xs) \<and> place v sz align mn mx s = Some b \<and>
        n = seg_size (tag_at v s)"
      using ih(1) step by auto
    moreover have "\<forall>c \<in> set_option ch. n \<le> snd (snd c)"
      using ih(2) step by (metis option.set_intros order_trans snd_conv)
    moreover have "place v sz align mn mx x \<noteq> None \<Longrightarrow> n \<le> seg_size (tag_at v x)"
      using ih(2) step by (elim disjE) auto
    ultimately show ?thesis using Some r ih(3) by simp
  qed
qed

section \<open>Searching the lists\<close>

lemma place_size:
  assumes "good_tag v x" "is_power_of_two align" "align < u64_limit"
    and "place v sz align mn mx x = Some b"
  shows "sz \<le> seg_size (tag_at v x)"
  using placement_fits [OF assms(2,3) assms(4) [unfolded place_def]] good_tagD(2) [OF assms(1)]
  by (simp add: fits_at_def seg_end_def)

lemma scan_lists_spec:
  assumes L: "free_lists v L" and ls: "set ls \<subseteq> {..<FREELIST_COUNT}" and sorted: "sorted_wrt (<) ls"
    and good: "\<forall>i < FREELIST_COUNT. \<forall>x \<in> set (L i). good_tag v x"
  shows "\<exists>r. scan_lists v sz align mn mx best ls = Some r \<and>
    (case r of
       None \<Rightarrow> \<forall>i \<in> set ls. \<forall>x \<in> set (L i). place v sz align mn mx x = None
     | Some (s, b) \<Rightarrow> \<exists>i \<in> set ls. s \<in> set (L i) \<and> place v sz align mn mx s = Some b \<and>
         (best \<longrightarrow> (\<forall>x \<in> set (L i). place v sz align mn mx x \<noteq> None \<longrightarrow>
            seg_size (tag_at v s) \<le> seg_size (tag_at v x))) \<and>
         (\<forall>j \<in> set ls. j < i \<longrightarrow> (\<forall>x \<in> set (L j). place v sz align mn mx x = None)))"
  using ls sorted
proof (induction ls)
  case Nil
  then show ?case by simp
next
  case (Cons i ls)
  have i: "i < FREELIST_COUNT" using Cons.prems by auto
  obtain lst where chain: "dseg (segs v) None (vm_freelists v ! i) (L i) lst None"
    using free_listsD(2) [OF L i] by blast
  from Cons obtain r where r: "scan_lists v sz align mn mx best ls = Some r" and
    ih: "case r of
       None \<Rightarrow> \<forall>i \<in> set ls. \<forall>x \<in> set (L i). place v sz align mn mx x = None
     | Some (s, b) \<Rightarrow> \<exists>i \<in> set ls. s \<in> set (L i) \<and> place v sz align mn mx s = Some b \<and>
         (best \<longrightarrow> (\<forall>x \<in> set (L i). place v sz align mn mx x \<noteq> None \<longrightarrow>
            seg_size (tag_at v s) \<le> seg_size (tag_at v x))) \<and>
         (\<forall>j \<in> set ls. j < i \<longrightarrow> (\<forall>x \<in> set (L j). place v sz align mn mx x = None))"
    by auto
  have "(\<exists>s b. scan_lists v sz align mn mx best (i # ls) = Some (Some (s, b)) \<and> s \<in> set (L i) \<and>
        place v sz align mn mx s = Some b \<and>
        (best \<longrightarrow> (\<forall>x \<in> set (L i). place v sz align mn mx x \<noteq> None \<longrightarrow>
            seg_size (tag_at v s) \<le> seg_size (tag_at v x)))) \<or>
      scan_lists v sz align mn mx best (i # ls) = Some r \<and>
        (\<forall>x \<in> set (L i). place v sz align mn mx x = None)"
  proof (cases best)
    case True
    have "scan_list v sz align mn mx best None (vm_freelists v ! i) =
        Some (Inr (foldl (pick v sz align mn mx) None (L i)))"
      using scan_best_chain [OF chain] good i True by simp
    then show ?thesis
      using foldl_pick [where v = v and sz = sz and align = align and mn = mn and mx = mx and ch = None and xs = "L i"] r True
      by (cases "foldl (pick v sz align mn mx) None (L i)") auto
  next
    case False
    have first: "scan_list v sz align mn mx best None (vm_freelists v ! i) =
        Some (case find (\<lambda>x. place v sz align mn mx x \<noteq> None) (L i) of
            None \<Rightarrow> Inr None | Some x \<Rightarrow> Inl (x, the (place v sz align mn mx x)))"
      using scan_first_chain [OF chain] good i False by simp
    show ?thesis
    proof (cases "find (\<lambda>x. place v sz align mn mx x \<noteq> None) (L i)")
      case None
      then have "scan_list v sz align mn mx best None (vm_freelists v ! i) = Some (Inr None)"
        using first by simp
      then show ?thesis using None r by (auto simp: find_None_iff)
    next
      case (Some x)
      then have "x \<in> set (L i)" "place v sz align mn mx x \<noteq> None"
        by (auto simp: find_Some_iff)
      moreover have "scan_list v sz align mn mx best None (vm_freelists v ! i) =
          Some (Inl (x, the (place v sz align mn mx x)))"
        using first Some by simp
      ultimately show ?thesis using False by auto
    qed
  qed
  then show ?case
  proof
    assume "\<exists>s b. scan_lists v sz align mn mx best (i # ls) = Some (Some (s, b)) \<and> s \<in> set (L i) \<and>
        place v sz align mn mx s = Some b \<and>
        (best \<longrightarrow> (\<forall>x \<in> set (L i). place v sz align mn mx x \<noteq> None \<longrightarrow>
            seg_size (tag_at v s) \<le> seg_size (tag_at v x)))"
    then obtain s b where s: "scan_lists v sz align mn mx best (i # ls) = Some (Some (s, b))"
      "s \<in> set (L i)" "place v sz align mn mx s = Some b"
      "best \<longrightarrow> (\<forall>x \<in> set (L i). place v sz align mn mx x \<noteq> None \<longrightarrow>
            seg_size (tag_at v s) \<le> seg_size (tag_at v x))" by blast
    have "\<forall>j \<in> set (i # ls). \<not> j < i" using Cons.prems(2) by auto
    then show ?thesis
      unfolding s(1) by (intro exI [of _ "Some (s, b)"]) (use s(2-4) in \<open>simp; blast\<close>)
  next
    assume "scan_lists v sz align mn mx best (i # ls) = Some r \<and>
        (\<forall>x \<in> set (L i). place v sz align mn mx x = None)"
    then show ?thesis using ih by (cases r) auto
  qed
qed

lemma scan_fit_spec:
  assumes lk: "linked v F" and good: "\<And>x. x \<in> F \<Longrightarrow> good_tag v x"
    and sz: "0 < sz" "sz < u64_limit" and al: "is_power_of_two align" "align < u64_limit"
  shows "\<exists>r. scan_fit v sz align mn mx best = Some r \<and>
    (case r of
       None \<Rightarrow> \<forall>x \<in> F. place v sz align mn mx x = None
     | Some (s, b) \<Rightarrow> s \<in> F \<and> place v sz align mn mx s = Some b \<and>
         (best \<longrightarrow> (\<forall>x \<in> F. place v sz align mn mx x \<noteq> None \<longrightarrow>
            seg_size (tag_at v s) \<le> seg_size (tag_at v x))))"
proof -
  obtain L where L: "free_lists v L" and F: "F = (\<Union>i < FREELIST_COUNT. set (L i))"
    using lk by (auto simp: linked_def)
  have goodL: "good_tag v x" if "i < FREELIST_COUNT" "x \<in> set (L i)" for i x
    using good F that by auto
  have cls: "freelist_index (seg_size (tag_at v x)) = i" if "i < FREELIST_COUNT" "x \<in> set (L i)" for i x
    using free_listsD(3) [OF L that] by (auto simp: tag_at_def)
  have low: "freelist_index sz \<le> i" if "i < FREELIST_COUNT" "x \<in> set (L i)" "place v sz align mn mx x \<noteq> None" for i x
    using place_size [OF goodL [OF that(1,2)] al] that(3) cls [OF that(1,2)]
      freelist_index_mono [OF sz(1)] good_tagD(5) [OF goodL [OF that(1,2)]] by fastforce
  have order: "seg_size (tag_at v x) \<le> seg_size (tag_at v y)"
    if "i < FREELIST_COUNT" "x \<in> set (L i)" "j < FREELIST_COUNT" "y \<in> set (L j)" "i < j" for i j x y
    using cls [OF that(1,2)] cls [OF that(3,4)] that(5) good_tagD(3,5) [OF goodL [OF that(1,2)]]
      freelist_index_mono [of "seg_size (tag_at v y)" "seg_size (tag_at v x)"]
      good_tagD(3) [OF goodL [OF that(3,4)]] by (meson leI less_imp_le not_le)
  obtain r where r: "scan_fit v sz align mn mx best = Some r" and spec: "case r of
       None \<Rightarrow> \<forall>i \<in> {freelist_index sz..<FREELIST_COUNT}. \<forall>x \<in> set (L i). place v sz align mn mx x = None
     | Some (s, b) \<Rightarrow> \<exists>i \<in> {freelist_index sz..<FREELIST_COUNT}. s \<in> set (L i) \<and> place v sz align mn mx s = Some b \<and>
         (best \<longrightarrow> (\<forall>x \<in> set (L i). place v sz align mn mx x \<noteq> None \<longrightarrow>
            seg_size (tag_at v s) \<le> seg_size (tag_at v x))) \<and>
         (\<forall>j \<in> {freelist_index sz..<FREELIST_COUNT}. j < i \<longrightarrow>
            (\<forall>x \<in> set (L j). place v sz align mn mx x = None))"
  proof -
    have ls: "set [freelist_index sz..<FREELIST_COUNT] \<subseteq> {..<FREELIST_COUNT}"
      "sorted_wrt (<) [freelist_index sz..<FREELIST_COUNT]" by auto
    show thesis
      using scan_lists_spec [OF L ls, where sz = sz and align = align and mn = mn
          and mx = mx and best = best] goodL that
      unfolding scan_fit_def set_upt by blast
  qed
  show ?thesis
  proof (cases r)
    case None
    then have "\<forall>x \<in> F. place v sz align mn mx x = None"
      using spec low F by fastforce
    then show ?thesis using r None by simp
  next
    case (Some p)
    obtain s b where p: "p = (s, b)" by (cases p)
    with Some spec obtain i where i: "freelist_index sz \<le> i" "i < FREELIST_COUNT" "s \<in> set (L i)"
      "place v sz align mn mx s = Some b"
      and least: "best \<longrightarrow> (\<forall>x \<in> set (L i). place v sz align mn mx x \<noteq> None \<longrightarrow>
            seg_size (tag_at v s) \<le> seg_size (tag_at v x))"
      and below: "\<forall>j \<in> {freelist_index sz..<FREELIST_COUNT}. j < i \<longrightarrow>
            (\<forall>x \<in> set (L j). place v sz align mn mx x = None)" by auto
    have "seg_size (tag_at v s) \<le> seg_size (tag_at v x)"
      if best and x: "x \<in> F" "place v sz align mn mx x \<noteq> None" for x
    proof -
      obtain j where j: "j < FREELIST_COUNT" "x \<in> set (L j)" using x F by auto
      have "\<not> j < i" using below low [OF j x(2)] j x(2) by auto
      then consider "j = i" | "i < j" by linarith
      then show ?thesis using least order [OF i(2,3) j] \<open>best\<close> j x(2) by cases auto
    qed
    moreover have "s \<in> F" using i F by auto
    ultimately show ?thesis using r Some p i(4) by auto
  qed
qed

section \<open>The constant-time search\<close>

lemma trailing_zeros_bit:
  assumes "w \<noteq> 0" shows "bit w (trailing_zeros w)" "trailing_zeros w < 64"
proof -
  let ?P = "\<lambda>i. \<not> bit w i"
  have "\<exists>i < 64. bit w i"
  proof (rule ccontr)
    assume "\<not> (\<exists>i < 64. bit w i)"
    then have "w = 0" by (auto intro: bit_word_eqI)
    with assms show False by simp
  qed
  then have neq: "takeWhile ?P [0..<64] \<noteq> [0..<64]" by (auto simp: takeWhile_eq_all_conv)
  moreover have "length (takeWhile ?P [0..<64]) \<le> length [0..<64]" by (rule length_takeWhile_le)
  ultimately have len: "length (takeWhile ?P [0..<64]) < length [0..<64]"
    by (metis le_neq_implies_less take_all_iff takeWhile_eq_take order_refl)
  then show "trailing_zeros w < 64" by (simp add: trailing_zeros_def)
  from nth_length_takeWhile [OF len] len show "bit w (trailing_zeros w)"
    by (simp add: trailing_zeros_def)
qed

lemma bit_candidates:
  fixes w :: u64
  assumes "i < 64" shows "bit (w AND push_bit g (NOT 0)) i \<longleftrightarrow> bit w i \<and> g \<le> i"
  using assms by (auto simp: bit_simps)

lemma instant_fit_spec:
  assumes lk: "linked v F" and good: "\<And>x. x \<in> F \<Longrightarrow> good_tag v x" and sz: "0 < sz" "sz < u64_limit"
  shows "\<exists>r. instant_fit v sz = Some r \<and>
    (case r of
       None \<Rightarrow> \<forall>x \<in> F. seg_size (tag_at v x) < sz
     | Some (s, b) \<Rightarrow> s \<in> F \<and> b = s \<and> sz \<le> seg_size (tag_at v s))"
proof -
  obtain L where L: "free_lists v L" and F: "F = (\<Union>i < FREELIST_COUNT. set (L i))"
    using lk by (auto simp: linked_def)
  have goodL: "good_tag v x" if "i < FREELIST_COUNT" "x \<in> set (L i)" for i x
    using good F that by auto
  have cls: "freelist_index (seg_size (tag_at v x)) = i" if "i < FREELIST_COUNT" "x \<in> set (L i)" for i x
    using free_listsD(3) [OF L that] by (auto simp: tag_at_def)
  define g where "g = guaranteed_freelist sz"
  define cand where "cand = (if g < FREELIST_COUNT then vm_freelist_map v AND push_bit g (NOT 0) else 0)"
  have cand_bit: "bit cand i \<longleftrightarrow> L i \<noteq> [] \<and> g \<le> i" if "i < FREELIST_COUNT" for i
    using bit_candidates [of i "vm_freelist_map v" g] free_listsD(4) [OF L that] that
    by (auto simp: cand_def FREELIST_COUNT_def)
  show ?thesis
  proof (cases "cand = 0")
    case False
    let ?i = "trailing_zeros cand"
    have i: "?i < FREELIST_COUNT" "L ?i \<noteq> []" "g \<le> ?i"
      using trailing_zeros_bit [OF False] cand_bit by (auto simp: FREELIST_COUNT_def)
    obtain x xs where x: "L ?i = x # xs" using i(2) by (cases "L ?i") auto
    have "vm_freelists v ! ?i = Some x" using free_listsD(2) [OF L i(1)] x by auto
    moreover have xL: "x \<in> set (L ?i)" using x by simp
    moreover note gd = good_tagD [OF goodL [OF i(1) xL]]
    ultimately have "instant_fit v sz = Some (Some (x, x))"
      using False by (simp add: instant_fit_def Let_def vmem_link_def flip: g_def cand_def)
    moreover have "sz \<le> seg_size (tag_at v x)"
      by (rule guaranteed_fits [OF sz gd(3,5)]) (use i(3) cls [OF i(1) xL] in \<open>simp add: g_def\<close>)
    moreover have "x \<in> F" using i(1) xL F by auto
    ultimately show ?thesis by auto
  next
    case True
    let ?i = "freelist_index sz"
    have i: "?i < FREELIST_COUNT" by simp
    obtain lst where "dseg (segs v) None (vm_freelists v ! ?i) (L ?i) lst None"
      using free_listsD(2) [OF L i] by blast
    from instant_walk_chain [OF this goodL [OF i]]
    have run: "instant_fit v sz =
        Some (map_option (\<lambda>x. (x, x)) (find (\<lambda>x. sz \<le> seg_size (tag_at v x)) (L ?i)))"
      using True by (simp add: instant_fit_def Let_def flip: g_def cand_def)
    show ?thesis
    proof (cases "find (\<lambda>x. sz \<le> seg_size (tag_at v x)) (L ?i)")
      case None
      have "seg_size (tag_at v x) < sz" if xF: "x \<in> F" for x
      proof (rule ccontr)
        assume large: "\<not> seg_size (tag_at v x) < sz"
        obtain j where j: "j < FREELIST_COUNT" "x \<in> set (L j)" using xF F by auto
        note gd = good_tagD [OF goodL [OF j]]
        have "?i \<le> j" using freelist_index_mono [OF sz(1) _ gd(5)] large cls [OF j] by simp
        moreover have "j < g"
        proof -
          have "\<not> bit cand j" using True by simp
          then show ?thesis using cand_bit [OF j(1)] j(2) by auto
        qed
        ultimately have "j = ?i" using guaranteed_bound [of sz] by (simp add: g_def)
        then show False using None j(2) large by (auto simp: find_None_iff)
      qed
      then show ?thesis using run None by auto
    next
      case (Some x)
      then have "x \<in> set (L ?i)" "sz \<le> seg_size (tag_at v x)" by (auto simp: find_Some_iff)
      then show ?thesis using run Some F i by auto
    qed
  qed
qed

end
