(* ===== verification/Vmem_Correct.thy ===== *)
theory Vmem_Correct
  imports Vmem_Search
begin

text \<open>
  Correctness of the virtual-address arena \<open>Vmem\<close>: the representation invariant, that every
  operation keeps it and never panics on admissible arguments, what each operation returns on
  every branch, and the abstract arena it implements.
\<close>

definition vmem_inv :: "vmem \<Rightarrow> bool" where
  "vmem_inv v \<longleftrightarrow> core v (frees (tags v)) (tags v) \<and> geom (vm_quantum v) (tags v) \<and>
     coalesced (tags v) \<and> is_power_of_two (vm_quantum v) \<and> vm_quantum v < u64_limit \<and>
     vm_total v = wsum seg_size (tags v) \<and> vm_used v = wsum used_size (tags v) \<and>
     vm_total v < u64_limit"

lemma vmem_invD:
  assumes "vmem_inv v"
  shows "core v (frees (tags v)) (tags v)" "geom (vm_quantum v) (tags v)" "coalesced (tags v)"
    "is_power_of_two (vm_quantum v)" "vm_quantum v < u64_limit"
    "vm_total v = wsum seg_size (tags v)" "vm_used v = wsum used_size (tags v)"
    "vm_total v < u64_limit"
  using assms by (simp_all add: vmem_inv_def)

lemma vmem_invI:
  assumes "vmem_inv v" "core w (frees A) A" "counters w = (vm_quantum v, t, u)"
    and "geom (vm_quantum v) A" "coalesced A"
    and "t = wsum seg_size A" "u = wsum used_size A" "t < u64_limit"
  shows "vmem_inv w"
proof -
  have "tags w = A" using assms(2) by (simp add: core_def)
  then show ?thesis using assms by (simp add: vmem_inv_def counters_def)
qed

section \<open>Taking a range from a free segment\<close>

lemma take_tags_cuts:
  fixes A :: "nat \<Rightarrow> segment option"
  assumes a: "seg_base a = s" "seg_free a" and b: "s \<le> base" and sz: "0 < sz" "base + sz \<le> seg_end a"
  defines "B \<equiv> (if s < base then cut A s a (base - s) True False else A(s \<mapsto> a\<lparr>seg_free := False\<rparr>))"
    and "b \<equiv> (if s < base then segment_new base (seg_end a - base) (seg_span a) False
              else a\<lparr>seg_free := False\<rparr>)"
  shows "B base = Some b \<and> seg_size b = seg_end a - base \<and> seg_span b = seg_span a \<and>
    \<not> seg_free b \<and>
    take_tags A s a base sz = (if base + sz < seg_end a then cut B base b sz False True else B)"
proof -
  have e: "seg_end a = s + seg_size a" using a by (simp add: seg_end_def)
  have free: "a\<lparr>seg_size := n, seg_free := True\<rparr> = a\<lparr>seg_size := n\<rparr>" for n
    using a(2) by (cases a) simp
  have sizes: "base + sz = s + seg_size a \<Longrightarrow> s < base \<Longrightarrow> seg_size a - (base - s) = sz"
    "s \<le> base \<Longrightarrow> seg_size a - (base - s) = s + seg_size a - base" using sz e by auto
  have size_id: "s + sz = s + seg_size a \<Longrightarrow> a\<lparr>seg_size := sz, seg_free := False\<rparr> = a\<lparr>seg_free := False\<rparr>"
    by (cases a) simp
  show ?thesis
  proof (cases "s < base")
    case True
    have "base + sz < s + seg_size a \<or> base + sz = s + seg_size a" using sz e by auto
    then show ?thesis
      using True sizes
      by (auto simp: B_def b_def take_tags_def cut_def Let_def e free segment_new_def fun_eq_iff)
  next
    case False
    then have [simp]: "base = s" using b by simp
    have "s + sz < s + seg_size a \<or> s + sz = s + seg_size a" using sz e by auto
    then show ?thesis
      using size_id by (auto simp: B_def b_def take_tags_def cut_def Let_def e fun_eq_iff)
  qed
qed

lemma take_geom:
  assumes g: "geom q A" and a: "A s = Some a" "seg_free a" and b: "s \<le> base" "q dvd base"
    and sz: "0 < sz" "base + sz \<le> seg_end a" "q dvd sz"
  shows "geom q (take_tags A s a base sz)"
    and "wsum seg_size (take_tags A s a base sz) = wsum seg_size A"
    and "wsum used_size (take_tags A s a base sz) = wsum used_size A + sz"
    and "region (take_tags A s a base sz) = region A"
proof -
  note d = geomD [OF g a(1)]
  define B where "B = (if s < base then cut A s a (base - s) True False
    else A(s \<mapsto> a\<lparr>seg_free := False\<rparr>))"
  define b where "b = (if s < base then segment_new base (seg_end a - base) (seg_span a) False
    else a\<lparr>seg_free := False\<rparr>)"
  note c = take_tags_cuts [OF d(1) a(2) b(1) sz(1,2), of A, folded B_def b_def]
  have n: "s < base \<Longrightarrow> 0 < base - s \<and> base - s < seg_size a \<and> q dvd base - s"
    using b sz d by (auto intro: dvd_diff_nat)
  have gB: "geom q B" using cut_geom [OF g a(1)] flag_geom [OF g a(1)] n by (simp add: B_def)
  have m: "base + sz < seg_end a \<Longrightarrow> sz < seg_size b" using c by auto
  show "geom q (take_tags A s a base sz)"
    using c gB cut_geom [OF gB, of base b sz] sz m by simp
  have fin: "finite (dom A)" by (rule geom_finite [OF g])
  have sB: "wsum seg_size B = wsum seg_size A" "wsum used_size B = wsum used_size A + (seg_end a - base)"
    using cut_wsum [OF g a(1), of "base - s" seg_size True False] d a(2) b(1)
      cut_wsum [OF g a(1), of "base - s" used_size True False] n
      wsum_replace [OF fin a(1), of seg_size "a\<lparr>seg_free := False\<rparr>"]
      wsum_replace [OF fin a(1), of used_size "a\<lparr>seg_free := False\<rparr>"]
    by (auto simp: B_def used_size_def)
  show "wsum seg_size (take_tags A s a base sz) = wsum seg_size A"
    using cut_wsum [OF gB, of base b sz seg_size False True] c m sz sB by (auto simp: used_size_def)
  show "wsum used_size (take_tags A s a base sz) = wsum used_size A + sz"
    using cut_wsum [OF gB, of base b sz used_size False True] c m sz sB by (auto simp: used_size_def)
  have "region B = region A"
    using cut_region [OF g a(1)] flag_region [of A s a, OF a(1)] n by (simp add: B_def)
  then show "region (take_tags A s a base sz) = region A"
    using c cut_region [OF gB, of base b sz] sz m by simp
qed

lemma take_tags_at:
  assumes "seg_base a = s" "s \<le> base" "0 < sz" "base + sz \<le> seg_end a"
  shows "take_tags A s a base sz j =
    (if j = base then Some (if s < base then segment_new base sz (seg_span a) False
                            else a\<lparr>seg_size := sz, seg_free := False\<rparr>)
     else if j = base + sz \<and> base + sz < seg_end a
       then Some (segment_new (base + sz) (seg_end a - base - sz) (seg_span a) True)
     else if j = s then Some (a\<lparr>seg_size := base - s\<rparr>) else A j)"
  using assms by (auto simp: take_tags_def Let_def)

lemma take_frees:
  assumes "A s = Some a" "seg_base a = s" "seg_free a" "s \<le> base" "0 < sz" "base + sz \<le> seg_end a"
    and "s < base \<Longrightarrow> A base = None"
  shows "frees (take_tags A s a base sz) = take_free (frees A) s a base sz"
  using assms
  by (auto simp: frees_def take_free_def take_tags_at [OF assms(2,4,5,6)] split: if_splits)

lemma take_coalesced:
  assumes g: "geom q A" and co: "coalesced A" and a: "A s = Some a" "seg_free a"
    and b: "s \<le> base" and sz: "0 < sz" "base + sz \<le> seg_end a"
  shows "coalesced (take_tags A s a base sz)"
  unfolding coalesced_def
proof (intro allI impI notI)
  note d = geomD [OF g a(1)]
  note at = take_tags_at [OF d(1) b sz, of A]
  fix k x y
  assume x: "take_tags A s a base sz k = Some x" and y: "take_tags A s a base sz (k + seg_size x) = Some y"
    and sp: "seg_span x = seg_span y" and fr: "seg_free x" "seg_free y"
  have kb: "k \<noteq> base" "k + seg_size x \<noteq> base" using x y fr by (auto simp: at split: if_splits)
  show False
  proof (cases "A k = Some x \<and> k \<noteq> s")
    case True
    have "k + seg_size x \<le> s \<or> seg_end a \<le> k"
      using True geom_disjoint [OF g, of k x s a] geom_disjoint [OF g a(1), of k x] a(1) d(7)
      by (cases k s rule: linorder_cases) auto
    then have "\<exists>z. A (k + seg_size x) = Some z \<and> seg_span z = seg_span y \<and> seg_free z"
      using y kb a fr sz b geomD(2) [OF g, of k x] True by (auto simp: at split: if_splits)
    then show False using coalescedD [OF co, of k x] True sp fr by auto
  next
    case False
    have "k \<noteq> s"
    proof
      assume [simp]: "k = s"
      then have "k + seg_size x = base" using x kb b sz by (auto simp: at split: if_splits)
      then show False using kb by simp
    qed
    then have "k = base + sz" "x = segment_new (base + sz) (seg_end a - base - sz) (seg_span a) True"
      using False x kb by (auto simp: at split: if_splits)
    then have "k + seg_size x = s + seg_size a" "seg_span x = seg_span a"
      using d(7) sz by auto
    moreover from this have "A (s + seg_size a) = Some y"
      using y kb d b sz by (auto simp: at split: if_splits)
    ultimately show False using coalescedD [OF co a(1), of y] a(2) sp fr by auto
  qed
qed

lemma in_allocs: "(k, n) \<in> allocs A \<longleftrightarrow> (\<exists>a. A k = Some a \<and> \<not> seg_free a \<and> seg_size a = n)"
  by (auto simp: allocs_def)

lemma take_allocs:
  assumes "A s = Some a" "seg_base a = s" "seg_free a" "s \<le> base" "0 < sz" "base + sz \<le> seg_end a"
    and new: "s < base \<Longrightarrow> A base = None" "base + sz < seg_end a \<Longrightarrow> A (base + sz) = None"
  shows "allocs (take_tags A s a base sz) = insert (base, sz) (allocs A)"
proof (rule set_eqI)
  fix p :: "nat \<times> nat"
  obtain k n where p: "p = (k, n)" by (cases p)
  have "\<And>x. A base = Some x \<Longrightarrow> seg_free x" using new(1) assms(1,3,4) by (cases "s < base") auto
  moreover have "base + sz < seg_end a \<Longrightarrow> (base + sz, n) \<notin> allocs A" using new(2) by (simp add: in_allocs)
  ultimately show "p \<in> allocs (take_tags A s a base sz) \<longleftrightarrow> p \<in> insert (base, sz) (allocs A)"
    using assms(1,3) unfolding p
    by (auto simp: in_allocs take_tags_at [OF assms(2,4,5,6), of A])
qed

section \<open>Returning a range\<close>

lemma next_tag:
  assumes c: "core v F A" and g: "geom q A" and a: "A base = Some a"
  shows "iter_next (index_range (vm_segments v) (Excluded base) Unbounded) = Some (nx, n) \<and>
      seg_base n = base + seg_size a \<longleftrightarrow> nx = base + seg_size a \<and> segs v nx = Some n"
    (is "?L \<longleftrightarrow> ?R")
proof
  have inv: "index_inv (vm_segments v)" and A: "tags v = A" using c by (auto simp: core_def)
  have dom: "segs v k = Some t \<Longrightarrow> A k = Some (strip t)" for k t using A by (auto simp: tags_def)
  {
    assume L: ?L
    then have n: "segs v nx = Some n" using index_next_Some [OF inv] by blast
    then have "seg_base n = nx" using geomD(1) [OF g dom] by fastforce
    then show ?R using L n by simp
  next
    assume R: ?R
    then have "seg_base n = nx" using geomD(1) [OF g dom] by fastforce
    moreover have "nx \<le> l" if "l \<in> dom (segs v)" "base < l" for l
      using that dom geom_disjoint [OF g a] R by fastforce
    ultimately show ?L using R index_next_Some [OF inv] geomD(2) [OF g a] by auto
  }
qed

lemma previous_tag:
  assumes c: "core v F A" and g: "geom q A" and a: "A base = Some a"
  shows "iter_next_back (index_range (vm_segments v) Unbounded (Excluded base)) = Some (pr, p) \<and>
      seg_end p = base \<longleftrightarrow> pr + seg_size p = base \<and> segs v pr = Some p"
    (is "?L \<longleftrightarrow> ?R")
proof
  have inv: "index_inv (vm_segments v)" and A: "tags v = A" using c by (auto simp: core_def)
  have dom: "segs v k = Some t \<Longrightarrow> A k = Some (strip t)" for k t using A by (auto simp: tags_def)
  {
    assume L: ?L
    then have n: "segs v pr = Some p" using index_next_back_Some [OF inv] by blast
    then have "seg_base p = pr" using geomD(1) [OF g dom] by fastforce
    then show ?R using L n by (simp add: seg_end_def)
  next
    assume R: ?R
    then have p: "A pr = Some (strip p)" using dom by simp
    have "l \<le> pr" if "l \<in> dom (segs v)" "l < base" for l
    proof (rule ccontr)
      assume "\<not> l \<le> pr"
      then have "base \<le> l" using that dom geom_disjoint [OF g p] R by fastforce
      then show False using that by simp
    qed
    then show ?L using R index_next_back_Some [OF inv] geomD(1,2) [OF g p] by (auto simp: seg_end_def)
  }
qed

text \<open>
  Both steps of \<^const>\<open>vmem_free\<close> relate a map of tags to a map of tags: the first joins the
  next segment, the second the previous one or flips the state of the segment.
\<close>

definition right_done :: "(nat \<Rightarrow> segment option) \<Rightarrow> nat \<Rightarrow> segment \<Rightarrow> bool" where
  "right_done A base a \<longleftrightarrow> (\<forall>b. A (base + seg_size a) = Some b \<longrightarrow> seg_span b = seg_span a \<longrightarrow>
     \<not> seg_free b)"

lemma join_allocs:
  assumes "A k = Some a" "A (k + seg_size a) = Some b" "\<not> seg_free a" "seg_free b" "0 < seg_size a"
  shows "allocs (join A k a b) = insert (k, seg_size a + seg_size b) (allocs A - {(k, seg_size a)})"
proof (rule set_eqI)
  fix p :: "nat \<times> nat"
  show "p \<in> allocs (join A k a b) \<longleftrightarrow>
      p \<in> insert (k, seg_size a + seg_size b) (allocs A - {(k, seg_size a)})"
    using assms by (cases p) (auto simp: in_allocs join_def split: if_splits)
qed

lemma free_join_next:
  assumes c: "core v (frees A) A" and g: "geom q A" and co: "coalesced A"
    and a: "A base = Some a" "\<not> seg_free a"
    and n: "A (base + seg_size a) = Some n" "seg_free n" "seg_span n = seg_span a"
  shows "\<exists>w. do {
      v \<leftarrow> pop_free v (base + seg_size a);
      t \<leftarrow> vmem_tag v base;
      n \<leftarrow> vmem_tag v (base + seg_size a);
      v \<leftarrow> tag_set v base (\<lambda>t. t\<lparr>seg_size := seg_size t + seg_size n\<rparr>);
      Some (seg_remove v (base + seg_size a)) } = Some w \<and>
    core w (frees (join A base a n)) (join A base a n) \<and> counters w = counters v \<and>
    coalesced (join A base a n) \<and> right_done (join A base a n) base (a\<lparr>seg_size := seg_size a + seg_size n\<rparr>)"
proof -
  let ?l = "base + seg_size a" and ?B = "join A base a n"
  note d = geomD [OF g a(1)]
  have lF: "?l \<in> frees A" and bF: "base \<notin> frees A" using n a by (auto simp: frees_def)
  obtain v1 where v1: "pop_free v ?l = Some v1" "core v1 (frees A - {?l}) A" "counters v1 = counters v"
    using core_pop [OF c lF] by blast
  obtain tn where tn: "segs v1 ?l = Some tn" "strip tn = n" using core_get [OF v1(2) n(1)] by blast
  obtain t where t: "segs v1 base = Some t" using core_get [OF v1(2) a(1)] by blast
  have sz: "seg_size tn = seg_size n" using tn(2) by auto
  have "\<exists>v2. tag_set v1 base (\<lambda>t. t\<lparr>seg_size := seg_size t + seg_size n\<rparr>) = Some v2 \<and>
      core v2 (frees A - {?l}) (A(base \<mapsto> a\<lparr>seg_size := seg_size a + seg_size n\<rparr>)) \<and> counters v2 = counters v1"
    by (rule core_set [OF v1(2) a(1)]) (use bF in \<open>auto simp: strip_def\<close>)
  then obtain v2 where v2: "tag_set v1 base (\<lambda>t. t\<lparr>seg_size := seg_size t + seg_size n\<rparr>) = Some v2"
    "core v2 (frees A - {?l}) (A(base \<mapsto> a\<lparr>seg_size := seg_size a + seg_size n\<rparr>))"
    "counters v2 = counters v" using v1(3) by auto
  have B: "(A(base \<mapsto> a\<lparr>seg_size := seg_size a + seg_size n\<rparr>))(?l := None) = ?B"
    using d(2) by (auto simp: join_def fun_eq_iff)
  have F: "frees A - {?l} = frees ?B" using a n d(2) by (auto simp: frees_def join_def split: if_splits)
  have "core (seg_remove v2 ?l) (frees ?B) ?B \<and> counters (seg_remove v2 ?l) = counters v"
    using core_remove [OF v2(2), of ?l] unfolding B F [symmetric] v2(3) by simp
  moreover have "coalesced ?B"
    unfolding coalesced_def
  proof (intro allI impI notI)
    fix k x y
    assume x: "?B k = Some x" and y: "?B (k + seg_size x) = Some y" and sp: "seg_span x = seg_span y"
      and fr: "seg_free x" "seg_free y"
    then have "k \<noteq> base" "k + seg_size x \<noteq> base" using a by (auto simp: join_def split: if_splits)
    then have "A k = Some x" "A (k + seg_size x) = Some y"
      using x y by (auto simp: join_def split: if_splits)
    then show False using coalescedD [OF co] sp fr by blast
  qed
  moreover have "right_done ?B base (a\<lparr>seg_size := seg_size a + seg_size n\<rparr>)"
    unfolding right_done_def
  proof (intro allI impI notI)
    fix b
    assume "?B (base + seg_size (a\<lparr>seg_size := seg_size a + seg_size n\<rparr>)) = Some b"
      and sp: "seg_span b = seg_span (a\<lparr>seg_size := seg_size a + seg_size n\<rparr>)" and "seg_free b"
    moreover from this have "A (?l + seg_size n) = Some b"
      using d(2) geomD(2) [OF g n(1)] by (auto simp: join_def add.assoc split: if_splits)
    ultimately show False using coalescedD [OF co n(1)] n by auto
  qed
  ultimately show ?thesis
    using v1(1) t tn(1) v2(1) sz by (auto simp: vmem_tag_def)
qed

lemma free_join_previous:
  assumes c: "core v (frees A) A" and g: "geom q A" and co: "coalesced A"
    and a: "A base = Some a" "\<not> seg_free a" and rd: "right_done A base a"
    and p: "A pr = Some p" "pr + seg_size p = base" "seg_free p" "seg_span p = seg_span a"
  shows "\<exists>w. do {
      v \<leftarrow> pop_free v pr;
      t \<leftarrow> vmem_tag v base;
      v \<leftarrow> tag_set v pr (\<lambda>p. p\<lparr>seg_size := seg_size p + seg_size t\<rparr>);
      Some (pr, seg_remove v base) } = Some (pr, w) \<and>
    core w (frees (join A pr p a) - {pr}) (join A pr p a) \<and> counters w = counters v \<and>
    coalesced (join A pr p a)"
proof -
  let ?B = "join A pr p a"
  note d = geomD [OF g a(1)] and dp = geomD [OF g p(1)]
  have pF: "pr \<in> frees A" and bF: "base \<notin> frees A" using p a by (auto simp: frees_def)
  obtain v1 where v1: "pop_free v pr = Some v1" "core v1 (frees A - {pr}) A" "counters v1 = counters v"
    using core_pop [OF c pF] by blast
  obtain t where t: "segs v1 base = Some t" "strip t = a" using core_get [OF v1(2) a(1)] by blast
  have sz: "seg_size t = seg_size a" using t(2) by auto
  have "\<exists>v2. tag_set v1 pr (\<lambda>p. p\<lparr>seg_size := seg_size p + seg_size a\<rparr>) = Some v2 \<and>
      core v2 (frees A - {pr}) (A(pr \<mapsto> p\<lparr>seg_size := seg_size p + seg_size a\<rparr>)) \<and> counters v2 = counters v1"
    by (rule core_set [OF v1(2) p(1)]) (auto simp: strip_def)
  then obtain v2 where v2: "tag_set v1 pr (\<lambda>p. p\<lparr>seg_size := seg_size p + seg_size a\<rparr>) = Some v2"
    "core v2 (frees A - {pr}) (A(pr \<mapsto> p\<lparr>seg_size := seg_size p + seg_size a\<rparr>))"
    "counters v2 = counters v" using v1(3) by auto
  have B: "(A(pr \<mapsto> p\<lparr>seg_size := seg_size p + seg_size a\<rparr>))(base := None) = ?B"
    using dp(2) p(2) by (auto simp: join_def fun_eq_iff)
  have F: "frees A - {pr} = frees ?B - {pr}"
    using a p(2) by (auto simp: frees_def join_def split: if_splits)
  have "core (seg_remove v2 base) (frees ?B - {pr}) ?B \<and> counters (seg_remove v2 base) = counters v"
    using core_remove [OF v2(2), of base] bF unfolding B F [symmetric] v2(3) by simp
  moreover have "coalesced ?B"
    unfolding coalesced_def
  proof (intro allI impI notI)
    fix k x y
    assume x: "?B k = Some x" and y: "?B (k + seg_size x) = Some y" and sp: "seg_span x = seg_span y"
      and fr: "seg_free x" "seg_free y"
    show False
    proof (cases "k = pr")
      case True
      then have "A (base + seg_size a) = Some y" "seg_span y = seg_span a"
        using x y p d(2) dp(2) sp by (auto simp: join_def add.assoc [symmetric] split: if_splits)
      then show False using rd fr by (simp add: right_done_def)
    next
      case False
      then have k: "A k = Some x" using x by (auto simp: join_def split: if_splits)
      have "\<exists>z. A (k + seg_size x) = Some z \<and> seg_span z = seg_span y \<and> seg_free z = seg_free y"
        using y p by (auto simp: join_def split: if_splits)
      then show False using coalescedD [OF co k] sp fr by auto
    qed
  qed
  ultimately show ?thesis
    using v1(1) t v2(1) sz by (auto simp: vmem_tag_def)
qed

definition joined_next :: "vmem \<Rightarrow> nat \<Rightarrow> segment \<Rightarrow> vmem panics" where
  "joined_next v base tag =
     (case iter_next (index_range (vm_segments v) (Excluded base) Unbounded) of
        Some (nxt, n) \<Rightarrow>
          if seg_free n \<and> seg_span n = seg_span tag \<and> seg_base n = seg_end tag then do {
            v \<leftarrow> pop_free v nxt;
            t \<leftarrow> vmem_tag v base;
            n \<leftarrow> vmem_tag v nxt;
            v \<leftarrow> tag_set v base (\<lambda>t. t\<lparr>seg_size := seg_size t + seg_size n\<rparr>);
            Some (seg_remove v nxt)
          } else Some v
      | None \<Rightarrow> Some v)"

definition joined_previous :: "vmem \<Rightarrow> nat \<Rightarrow> nat \<Rightarrow> (nat \<times> vmem) panics" where
  "joined_previous v base span =
     (case iter_next_back (index_range (vm_segments v) Unbounded (Excluded base)) of
        Some (previous, p) \<Rightarrow>
          if seg_free p \<and> seg_span p = span \<and> seg_end p = base then do {
            v \<leftarrow> pop_free v previous;
            t \<leftarrow> vmem_tag v base;
            v \<leftarrow> tag_set v previous (\<lambda>p. p\<lparr>seg_size := seg_size p + seg_size t\<rparr>);
            Some (previous, seg_remove v base)
          } else do {
            v \<leftarrow> tag_set v base (\<lambda>t. t\<lparr>seg_free := True\<rparr>);
            Some (base, v)
          }
      | None \<Rightarrow> do {
          v \<leftarrow> tag_set v base (\<lambda>t. t\<lparr>seg_free := True\<rparr>);
          Some (base, v)
        })"

lemma vmem_free_steps:
  "vmem_free v base = do {
     tag \<leftarrow> vmem_tag v base;
     assert_that (\<not> seg_free tag);
     v \<leftarrow> joined_next v base tag;
     (free, v) \<leftarrow> joined_previous v base (seg_span tag);
     v \<leftarrow> push_free v free;
     Some (seg_size tag, v\<lparr>vm_used := vm_used v - seg_size tag\<rparr>)
   }"
  by (simp add: vmem_free_def joined_next_def joined_previous_def Let_def)

lemma joined_next_core:
  assumes c: "core v (frees A) A" and g: "geom q A" and co: "coalesced A"
    and a: "A base = Some a" "\<not> seg_free a" and tag: "segs v base = Some tag"
  shows "\<exists>w B b. joined_next v base tag = Some w \<and> counters w = counters v \<and>
    core w (frees B) B \<and> geom q B \<and> coalesced B \<and> B base = Some b \<and> \<not> seg_free b \<and>
    seg_span b = seg_span a \<and> right_done B base b \<and> region B = region A \<and>
    wsum seg_size B = wsum seg_size A \<and> wsum used_size B + seg_size a = wsum used_size A + seg_size b \<and>
    allocs B - {(base, seg_size b)} = allocs A - {(base, seg_size a)}"
proof -
  note d = geomD [OF g a(1)]
  have strip: "strip tag = a" using c a(1) tag by (auto simp: core_def tags_def)
  then have tag': "seg_end tag = base + seg_size a" "seg_span tag = seg_span a"
    using d(7) by auto
  let ?l = "base + seg_size a"
  show ?thesis
  proof (cases "\<exists>n. A ?l = Some n \<and> seg_free n \<and> seg_span n = seg_span a")
    case True
    then obtain n where n: "A ?l = Some n" "seg_free n" "seg_span n = seg_span a" by blast
    obtain t where t: "segs v ?l = Some t" "strip t = n" using core_get [OF c n(1)] by blast
    have t': "seg_free t" "seg_span t = seg_span a" using t(2) n by auto
    have nx: "iter_next (index_range (vm_segments v) (Excluded base) Unbounded) = Some (?l, t)"
      "seg_base t = ?l"
      using next_tag [OF c g a(1), of ?l t] t(1) by auto
    obtain w where w: "joined_next v base tag = Some w"
      "core w (frees (join A base a n)) (join A base a n)" "counters w = counters v"
      "coalesced (join A base a n)"
      "right_done (join A base a n) base (a\<lparr>seg_size := seg_size a + seg_size n\<rparr>)"
      using free_join_next [OF c g co a n] nx t' by (auto simp: joined_next_def tag')
    note sums = join_wsum [OF geom_finite [OF g] a(1) n(1) d(2)]
    have "wsum seg_size (join A base a n) = wsum seg_size A"
      "wsum used_size (join A base a n) + seg_size a = wsum used_size A + (seg_size a + seg_size n)"
      using sums [of seg_size] sums [of used_size] a n by (simp_all add: used_size_def)
    moreover have "allocs (join A base a n) - {(base, seg_size a + seg_size n)} = allocs A - {(base, seg_size a)}"
      unfolding join_allocs [of A, OF a(1) n(1) a(2) n(2) d(2)]
      using a by (auto simp: in_allocs)
    ultimately show ?thesis
      using w join_geom [OF g a(1) n(1,3)] join_region [of A, OF a(1) n(1,3)] a
      by (intro exI [of _ w] exI [of _ "join A base a n"]
          exI [of _ "a\<lparr>seg_size := seg_size a + seg_size n\<rparr>"]) (auto simp: join_def)
  next
    case False
    have "joined_next v base tag = Some v"
    proof -
      have "\<not> (seg_free n \<and> seg_span n = seg_span a \<and> seg_base n = ?l)"
        if "iter_next (index_range (vm_segments v) (Excluded base) Unbounded) = Some (nx, n)" for nx n
      proof
        assume n: "seg_free n \<and> seg_span n = seg_span a \<and> seg_base n = ?l"
        then have "nx = ?l" "segs v nx = Some n" using next_tag [OF c g a(1), of nx n] that by auto
        then have "A ?l = Some (strip n)" using c by (auto simp: core_def tags_def)
        then show False using False n by auto
      qed
      then show ?thesis by (auto simp: joined_next_def tag' split: option.split)
    qed
    moreover have "right_done A base a" using False by (auto simp: right_done_def)
    ultimately show ?thesis using c g co a by blast
  qed
qed

lemma flag_allocs:
  "A k = Some a \<Longrightarrow> \<not> seg_free a \<Longrightarrow> allocs (A(k \<mapsto> a\<lparr>seg_free := True\<rparr>)) = allocs A - {(k, seg_size a)}"
  by (rule set_eqI) (auto simp: in_allocs split: if_splits)

lemma joined_previous_core:
  assumes c: "core v (frees A) A" and g: "geom q A" and co: "coalesced A"
    and a: "A base = Some a" "\<not> seg_free a" and rd: "right_done A base a"
  shows "\<exists>w B b k. joined_previous v base (seg_span a) = Some (k, w) \<and> counters w = counters v \<and>
    core w (frees B - {k}) B \<and> geom q B \<and> coalesced B \<and> B k = Some b \<and> seg_free b \<and>
    region B = region A \<and> wsum seg_size B = wsum seg_size A \<and>
    wsum used_size B + seg_size a = wsum used_size A \<and>
    allocs B = allocs A - {(base, seg_size a)}"
proof (cases "\<exists>pr p. A pr = Some p \<and> pr + seg_size p = base \<and> seg_free p \<and> seg_span p = seg_span a")
  case True
  then obtain pr p where p: "A pr = Some p" "pr + seg_size p = base" "seg_free p" "seg_span p = seg_span a"
    by blast
  note d = geomD [OF g a(1)] and dp = geomD [OF g p(1)]
  have a': "A (pr + seg_size p) = Some a" using a(1) p(2) by simp
  obtain t where t: "segs v pr = Some t" "strip t = p" using core_get [OF c p(1)] by blast
  have t': "seg_free t" "seg_span t = seg_span a" "seg_size t = seg_size p" using t(2) p by auto
  have "iter_next_back (index_range (vm_segments v) Unbounded (Excluded base)) = Some (pr, t)"
    "seg_end t = base"
    using previous_tag [OF c g a(1), of pr t] t(1) t'(3) p(2) by auto
  then obtain w where w: "joined_previous v base (seg_span a) = Some (pr, w)"
    "core w (frees (join A pr p a) - {pr}) (join A pr p a)" "counters w = counters v"
    "coalesced (join A pr p a)"
    using free_join_previous [OF c g co a rd p] t' by (auto simp: joined_previous_def)
  note sums = join_wsum [OF geom_finite [OF g] p(1) a' dp(2)]
  have "wsum seg_size (join A pr p a) = wsum seg_size A"
    "wsum used_size (join A pr p a) + seg_size a = wsum used_size A"
    using sums [of seg_size] sums [of used_size] a p by (simp_all add: used_size_def)
  moreover have "allocs (join A pr p a) = allocs A - {(base, seg_size a)}"
  proof (rule set_eqI)
    fix x :: "nat \<times> nat"
    show "x \<in> allocs (join A pr p a) \<longleftrightarrow> x \<in> allocs A - {(base, seg_size a)}"
      using p a by (cases x) (auto simp: in_allocs join_def)
  qed
  moreover have "geom q (join A pr p a)" using join_geom [OF g p(1) a'] p(4) by simp
  moreover have "region (join A pr p a) = region A" using join_region [of A, OF p(1) a'] p(4) by simp
  ultimately show ?thesis using w p(3)
    by (intro exI [of _ w] exI [of _ "join A pr p a"]
        exI [of _ "p\<lparr>seg_size := seg_size p + seg_size a\<rparr>"] exI [of _ pr]) (auto simp: join_def)
next
  case False
  let ?B = "A(base \<mapsto> a\<lparr>seg_free := True\<rparr>)"
  have bF: "base \<notin> frees A" using a by (auto simp: frees_def)
  have none: "\<not> (seg_free p \<and> seg_span p = seg_span a \<and> seg_end p = base)"
    if "iter_next_back (index_range (vm_segments v) Unbounded (Excluded base)) = Some (pr, p)" for pr p
  proof
    assume p: "seg_free p \<and> seg_span p = seg_span a \<and> seg_end p = base"
    then have "pr + seg_size p = base" "segs v pr = Some p"
      using previous_tag [OF c g a(1), of pr p] that by auto
    then have "A pr = Some (strip p)" using c by (auto simp: core_def tags_def)
    then have "\<exists>pr p. A pr = Some p \<and> pr + seg_size p = base \<and> seg_free p \<and> seg_span p = seg_span a"
      using p \<open>pr + seg_size p = base\<close> by (intro exI [of _ pr] exI [of _ "strip p"]) simp
    then show False using False by blast
  qed
  have "\<exists>w. tag_set v base (\<lambda>t. t\<lparr>seg_free := True\<rparr>) = Some w \<and> core w (frees A) ?B \<and>
      counters w = counters v"
    by (rule core_set [OF c a(1) bF]) (simp add: strip_def)
  then obtain w where w: "tag_set v base (\<lambda>t. t\<lparr>seg_free := True\<rparr>) = Some w" "core w (frees A) ?B"
    "counters w = counters v" by blast
  have run: "joined_previous v base (seg_span a) = Some (base, w)"
    using none w(1) by (auto simp: joined_previous_def split: option.split)
  have F: "frees ?B - {base} = frees A" using bF by (auto simp: frees_def split: if_splits)
  have "coalesced ?B"
    unfolding coalesced_def
  proof (intro allI impI notI)
    fix k x y
    assume x: "?B k = Some x" and y: "?B (k + seg_size x) = Some y" and sp: "seg_span x = seg_span y"
      and fr: "seg_free x" "seg_free y"
    consider "k = base" | "k \<noteq> base" "k + seg_size x = base" | "A k = Some x" "A (k + seg_size x) = Some y"
      using x y by (auto split: if_splits)
    then show False
    proof cases
      case 1
      then show False using x y sp fr rd geomD(2) [OF g a(1)]
        by (auto simp: right_done_def split: if_splits)
    next
      case 2
      then show False using x y sp fr False by (auto split: if_splits)
    next
      case 3
      then show False using coalescedD [OF co] sp fr by blast
    qed
  qed
  then show ?thesis
    using run w F flag_geom [OF g a(1)] flag_region [of A base a, OF a(1)] flag_allocs [of A base a, OF a]
      wsum_replace [OF geom_finite [OF g] a(1), of seg_size "a\<lparr>seg_free := True\<rparr>"]
      wsum_replace [OF geom_finite [OF g] a(1), of used_size "a\<lparr>seg_free := True\<rparr>"] a
    by (intro exI [of _ w] exI [of _ ?B] exI [of _ "a\<lparr>seg_free := True\<rparr>"] exI [of _ base])
      (auto simp: used_size_def)
qed

lemma vmem_free_inv:
  assumes inv: "vmem_inv v" and a: "tags v base = Some a" "\<not> seg_free a"
  shows "\<exists>w. vmem_free v base = Some (seg_size a, w) \<and> vmem_inv w \<and>
    counters w = (vm_quantum v, vm_total v, vm_used v - seg_size a) \<and>
    allocs (tags w) = allocs (tags v) - {(base, seg_size a)} \<and> region (tags w) = region (tags v)"
proof -
  let ?A = "tags v" and ?q = "vm_quantum v"
  have c: "core v (frees ?A) ?A" and g: "geom ?q ?A" and co: "coalesced ?A"
    using inv by (auto simp: vmem_inv_def)
  obtain tag where tag: "segs v base = Some tag" "strip tag = a" using core_get [OF c a(1)] by blast
  have tag': "\<not> seg_free tag" "seg_size tag = seg_size a" "seg_span tag = seg_span a"
    using tag(2) a(2) by auto
  obtain v1 B b where v1: "joined_next v base tag = Some v1" "counters v1 = counters v"
    and B: "core v1 (frees B) B" "geom ?q B" "coalesced B" "B base = Some b" "\<not> seg_free b"
      "seg_span b = seg_span a" "right_done B base b" "region B = region ?A"
      "wsum seg_size B = wsum seg_size ?A"
      "wsum used_size B + seg_size a = wsum used_size ?A + seg_size b"
      "allocs B - {(base, seg_size b)} = allocs ?A - {(base, seg_size a)}"
    using joined_next_core [OF c g co a tag(1)] by blast
  obtain v2 C x k where v2: "joined_previous v1 base (seg_span a) = Some (k, v2)" "counters v2 = counters v1"
    and C: "core v2 (frees C - {k}) C" "geom ?q C" "coalesced C" "C k = Some x" "seg_free x"
      "region C = region B" "wsum seg_size C = wsum seg_size B"
      "wsum used_size C + seg_size b = wsum used_size B" "allocs C = allocs B - {(base, seg_size b)}"
    using joined_previous_core [OF B(1-5,7), unfolded B(6)] by blast
  have "insert k (frees C - {k}) = frees C" using C(4,5) by (auto simp: frees_def)
  then obtain v3 where v3: "push_free v2 k = Some v3" "core v3 (frees C) C" "counters v3 = counters v2"
    using core_push [OF C(1,4)] by auto
  let ?w = "v3\<lparr>vm_used := vm_used v3 - seg_size a\<rparr>"
  have cw: "core ?w (frees C) C" by (rule core_used [OF v3(2)])
  then have tw: "tags ?w = C" by (simp add: core_def)
  have cnt: "counters ?w = (?q, vm_total v, vm_used v - seg_size a)"
    using v3(3) v2(2) v1(2) by (simp add: counters_def)
  have "wsum used_size C + seg_size a = wsum used_size ?A" using B(10) C(8) by simp
  then have "vmem_inv ?w" by (intro vmem_invI [OF inv cw cnt C(2,3)])
      (use vmem_invD [OF inv] in \<open>simp_all add: C(7) B(9)\<close>)
  moreover have "vmem_free v base = Some (seg_size a, ?w)"
    using tag(1) tag' v1 v2 v3 by (simp add: vmem_free_steps vmem_tag_def)
  ultimately show ?thesis using cnt C(6,9) B(8,11) tw by simp
qed

end
