(* ===== verification/Vmem_Ops.thy ===== *)
theory Vmem_Ops
  imports Vmem_Correct
begin

text \<open>
  The operations of the virtual-address arena on every branch, errors included, the abstract
  arena they implement, and runs of operations from an empty arena.
\<close>

section \<open>Sizes\<close>

lemma round_size_Inr:
  assumes "vmem_inv v" "round_size v sz = Inr n"
  shows "sz \<le> n" "n < sz + vm_quantum v" "vm_quantum v dvd n" "0 < n" "n < u64_limit" "0 < sz"
proof -
  let ?q = "vm_quantum v"
  note q = vmem_invD(4,5) [OF assms(1)]
  from assms(2) have sz: "0 < sz" "sz + (?q - 1) < u64_limit" and n: "n = mask_down (sz + (?q - 1)) ?q"
    by (auto simp: round_size_def split: if_splits option.splits)
  have n': "n = sz + (?q - 1) - (sz + (?q - 1)) mod ?q" unfolding n by (rule mask_down_eq [OF q sz(2)])
  show "sz \<le> n" "n < sz + ?q"
    unfolding n' using round_up_bounds [OF power_of_two_pos [OF q(1)]] by auto
  then show "0 < n" "0 < sz" using sz(1) by auto
  show "?q dvd n" unfolding n by (rule mask_down_dvd [OF q sz(2)])
  show "n < u64_limit" unfolding n' using sz(2) by linarith
qed

lemma round_size_Inl:
  "round_size v sz = Inl e \<Longrightarrow> e = Invalid \<and> (sz = 0 \<or> u64_limit \<le> sz + (vm_quantum v - 1))"
  by (auto simp: round_size_def split: if_splits option.splits)

section \<open>Taking\<close>

definition allocated :: "vmem \<Rightarrow> nat \<Rightarrow> nat \<Rightarrow> vmem \<Rightarrow> bool" where
  "allocated v b n w \<longleftrightarrow> vmem_inv w \<and> counters w = (vm_quantum v, vm_total v, vm_used v + n) \<and>
     allocs (tags w) = insert (b, n) (allocs (tags v)) \<and> region (tags w) = region (tags v)"

definition free_range :: "vmem \<Rightarrow> nat \<Rightarrow> nat \<Rightarrow> bool" where
  "free_range v b n \<longleftrightarrow> (\<exists>k a. tags v k = Some a \<and> seg_free a \<and> k \<le> b \<and> b + n \<le> k + seg_size a)"

lemma vmem_take_inv:
  assumes inv: "vmem_inv v" and a: "tags v s = Some a" "seg_free a" and b: "s \<le> base" "vm_quantum v dvd base"
    and sz: "0 < sz" "vm_quantum v dvd sz" "base + sz \<le> seg_end a"
    and r: "res_base r = base" "res_size r = sz" "base \<noteq> s \<Longrightarrow> res_start r = Some base"
      "base + sz \<noteq> seg_end a \<Longrightarrow> res_end r = Some (base + sz)"
  shows "\<exists>w. vmem_take v s r = Some w \<and> allocated v base sz w"
proof -
  let ?A = "tags v" and ?q = "vm_quantum v"
  note I = vmem_invD [OF inv]
  note d = geomD [OF I(2) a(1)]
  have new: "base \<noteq> s \<Longrightarrow> ?A base = None"
    by (rule geom_inside [OF I(2) a(1)]) (use b sz d in auto)
  have new2: "base + sz \<noteq> seg_end a \<Longrightarrow> ?A (base + sz) = None"
    by (rule geom_inside [OF I(2) a(1)]) (use b sz d in auto)
  have sF: "s \<in> frees ?A" using a by (auto simp: frees_def)
  obtain w where w: "vmem_take v s r = Some w"
    "core w (take_free (frees ?A) s a base sz) (take_tags ?A s a base sz)"
    "counters w = (?q, vm_total v, vm_used v + sz)"
    using vmem_take_core [OF I(1) sF a(1) d(1) b(1) sz(1,3)] new new2 r by blast
  let ?B = "take_tags ?A s a base sz"
  have B: "tags w = ?B" using w(2) by (simp add: core_def)
  note tg = take_geom [OF I(2) a b sz(1,3,2)]
  have "core w (frees ?B) ?B"
    using w(2) take_frees [of ?A, OF a(1) d(1) a(2) b(1) sz(1,3)] new by auto
  then have "vmem_inv w"
    by (rule vmem_invI [OF inv _ w(3) tg(1)])
      (use take_coalesced [OF I(2,3) a b(1) sz(1,3)] tg(2,3) I(6-8) in simp_all)
  moreover have "allocs ?B = insert (base, sz) (allocs ?A)"
    by (rule take_allocs [of ?A, OF a(1) d(1) a(2) b(1) sz(1,3)]) (use new new2 in auto)
  ultimately show ?thesis using w(1,3) tg(4) B by (auto simp: allocated_def)
qed

lemma take_at_outcome:
  assumes inv: "vmem_inv v" and a: "tags v s = Some a" "seg_free a" and b: "s \<le> base" "vm_quantum v dvd base"
    and sz: "0 < sz" "vm_quantum v dvd sz" "base + sz \<le> seg_end a"
  shows "(\<exists>w. take_at pool v s base sz = Some (Inr base, w) \<and> allocated v base sz w) \<or>
    take_at pool v s base sz = Some (Inl NoMemory, v) \<and> (\<exists>k. \<not> pool k)"
proof -
  obtain tag where tag: "segs v s = Some tag" "strip tag = a"
    using core_get [OF vmem_invD(1) [OF inv] a(1)] by blast
  then have e: "seg_end tag = seg_end a" by auto
  define st where "st = (if base \<noteq> s then Some base else None)"
  define en where "en = (if base + sz \<noteq> seg_end a then Some (base + sz) else None)"
  let ?r = "\<lparr>res_base = base, res_size = sz, res_start = st, res_end = en\<rparr>"
  consider (fail) "base \<noteq> s \<and> \<not> pool base \<or> base + sz \<noteq> seg_end a \<and> \<not> pool (base + sz)"
    | (ok) "prepare_take pool v s base sz = Some (Inr ?r)"
  proof -
    have "prepare_take pool v s base sz = Some (Inr ?r)"
      if "base \<noteq> s \<longrightarrow> pool base" "base + sz \<noteq> seg_end a \<longrightarrow> pool (base + sz)"
      using tag(1) e that
      by (auto simp: prepare_take_def vmem_tag_def reserve_tag_def index_reserve_new_def st_def en_def)
    then show thesis using fail ok by blast
  qed
  then show ?thesis
  proof cases
    case fail
    then have "prepare_take pool v s base sz = Some (Inl NoMemory)"
      using tag(1) e
      by (auto simp: prepare_take_def vmem_tag_def reserve_tag_def index_reserve_new_def)
    then show ?thesis using fail by (auto simp: take_at_def)
  next
    case ok
    have "\<exists>w. vmem_take v s ?r = Some w \<and> allocated v base sz w"
      by (rule vmem_take_inv [OF inv a b sz]) (simp_all add: st_def en_def)
    then show ?thesis using ok by (auto simp: take_at_def)
  qed
qed

section \<open>Free ranges, abstractly\<close>

text \<open>A range is unallocated when one span covers it and no allocated range meets it.\<close>

definition unallocated :: "vmem \<Rightarrow> nat \<Rightarrow> nat \<Rightarrow> bool" where
  "unallocated v b n \<longleftrightarrow> (\<exists>sp. {b..<b + n} \<subseteq> region (tags v) sp) \<and>
     (\<forall>(k, m) \<in> allocs (tags v). {b..<b + n} \<inter> {k..<k + m} = {})"

lemma free_range_unallocated:
  assumes inv: "vmem_inv v" and n: "0 < n"
  shows "free_range v b n \<longleftrightarrow> unallocated v b n"
proof
  note g = vmem_invD(2) [OF inv]
  {
    assume "free_range v b n"
    then obtain k a where k: "tags v k = Some a" "seg_free a" "k \<le> b" "b + n \<le> k + seg_size a"
      by (auto simp: free_range_def)
    have "{b..<b + n} \<subseteq> region (tags v) (seg_span a)"
      using regionI [of "tags v", OF k(1)] k by auto
    moreover have "{b..<b + n} \<inter> {l..<l + m} = {}" if lm: "(l, m) \<in> allocs (tags v)" for l m
    proof (rule ccontr)
      assume "{b..<b + n} \<inter> {l..<l + m} \<noteq> {}"
      then obtain x where "x \<in> {b..<b + n} \<inter> {l..<l + m}" by blast
      then have x: "b \<le> x" "x < b + n" "l \<le> x" "x < l + m" by auto
      obtain c where c: "tags v l = Some c" "\<not> seg_free c" "seg_size c = m" using lm by (auto simp: in_allocs)
      have "k = l" by (rule geom_unique [OF g k(1) c(1), of x]) (use k x c in auto)
      then show False using k c by simp
    qed
    ultimately show "unallocated v b n" by (auto simp: unallocated_def)
  next
    assume U: "unallocated v b n"
    then obtain sp where sp: "{b..<b + n} \<subseteq> region (tags v) sp" by (auto simp: unallocated_def)
    have covered: "\<exists>k a. tags v k = Some a \<and> seg_free a \<and> seg_span a = sp \<and> k \<le> x \<and> x < k + seg_size a"
      if x: "b \<le> x" "x < b + n" for x
    proof -
      obtain k a where k: "tags v k = Some a" "seg_span a = sp" "k \<le> x" "x < k + seg_size a"
        using sp x by (auto simp: region_def)
      have "seg_free a"
      proof (rule ccontr)
        assume "\<not> seg_free a"
        then have "(k, seg_size a) \<in> allocs (tags v)" using k by (auto simp: in_allocs)
        then show False using U k x by (auto simp: unallocated_def disjoint_iff)
      qed
      with k show ?thesis by blast
    qed
    obtain k a where k: "tags v k = Some a" "seg_free a" "seg_span a = sp" "k \<le> b" "b < k + seg_size a"
      using covered [of b] n by auto
    have "b + n \<le> k + seg_size a"
    proof (rule ccontr)
      assume "\<not> b + n \<le> k + seg_size a"
      then obtain l c where l: "tags v l = Some c" "seg_free c" "seg_span c = sp" "l \<le> k + seg_size a"
        "k + seg_size a < l + seg_size c"
        using covered [of "k + seg_size a"] k by auto
      then have "l = k + seg_size a"
        using geom_disjoint [OF g l(1) k(1)] geom_disjoint [OF g k(1) l(1)] geomD(2) [OF g k(1)]
          k(1) l(1) by (cases l k rule: linorder_cases) auto
      then show False using coalescedD [OF vmem_invD(3) [OF inv] k(1)] l k by auto
    qed
    then show "free_range v b n" using k by (auto simp: free_range_def)
  }
qed

lemma unallocatedD:
  "vmem_inv v \<Longrightarrow> 0 < n \<Longrightarrow> unallocated v b n \<Longrightarrow>
    \<exists>k a. tags v k = Some a \<and> seg_free a \<and> k \<le> b \<and> b + n \<le> k + seg_size a"
  by (simp add: free_range_unallocated [symmetric] free_range_def)

section \<open>Searching under the invariant\<close>

lemma inv_good_tag:
  assumes "vmem_inv v" "tags v x = Some a"
  shows "good_tag v x" "strip (tag_at v x) = a"
proof -
  obtain t where t: "segs v x = Some t" "strip t = a"
    using core_get [OF vmem_invD(1) [OF assms(1)] assms(2)] by blast
  note d = geomD [OF vmem_invD(2) [OF assms(1)] assms(2)]
  show "strip (tag_at v x) = a" using t by (simp add: tag_at_def)
  have "seg_base t = x" "seg_size t = seg_size a" using t d(1) by auto
  then show "good_tag v x" using t d by (auto simp: good_tag_def seg_end_def)
qed

lemma inv_linked: "vmem_inv v \<Longrightarrow> linked v (frees (tags v))"
  using vmem_invD(1) by (auto simp: core_def)

lemma inv_frees_good: "vmem_inv v \<Longrightarrow> x \<in> frees (tags v) \<Longrightarrow> good_tag v x"
  using inv_good_tag by (auto simp: frees_def)

lemma fits_at_strip: "fits_at (strip t) sz al mn mx b = fits_at t sz al mn mx b"
  by (simp add: fits_at_def)

definition can_place :: "vmem \<Rightarrow> nat \<Rightarrow> nat \<Rightarrow> nat \<Rightarrow> nat \<Rightarrow> nat \<Rightarrow> bool" where
  "can_place v n al mn mx b \<longleftrightarrow> al dvd b \<and> mn \<le> b \<and> b + n \<le> mx \<and> unallocated v b n"

lemma can_place_tag:
  assumes "vmem_inv v" "can_place v n al mn mx b" "0 < n"
  shows "\<exists>k \<in> frees (tags v). fits_at (tag_at v k) n al mn mx b"
proof -
  obtain k a where k: "tags v k = Some a" "seg_free a" "k \<le> b" "b + n \<le> k + seg_size a"
    using assms(2) unallocatedD [OF assms(1,3)] unfolding can_place_def by blast
  note d = geomD [OF vmem_invD(2) [OF assms(1)] k(1)]
  have "fits_at a n al mn mx b" using assms(2) k d by (simp add: can_place_def fits_at_def)
  then have "fits_at (tag_at v k) n al mn mx b"
    unfolding inv_good_tag(2) [OF assms(1) k(1), symmetric] by (simp only: fits_at_strip)
  then show ?thesis using k by (auto simp: frees_def)
qed

lemma scan_fit_inv:
  assumes inv: "vmem_inv v" and n: "0 < n" "n < u64_limit" and al: "is_power_of_two al" "al < u64_limit"
  shows "(scan_fit v n al mn mx best = Some None \<and> (\<forall>b. \<not> can_place v n al mn mx b)) \<or>
    (\<exists>s a b. scan_fit v n al mn mx best = Some (Some (s, b)) \<and> tags v s = Some a \<and> seg_free a \<and>
       s \<le> b \<and> al dvd b \<and> mn \<le> b \<and> b + n \<le> mx \<and> b + n \<le> seg_end a \<and>
       (best \<longrightarrow> (\<forall>k c. tags v k = Some c \<longrightarrow> seg_free c \<longrightarrow> (\<exists>b. fits_at c n al mn mx b) \<longrightarrow>
          seg_size a \<le> seg_size c)))"
proof -
  have pl: "place v n al mn mx k \<noteq> None" if "good_tag v k" "fits_at (tag_at v k) n al mn mx b" for k b
    using placement_least [OF al good_tagD(4) [OF that(1)] that(2)] by (auto simp: place_def)
  obtain r where r: "scan_fit v n al mn mx best = Some r" and spec: "case r of
       None \<Rightarrow> \<forall>x \<in> frees (tags v). place v n al mn mx x = None
     | Some (s, b) \<Rightarrow> s \<in> frees (tags v) \<and> place v n al mn mx s = Some b \<and>
         (best \<longrightarrow> (\<forall>x \<in> frees (tags v). place v n al mn mx x \<noteq> None \<longrightarrow>
            seg_size (tag_at v s) \<le> seg_size (tag_at v x)))"
    using scan_fit_spec [OF inv_linked [OF inv] inv_frees_good [OF inv] n al] by blast
  show ?thesis
  proof (cases r)
    case None
    then have "\<forall>b. \<not> can_place v n al mn mx b"
      using spec can_place_tag [OF inv _ n(1)] pl inv_frees_good [OF inv] by fastforce
    then show ?thesis using r None by simp
  next
    case (Some p)
    obtain s b where p: "p = (s, b)" by (cases p)
    then have s: "s \<in> frees (tags v)" "place v n al mn mx s = Some b"
      and least: "best \<longrightarrow> (\<forall>x \<in> frees (tags v). place v n al mn mx x \<noteq> None \<longrightarrow>
            seg_size (tag_at v s) \<le> seg_size (tag_at v x))"
      using spec Some by auto
    obtain a where a: "tags v s = Some a" "seg_free a" using s(1) by (auto simp: frees_def)
    note ta = inv_good_tag [OF inv a(1)]
    have f: "fits_at a n al mn mx b"
      using placement_fits [OF al] s(2) ta(2) fits_at_strip [of "tag_at v s"]
      by (auto simp: place_def)
    have "seg_size a \<le> seg_size c"
      if "best" "tags v k = Some c" "seg_free c" "fits_at c n al mn mx b'" for k c b'
    proof -
      note tc = inv_good_tag [OF inv that(2)]
      have "place v n al mn mx k \<noteq> None"
        using pl [OF tc(1)] that(4) tc(2) fits_at_strip [of "tag_at v k"] by auto
      moreover have "k \<in> frees (tags v)" using that by (auto simp: frees_def)
      ultimately have "seg_size (tag_at v s) \<le> seg_size (tag_at v k)" using least that(1) by auto
      then show ?thesis using ta(2) tc(2) by auto
    qed
    then show ?thesis
      using r Some p a f geomD(1) [OF vmem_invD(2) [OF inv] a(1)] by (auto simp: fits_at_def)
  qed
qed

lemma instant_fit_inv:
  assumes inv: "vmem_inv v" and n: "0 < n" "n < u64_limit"
  shows "(instant_fit v n = Some None \<and> (\<forall>b. \<not> unallocated v b n)) \<or>
    (\<exists>s a. instant_fit v n = Some (Some (s, s)) \<and> tags v s = Some a \<and> seg_free a \<and>
       vm_quantum v dvd s \<and> s + n \<le> seg_end a)"
proof -
  obtain r where r: "instant_fit v n = Some r" and spec: "case r of
       None \<Rightarrow> \<forall>x \<in> frees (tags v). seg_size (tag_at v x) < n
     | Some (s, b) \<Rightarrow> s \<in> frees (tags v) \<and> b = s \<and> n \<le> seg_size (tag_at v s)"
    using instant_fit_spec [OF inv_linked [OF inv] inv_frees_good [OF inv] n] by blast
  show ?thesis
  proof (cases r)
    case None
    have "\<not> unallocated v b n" for b
    proof
      assume "unallocated v b n"
      then obtain k a where k: "tags v k = Some a" "seg_free a" "k \<le> b" "b + n \<le> k + seg_size a"
        using unallocatedD [OF inv n(1)] by blast
      then have "k \<in> frees (tags v)" by (auto simp: frees_def)
      then have "seg_size (tag_at v k) < n" using spec None by simp
      then show False using inv_good_tag(2) [OF inv k(1)] k by auto
    qed
    then show ?thesis using r None by simp
  next
    case (Some p)
    then obtain s where p: "p = (s, s)" "s \<in> frees (tags v)" "n \<le> seg_size (tag_at v s)"
      using spec by (cases p) auto
    obtain a where a: "tags v s = Some a" "seg_free a" using p(2) by (auto simp: frees_def)
    note d = geomD [OF vmem_invD(2) [OF inv] a(1)]
    have "n \<le> seg_size a" using p(3) inv_good_tag(2) [OF inv a(1)] by auto
    then show ?thesis using r Some p a d by auto
  qed
qed

lemma free_segment_containing_spec:
  assumes inv: "vmem_inv v"
  shows "free_segment_containing v x = Some k \<longleftrightarrow>
    (\<exists>a. tags v k = Some a \<and> seg_free a \<and> k \<le> x \<and> x < k + seg_size a)" (is "?L \<longleftrightarrow> ?R")
proof
  note g = vmem_invD(2) [OF inv]
  have ix: "index_inv (vm_segments v)" using vmem_invD(1) [OF inv] by (simp add: core_def)
  let ?it = "iter_next_back (index_range (vm_segments v) Unbounded (Included x))"
  {
    assume ?L
    then obtain t where t: "?it = Some (k, t)" "seg_free t" "x < seg_end t"
      by (auto simp: free_segment_containing_def split: option.splits if_splits)
    then have "segs v k = Some t" "k \<le> x" using index_next_back_Some [OF ix] by auto
    moreover from this have "tags v k = Some (strip t)" by (simp add: tags_def)
    moreover note geomD(7) [OF g this]
    ultimately show ?R using t by auto
  next
    assume ?R
    then obtain a where a: "tags v k = Some a" "seg_free a" "k \<le> x" "x < k + seg_size a" by blast
    obtain t where t: "segs v k = Some t" "strip t = a"
      using core_get [OF vmem_invD(1) [OF inv] a(1)] by blast
    have "l \<le> k" if "l \<in> dom (segs v)" "l \<le> x" for l
    proof (rule ccontr)
      assume "\<not> l \<le> k"
      then have "k < l" "l < k + seg_size a" using that a by auto
      then have "tags v l = None" by (rule geom_inside [OF g a(1)])
      then show False using that by (auto simp: tags_def)
    qed
    then have "?it = Some (k, t)" using index_next_back_Some [OF ix] t(1) a(3) by auto
    moreover have "seg_free t" "seg_end t = k + seg_size a"
      using t(2) a(2) geomD(7) [OF g a(1)] by auto
    ultimately show ?L using a by (simp add: free_segment_containing_def)
  }
qed

section \<open>The operations\<close>

lemma max_quantum:
  assumes "vmem_inv v" "is_power_of_two al" "al < u64_limit"
  shows "is_power_of_two (max al (vm_quantum v))" "max al (vm_quantum v) < u64_limit"
    "vm_quantum v dvd max al (vm_quantum v)"
  using vmem_invD(4,5) [OF assms(1)] assms(2,3) power_of_two_dvd [of "vm_quantum v" al]
  by (auto simp: max_def)

text \<open>The four ways an allocation ends; every failure leaves the arena as it was.\<close>

definition alloc_outcome ::
  "vmem \<Rightarrow> (nat \<Rightarrow> bool) \<Rightarrow> nat \<Rightarrow> nat \<Rightarrow> nat \<Rightarrow> nat \<Rightarrow> bool \<Rightarrow> ((vmem_error + nat) \<times> vmem) panics \<Rightarrow> bool" where
  "alloc_outcome v pool sz al mn mx bad res \<longleftrightarrow>
     (case res of
        None \<Rightarrow> False
      | Some (Inr b, w) \<Rightarrow> \<not> bad \<and> (\<exists>n. round_size v sz = Inr n \<and> allocated v b n w \<and>
          can_place v n (max al (vm_quantum v)) mn mx b)
      | Some (Inl NoSpace, w) \<Rightarrow> w = v \<and> \<not> bad \<and> (\<exists>n. round_size v sz = Inr n \<and>
          (\<forall>b. \<not> can_place v n (max al (vm_quantum v)) mn mx b))
      | Some (Inl NoMemory, w) \<Rightarrow> w = v \<and> (\<exists>k. \<not> pool k)
      | Some (Inl Invalid, w) \<Rightarrow> w = v \<and> (bad \<or> (\<forall>n. round_size v sz \<noteq> Inr n)))"

lemma take_at_alloc:
  assumes inv: "vmem_inv v" and a: "tags v s = Some a" "seg_free a" and b: "s \<le> b" "b + n \<le> seg_end a"
    and n: "round_size v sz = Inr n" and al: "is_power_of_two al" "al < u64_limit"
    and place: "max al (vm_quantum v) dvd b" "mn \<le> b" "b + n \<le> mx"
  shows "alloc_outcome v pool sz al mn mx False (take_at pool v s b n)"
proof -
  note r = round_size_Inr [OF inv n]
  have "vm_quantum v dvd b" using max_quantum(3) [OF inv al] place(1) by (rule dvd_trans)
  from take_at_outcome [OF inv a b(1) this r(4,3) b(2), of pool] show ?thesis
  proof
    assume "\<exists>w. take_at pool v s b n = Some (Inr b, w) \<and> allocated v b n w"
    moreover have "free_range v b n"
      using a b geomD(7) [OF vmem_invD(2) [OF inv] a(1)] by (auto simp: free_range_def)
    ultimately show ?thesis
      using n place free_range_unallocated [OF inv r(4)] by (auto simp: alloc_outcome_def can_place_def)
  next
    assume "take_at pool v s b n = Some (Inl NoMemory, v) \<and> (\<exists>k. \<not> pool k)"
    then show ?thesis by (auto simp: alloc_outcome_def)
  qed
qed

lemma unallocated_bound:
  assumes "vmem_inv v" "0 < n" "unallocated v b n"
  shows "b + n \<le> U64_MAX"
proof -
  obtain k a where "tags v k = Some a" "b + n \<le> k + seg_size a"
    using unallocatedD [OF assms] by blast
  then show ?thesis using geomD(3) [OF vmem_invD(2) [OF assms(1)]] by (force simp: U64_MAX_def)
qed

lemma xalloc_outcome:
  assumes inv: "vmem_inv v" and al: "al < u64_limit"
  shows "alloc_outcome v pool sz al mn mx (\<not> is_power_of_two al \<or> mx \<le> mn)
    (xalloc pool v sz al mn mx fit)"
proof (cases "round_size v sz")
  case (Inl e)
  then show ?thesis using round_size_Inl [OF Inl] by (auto simp: xalloc_def alloc_outcome_def)
next
  case (Inr n)
  note r = round_size_Inr [OF inv Inr]
  let ?al = "max al (vm_quantum v)"
  show ?thesis
  proof (cases "is_power_of_two al \<and> mn < mx")
    case False
    then show ?thesis using Inr by (auto simp: xalloc_def alloc_outcome_def)
  next
    case True
    then have p: "is_power_of_two al" and m: "\<not> mx \<le> mn" "al \<noteq> 0"
      using power_of_two_pos by auto
    note mq = max_quantum [OF inv p al]
    define quick where "quick \<longleftrightarrow> mn = 0 \<and> mx = U64_MAX \<and> ?al = vm_quantum v \<and> fit = Instant"
    have run: "xalloc pool v sz al mn mx fit = Option.bind
        (if quick then instant_fit v n else scan_fit v n ?al mn mx (fit = Best))
        (\<lambda>found. case found of None \<Rightarrow> Some (Inl NoSpace, v)
           | Some (segment, base) \<Rightarrow> take_at pool v segment base n)"
      using Inr p m by (simp add: xalloc_def Let_def quick_def)
    consider (none) "xalloc pool v sz al mn mx fit = Some (Inl NoSpace, v)"
        "\<forall>b. \<not> can_place v n ?al mn mx b"
      | (some) s a b where "xalloc pool v sz al mn mx fit = take_at pool v s b n" "tags v s = Some a"
        "seg_free a" "s \<le> b" "b + n \<le> seg_end a" "?al dvd b" "mn \<le> b" "b + n \<le> mx"
    proof (cases quick)
      case True
      from instant_fit_inv [OF inv r(4,5)] show ?thesis
      proof
        assume "instant_fit v n = Some None \<and> (\<forall>b. \<not> unallocated v b n)"
        then show ?thesis using run True none by (simp add: can_place_def)
      next
        assume "\<exists>s a. instant_fit v n = Some (Some (s, s)) \<and> tags v s = Some a \<and> seg_free a \<and>
          vm_quantum v dvd s \<and> s + n \<le> seg_end a"
        then obtain s a where s: "instant_fit v n = Some (Some (s, s))" "tags v s = Some a" "seg_free a"
          "vm_quantum v dvd s" "s + n \<le> seg_end a" by blast
        moreover have "s + n \<le> U64_MAX"
          using s(5) geomD(3,7) [OF vmem_invD(2) [OF inv] s(2)] by (simp add: U64_MAX_def)
        moreover have "xalloc pool v sz al mn mx fit = take_at pool v s s n" using run True s by simp
        ultimately show ?thesis using True by (intro some) (auto simp: quick_def)
      qed
    next
      case False
      from scan_fit_inv [OF inv r(4,5) mq(1,2), where mn = mn and mx = mx and best = "fit = Best"]
      show ?thesis
      proof (elim disjE exE conjE)
        assume "scan_fit v n ?al mn mx (fit = Best) = Some None" "\<forall>b. \<not> can_place v n ?al mn mx b"
        then show ?thesis using run False none by simp
      next
        fix s a b
        assume "scan_fit v n ?al mn mx (fit = Best) = Some (Some (s, b))" "tags v s = Some a"
          "seg_free a" "s \<le> b" "?al dvd b" "mn \<le> b" "b + n \<le> mx" "b + n \<le> seg_end a"
        then show ?thesis using run False by (intro some) auto
      qed
    qed
    then show ?thesis
    proof cases
      case none
      then show ?thesis using Inr p m by (auto simp: alloc_outcome_def)
    next
      case (some s a b)
      have "alloc_outcome v pool sz al mn mx False (take_at pool v s b n)"
        by (rule take_at_alloc [OF inv some(2-5) Inr p al some(6-8)])
      then show ?thesis using some(1) p m by simp
    qed
  qed
qed

lemma alloc_random_outcome:
  assumes inv: "vmem_inv v" and al: "al < u64_limit"
  shows "alloc_outcome v pool sz al 0 U64_MAX (\<not> is_power_of_two al)
    (alloc_random pool v sz al entropy)"
proof (cases "round_size v sz")
  case (Inl e)
  then show ?thesis using round_size_Inl [OF Inl] by (auto simp: alloc_random_def alloc_outcome_def)
next
  case (Inr n)
  note r = round_size_Inr [OF inv Inr] and g = vmem_invD(2) [OF inv]
  let ?al = "max al (vm_quantum v)"
  show ?thesis
  proof (cases "is_power_of_two al")
    case False
    then show ?thesis using Inr by (auto simp: alloc_random_def alloc_outcome_def)
  next
    case p: True
    then have al0: "al \<noteq> 0" using power_of_two_pos by auto
    note mq = max_quantum [OF inv p al]
    let ?base = "\<lambda>t start. start + (entropy mod ((seg_end t - start - n) div ?al + 1)) * ?al"
    have run: "alloc_random pool v sz al entropy = Option.bind
        (if ?al = vm_quantum v then instant_fit v n else scan_fit v n ?al 0 U64_MAX False)
        (\<lambda>found. case found of None \<Rightarrow> Some (Inl NoSpace, v)
           | Some (segment, start) \<Rightarrow> Option.bind (vmem_tag v segment)
               (\<lambda>tag. take_at pool v segment (?base tag start) n))"
      unfolding alloc_random_def Let_def Inr sum.case using p al0 by (simp only: simp_thms if_False)
    have place: "alloc_outcome v pool sz al 0 U64_MAX False (take_at pool v s (?base (tag_at v s) b) n)"
      if s: "tags v s = Some a" "seg_free a" "s \<le> b" "b + n \<le> seg_end a" "?al dvd b" for s a b
    proof -
      have e: "seg_end (tag_at v s) = seg_end a" using inv_good_tag(2) [OF inv s(1)] by auto
      let ?slack = "seg_end a - b - n"
      have "entropy mod (?slack div ?al + 1) \<le> ?slack div ?al"
        using mod_less_divisor [of "?slack div ?al + 1" entropy] by linarith
      then have "(entropy mod (?slack div ?al + 1)) * ?al \<le> ?slack div ?al * ?al" by (rule mult_le_mono1)
      also have "\<dots> \<le> ?slack" by simp
      finally have top: "?base (tag_at v s) b + n \<le> seg_end a" using s(4) by (simp add: e)
      moreover have "seg_end a \<le> U64_MAX" using geomD(3,7) [OF g s(1)] by (simp add: U64_MAX_def)
      ultimately show ?thesis
        using s by (intro take_at_alloc [OF inv s(1,2) _ top Inr p al]) auto
    qed
    have tag: "vmem_tag v s = Some (tag_at v s)" if "tags v s = Some a" for s a
      using good_tagD(1) [OF inv_good_tag(1) [OF inv that]] by (simp add: vmem_tag_def)
    have nospace: "alloc_outcome v pool sz al 0 U64_MAX False (Some (Inl NoSpace, v))"
      if "\<forall>b. \<not> can_place v n ?al 0 U64_MAX b"
      using that Inr by (auto simp: alloc_outcome_def)
    show ?thesis
    proof (cases "?al = vm_quantum v")
      case True
      from instant_fit_inv [OF inv r(4,5)] show ?thesis
      proof (elim disjE exE conjE)
        assume "instant_fit v n = Some None" "\<forall>b. \<not> unallocated v b n"
        then show ?thesis using run True nospace p by (simp add: can_place_def)
      next
        fix s a
        assume s: "instant_fit v n = Some (Some (s, s))" "tags v s = Some a" "seg_free a"
          "vm_quantum v dvd s" "s + n \<le> seg_end a"
        then have "alloc_random pool v sz al entropy = take_at pool v s (?base (tag_at v s) s) n"
          unfolding run using True tag [OF s(2)] by simp
        then show ?thesis using place [OF s(2,3) order_refl s(5)] s(4) True p by simp
      qed
    next
      case False
      from scan_fit_inv [OF inv r(4,5) mq(1,2), where mn = 0 and mx = U64_MAX and best = False]
      show ?thesis
      proof (elim disjE exE conjE)
        assume "scan_fit v n ?al 0 U64_MAX False = Some None" "\<forall>b. \<not> can_place v n ?al 0 U64_MAX b"
        then have "alloc_random pool v sz al entropy = Some (Inl NoSpace, v)"
          unfolding run using False by (cases "al = vm_quantum v") simp_all
        then show ?thesis using nospace \<open>\<forall>b. \<not> can_place v n ?al 0 U64_MAX b\<close> p by simp
      next
        fix s a b
        assume s: "scan_fit v n ?al 0 U64_MAX False = Some (Some (s, b))" "tags v s = Some a"
          "seg_free a" "s \<le> b" "?al dvd b" "b + n \<le> seg_end a"
        then have "alloc_random pool v sz al entropy = take_at pool v s (?base (tag_at v s) b) n"
          unfolding run using False tag [OF s(2)] by (cases "al = vm_quantum v") simp_all
        then show ?thesis using place [OF s(2,3,4,6,5)] p by simp
      qed
    qed
  qed
qed

lemma fixed_size_Inr:
  assumes "fixed_size v base sz = Inr n"
  shows "round_size v sz = Inr n" "vm_quantum v dvd base" "base + n < u64_limit"
  using assms by (auto simp: fixed_size_def dvd_eq_mod_eq_0 split: sum.splits if_splits)

lemma fixed_size_Inl:
  assumes "fixed_size v base sz = Inl e" shows "e = Invalid"
  using assms round_size_Inl by (auto simp: fixed_size_def split: sum.splits if_splits)

lemma free_segment_covering:
  assumes inv: "vmem_inv v" and n: "0 < n" and k: "free_segment_containing v b = Some k"
  shows "\<exists>a. tags v k = Some a \<and> seg_free a \<and> k \<le> b \<and> vmem_tag v k = Some (tag_at v k) \<and>
    seg_end (tag_at v k) = seg_end a \<and> (b + n \<le> seg_end a \<longleftrightarrow> unallocated v b n)"
proof -
  note g = vmem_invD(2) [OF inv]
  obtain a where a: "tags v k = Some a" "seg_free a" "k \<le> b" "b < k + seg_size a"
    using k free_segment_containing_spec [OF inv] by blast
  note ta = inv_good_tag [OF inv a(1)]
  have "b + n \<le> seg_end a \<longleftrightarrow> unallocated v b n"
  proof
    assume "b + n \<le> seg_end a"
    then have "free_range v b n" using a geomD(7) [OF g a(1)] by (auto simp: free_range_def)
    then show "unallocated v b n" using free_range_unallocated [OF inv n] by simp
  next
    assume "unallocated v b n"
    then obtain l c where l: "tags v l = Some c" "l \<le> b" "b + n \<le> l + seg_size c"
      using unallocatedD [OF inv n] by blast
    have "k = l" by (rule geom_unique [OF g a(1) l(1), of b]) (use a l n in auto)
    then show "b + n \<le> seg_end a" using l a geomD(7) [OF g a(1)] by simp
  qed
  then show ?thesis using a ta good_tagD(1) [OF ta(1)] by (auto simp: vmem_tag_def)
qed

lemma no_free_segment:
  assumes inv: "vmem_inv v" and n: "0 < n" and k: "free_segment_containing v b = None"
  shows "\<not> unallocated v b n"
proof
  assume "unallocated v b n"
  then obtain l c where "tags v l = Some c" "seg_free c" "l \<le> b" "b + n \<le> l + seg_size c"
    using unallocatedD [OF inv n] by blast
  then have "free_segment_containing v b = Some l" using free_segment_containing_spec [OF inv] n by auto
  with k show False by simp
qed

lemma alloc_fixed_outcome:
  assumes inv: "vmem_inv v"
  shows "case alloc_fixed pool v base sz of
      None \<Rightarrow> False
    | Some (Inr _, w) \<Rightarrow> \<exists>n. fixed_size v base sz = Inr n \<and> unallocated v base n \<and> allocated v base n w
    | Some (Inl NoSpace, w) \<Rightarrow> w = v \<and> (\<exists>n. fixed_size v base sz = Inr n \<and> \<not> unallocated v base n)
    | Some (Inl NoMemory, w) \<Rightarrow> w = v \<and> (\<exists>k. \<not> pool k)
    | Some (Inl Invalid, w) \<Rightarrow> w = v \<and> fixed_size v base sz = Inl Invalid"
proof (cases "fixed_size v base sz")
  case (Inl e)
  then show ?thesis using fixed_size_Inl [OF Inl] by (simp add: alloc_fixed_def)
next
  case (Inr n)
  note f = fixed_size_Inr [OF Inr]
  note r = round_size_Inr [OF inv f(1)]
  show ?thesis
  proof (cases "free_segment_containing v base")
    case None
    then show ?thesis using Inr no_free_segment [OF inv r(4) None] by (simp add: alloc_fixed_def)
  next
    case (Some k)
    obtain a where a: "tags v k = Some a" "seg_free a" "k \<le> base" "vmem_tag v k = Some (tag_at v k)"
      "seg_end (tag_at v k) = seg_end a" "base + n \<le> seg_end a \<longleftrightarrow> unallocated v base n"
      using free_segment_covering [OF inv r(4) Some] by blast
    show ?thesis
    proof (cases "base + n \<le> seg_end a")
      case True
      from take_at_outcome [OF inv a(1-3) f(2) r(4,3) True, of pool] show ?thesis
        using Inr Some a True by (auto simp: alloc_fixed_def)
    next
      case False
      then show ?thesis using Inr Some a by (simp add: alloc_fixed_def)
    qed
  qed
qed

section \<open>Spans\<close>

lemma vmem_new_inv:
  assumes "is_power_of_two q" "q < u64_limit"
  shows "\<exists>v. vmem_new q = Some v \<and> vmem_inv v \<and> counters v = (q, 0, 0) \<and>
    allocs (tags v) = {} \<and> region (tags v) = (\<lambda>_. {})"
proof -
  let ?v = "\<lparr>vm_segments = index_new, vm_freelists = replicate FREELIST_COUNT None,
    vm_freelist_map = 0, vm_quantum = q, vm_total = 0, vm_used = 0\<rparr>"
  have t: "tags ?v = Map.empty" by (simp add: tags_def)
  have "free_lists ?v (\<lambda>_. [])" by (simp add: free_lists_def)
  then have "linked ?v {}" by (auto intro: linkedI)
  then have "vmem_inv ?v"
    using assms by (simp add: vmem_inv_def core_def t frees_def geom_def coalesced_def wsum_def)
  then show ?thesis
    using assms t by (auto simp: vmem_new_def counters_def allocs_def region_def)
qed

lemma geom_add_span:
  assumes g: "geom q A" and b: "q dvd base" "q dvd sz" "0 < sz" "base + sz < u64_limit"
    and apart: "\<And>k a. A k = Some a \<Longrightarrow> k + seg_size a \<le> base \<or> base + sz \<le> k"
  shows "geom q (A(base \<mapsto> segment_new base sz base True))"
proof -
  let ?B = "A(base \<mapsto> segment_new base sz base True)"
  have new: "A base = None" using apart [of base] b(3) geomD(2) [OF g, of base] by (cases "A base") auto
  show ?thesis
    unfolding geom_def
  proof (intro conjI allI impI)
    show "finite (dom ?B)" using g by (simp add: geom_def)
  next
    fix k a
    assume k: "?B k = Some a"
    show "seg_base a = k" "0 < seg_size a" "k + seg_size a < u64_limit" "q dvd k" "q dvd seg_size a"
      "seg_span a \<le> k"
      using k b geomD [OF g, of k a] by (auto split: if_splits)
    assume sp: "seg_span a \<noteq> k"
    then have "A k = Some a" using k by (auto split: if_splits)
    from geom_span [OF g this sp] show "\<exists>j c. ?B j = Some c \<and> j + seg_size c = k \<and> seg_span c = seg_span a"
      using new by (metis fun_upd_other option.distinct(1))
  next
    fix k l a c
    assume "?B k = Some a" "?B l = Some c" "k < l"
    then show "k + seg_size a \<le> l"
      using geom_disjoint [OF g, of k a l c] apart [of k a] apart [of l c] geomD(2) [OF g, of l c]
      by (auto split: if_splits)
  qed
qed

lemma span_root:
  assumes g: "geom q A" and a: "A k = Some a"
  shows "\<exists>r. A (seg_span a) = Some r \<and> seg_span r = seg_span a"
  using a
proof (induction k arbitrary: a rule: less_induct)
  case (less k)
  show ?case
  proof (cases "seg_span a = k")
    case True
    then show ?thesis using less.prems by auto
  next
    case False
    then obtain j b where b: "A j = Some b" "j + seg_size b = k" "seg_span b = seg_span a"
      using geom_span [OF g less.prems] by blast
    then have "j < k" using geomD(2) [OF g b(1)] by auto
    from less.IH [OF this b(1)] b(3) show ?thesis by simp
  qed
qed

lemma coalesced_add_span:
  assumes g: "geom q A" and co: "coalesced A" and sz: "0 < sz" and new: "A base = None"
  shows "coalesced (A(base \<mapsto> segment_new base sz base True))"
  unfolding coalesced_def
proof (intro allI impI notI)
  let ?B = "A(base \<mapsto> segment_new base sz base True)"
  fix k x y
  assume x: "?B k = Some x" and y: "?B (k + seg_size x) = Some y" and sp: "seg_span x = seg_span y"
    and fr: "seg_free x" "seg_free y"
  have old: "seg_span a \<noteq> base" if "A j = Some a" for j a using span_root [OF g that] new by auto
  consider "k = base" | "k \<noteq> base" "k + seg_size x = base" | "A k = Some x" "A (k + seg_size x) = Some y"
    using x y by (auto split: if_splits)
  then show False
  proof cases
    case 1
    then show False using x y sp sz old [of "base + sz" y] by (auto split: if_splits)
  next
    case 2
    then show False using x y sp old [of k x] by (auto split: if_splits)
  next
    case 3
    then show False using coalescedD [OF co] sp fr by blast
  qed
qed

lemma add_span_overlap:
  assumes inv: "vmem_inv v" and sz: "0 < sz"
  shows "(case iter_next_back (index_range (vm_segments v) Unbounded (Excluded (base + sz))) of
      None \<Rightarrow> False | Some (_, tag) \<Rightarrow> base < seg_end tag) \<longleftrightarrow>
    (\<exists>k a. tags v k = Some a \<and> k < base + sz \<and> base < k + seg_size a)" (is "?L \<longleftrightarrow> ?R")
proof
  note g = vmem_invD(2) [OF inv]
  have ix: "index_inv (vm_segments v)" using vmem_invD(1) [OF inv] by (simp add: core_def)
  have tag: "tags v k = Some (strip t)" "seg_end t = k + seg_size t" if "segs v k = Some t" for k t
    using that geomD(7) [OF g, of k "strip t"] by (simp_all add: tags_def)
  let ?it = "iter_next_back (index_range (vm_segments v) Unbounded (Excluded (base + sz)))"
  {
    assume ?L
    then obtain k t where t: "?it = Some (k, t)" "base < seg_end t" by (auto split: option.splits)
    then have "segs v k = Some t" "k < base + sz" using index_next_back_Some [OF ix] by auto
    then show ?R using t tag [of k t] by (intro exI [of _ k] exI [of _ "strip t"]) auto
  next
    assume ?R
    then obtain k a where k: "tags v k = Some a" "k < base + sz" "base < k + seg_size a" by blast
    then have kd: "k \<in> dom (segs v)" by (auto simp: tags_def)
    show ?L
    proof (cases ?it)
      case None
      then show ?thesis using index_next_back_None [OF ix] kd k by auto
    next
      case (Some p)
      obtain l t where p: "p = (l, t)" by (cases p)
      then have l: "segs v l = Some t" "k \<le> l" using Some index_next_back_Some [OF ix] kd k by auto
      have "base < l + seg_size t"
      proof (cases "k = l")
        case True
        then show ?thesis using k tag(1) [OF l(1)] by auto
      next
        case False
        then have "k + seg_size a \<le> l" using geom_disjoint [OF g k(1) tag(1) [OF l(1)]] l(2) by simp
        then show ?thesis using k by simp
      qed
      then show ?thesis using Some p tag(2) [OF l(1)] by simp
    qed
  }
qed

lemma region_insert:
  assumes "A k = None"
  shows "region (A(k \<mapsto> a)) sp = region A sp \<union> (if seg_span a = sp then {k..<k + seg_size a} else {})"
proof (rule set_eqI)
  fix x
  have "x \<in> region (A(k \<mapsto> a)) sp" if x: "x \<in> region A sp"
  proof -
    obtain j b where j: "A j = Some b" "seg_span b = sp" "j \<le> x" "x < j + seg_size b"
      using x by (auto simp: region_def)
    then have "(A(k \<mapsto> a)) j = Some b" using assms by auto
    from regionI [of "A(k \<mapsto> a)", OF this] j show ?thesis by auto
  qed
  moreover have "x \<in> region (A(k \<mapsto> a)) (seg_span a)" if "k \<le> x" "x < k + seg_size a"
    using that by (intro regionI [of _ k]) auto
  moreover have "x \<in> region A sp \<or> seg_span a = sp \<and> k \<le> x \<and> x < k + seg_size a"
    if "x \<in> region (A(k \<mapsto> a)) sp"
    using that by (auto simp: region_def split: if_splits)
  ultimately show "x \<in> region (A(k \<mapsto> a)) sp \<longleftrightarrow>
      x \<in> region A sp \<union> (if seg_span a = sp then {k..<k + seg_size a} else {})" by auto
qed

lemma add_span_outcome:
  assumes inv: "vmem_inv v"
  shows "case add_span pool v base sz of
      None \<Rightarrow> False
    | Some (Inr _, w) \<Rightarrow> vmem_inv w \<and> counters w = (vm_quantum v, vm_total v + sz, vm_used v) \<and>
        allocs (tags w) = allocs (tags v) \<and>
        region (tags w) = (region (tags v))(base := {base..<base + sz}) \<and>
        (\<forall>sp. region (tags v) sp \<inter> {base..<base + sz} = {})
    | Some (Inl e, w) \<Rightarrow> w = v \<and> (e = NoMemory \<and> \<not> pool base \<or>
        e = Invalid \<and> (u64_limit \<le> base + sz \<or> u64_limit \<le> vm_total v + sz \<or> sz = 0 \<or>
          \<not> vm_quantum v dvd base \<or> \<not> vm_quantum v dvd sz \<or>
          (\<exists>sp. region (tags v) sp \<inter> {base..<base + sz} \<noteq> {})))"
proof -
  note g = vmem_invD(2) [OF inv] and I = vmem_invD [OF inv]
  define overlap where "overlap \<longleftrightarrow>
    (\<exists>k a. tags v k = Some a \<and> k < base + sz \<and> base < k + seg_size a)"
  have meets: "overlap \<longleftrightarrow> (\<exists>sp. region (tags v) sp \<inter> {base..<base + sz} \<noteq> {})" if "0 < sz"
  proof
    assume overlap
    then obtain k a where k: "tags v k = Some a" "k < base + sz" "base < k + seg_size a"
      by (auto simp: overlap_def)
    have "max k base \<in> region (tags v) (seg_span a)"
      using k geomD(2) [OF g k(1)] by (intro regionI [of "tags v", OF k(1)]) auto
    moreover have "max k base \<in> {base..<base + sz}" using k that by auto
    ultimately show "\<exists>sp. region (tags v) sp \<inter> {base..<base + sz} \<noteq> {}" by blast
  next
    assume "\<exists>sp. region (tags v) sp \<inter> {base..<base + sz} \<noteq> {}"
    then show overlap by (force simp: overlap_def region_def)
  qed
  define bad where "bad \<longleftrightarrow> sz = 0 \<or> base mod vm_quantum v \<noteq> 0 \<or> sz mod vm_quantum v \<noteq> 0 \<or>
    (case iter_next_back (index_range (vm_segments v) Unbounded (Excluded (base + sz))) of
      None \<Rightarrow> False | Some (_, tag) \<Rightarrow> base < seg_end tag)"
  have bad_iff: "bad \<longleftrightarrow> sz = 0 \<or> \<not> vm_quantum v dvd base \<or> \<not> vm_quantum v dvd sz \<or>
      (\<exists>sp. region (tags v) sp \<inter> {base..<base + sz} \<noteq> {})"
    using add_span_overlap [OF inv, of sz base] meets
    by (auto simp: bad_def dvd_eq_mod_eq_0 overlap_def)
  have run: "add_span pool v base sz = (if bad then Some (Inl Invalid, v)
      else case reserve_tag pool base of Inl e \<Rightarrow> Some (Inl e, v) | Inr tag \<Rightarrow> do {
        v1 \<leftarrow> seg_insert v base (segment_new base sz base True) (Some tag);
        v2 \<leftarrow> push_free v1 base;
        Some (Inr (), v2\<lparr>vm_total := vm_total v + sz\<rparr>) })"
    if "base + sz < u64_limit" "vm_total v + sz < u64_limit"
    unfolding add_span_def bad_def using that by (simp only: checked_add_def if_True option.case)
  consider (big) "u64_limit \<le> base + sz \<or> u64_limit \<le> vm_total v + sz"
    | (bad) "base + sz < u64_limit" "vm_total v + sz < u64_limit" bad
    | (mem) "base + sz < u64_limit" "vm_total v + sz < u64_limit" "\<not> bad" "\<not> pool base"
    | (ok) "base + sz < u64_limit" "vm_total v + sz < u64_limit" "\<not> bad" "pool base" by linarith
  then show ?thesis
  proof cases
    case big
    then show ?thesis by (auto simp: add_span_def checked_add_def)
  next
    case bad
    then have "add_span pool v base sz = Some (Inl Invalid, v)"
      using run by simp
    then show ?thesis using bad(3) bad_iff by simp
  next
    case mem
    then have "add_span pool v base sz = Some (Inl NoMemory, v)"
      using run by (simp add: reserve_tag_def index_reserve_new_def)
    then show ?thesis using mem by simp
  next
    case ok
    let ?x = "segment_new base sz base True"
    have sz: "0 < sz" "vm_quantum v dvd base" "vm_quantum v dvd sz" and disj: "\<not> overlap"
      using ok(3) bad_iff meets by auto
    have apart: "k + seg_size a \<le> base \<or> base + sz \<le> k" if "tags v k = Some a" for k a
      using disj that by (auto simp: overlap_def not_less)
    have new: "tags v base = None"
      using apart [of base] sz(1) geomD(2) [OF g, of base] by (cases "tags v base") auto
    let ?B = "(tags v)(base \<mapsto> ?x)"
    obtain v1 where v1: "seg_insert v base ?x (Some base) = Some v1" "core v1 (frees (tags v)) ?B"
      "counters v1 = counters v"
      using core_insert [OF I(1) new, of ?x] by auto
    have nF: "base \<notin> frees (tags v)" using new by (simp add: frees_def)
    have F: "insert base (frees (tags v)) = frees ?B" using new by (auto simp: frees_def)
    obtain v2 where v2: "push_free v1 base = Some v2" "core v2 (frees ?B) ?B" "counters v2 = counters v"
      using core_push [OF v1(2) _ nF, of ?x] v1(3) F by auto
    let ?w = "v2\<lparr>vm_total := vm_total v + sz\<rparr>"
    have cw: "core ?w (frees ?B) ?B" by (rule core_total [OF v2(2)])
    then have tw: "tags ?w = ?B" by (simp add: core_def)
    have cnt: "counters ?w = (vm_quantum v, vm_total v + sz, vm_used v)"
      using v2(3) by (simp add: counters_def)
    have gB: "geom (vm_quantum v) ?B" by (rule geom_add_span [OF g sz(2,3,1) ok(1) apart])
    have "vmem_inv ?w"
      by (rule vmem_invI [OF inv cw cnt gB coalesced_add_span [OF g I(3) sz(1) new]])
        (use wsum_insert [OF geom_finite [OF g] new, of _ ?x] I(6,7) ok(2) in
          \<open>simp_all add: used_size_def\<close>)
    moreover have "allocs ?B = allocs (tags v)"
      using new by (intro set_eqI) (auto simp: in_allocs split: if_splits)
    moreover have "region ?B = (region (tags v))(base := {base..<base + sz})"
    proof (intro ext set_eqI)
      fix sp x
      have none: "x \<notin> region (tags v) base"
        using span_root [OF g] new by (force simp: region_def)
      have "x \<in> region ?B sp \<longleftrightarrow> x \<in> region (tags v) sp \<or> sp = base \<and> base \<le> x \<and> x < base + sz"
        using region_insert [of "tags v" base ?x sp] new by auto
      then show "x \<in> region ?B sp \<longleftrightarrow> x \<in> ((region (tags v))(base := {base..<base + sz})) sp"
        using none by auto
    qed
    moreover have "add_span pool v base sz = Some (Inr (), ?w)"
      using ok v1(1) v2(1) run by (simp add: reserve_tag_def index_reserve_new_def)
    ultimately show ?thesis using cnt disj meets [OF sz(1)] tw by auto
  qed
qed

end
