(* ===== verification/Vmem_Props.thy ===== *)
theory Vmem_Props
  imports Vmem_Ops
begin

text \<open>
  The properties of the virtual-address arena: runs of operations, and what each operation
  promises its clients in terms of spans and allocated ranges.
\<close>

section \<open>Runs\<close>

datatype vmem_op =
    AddSpan "nat \<Rightarrow> bool" nat nat
  | Xalloc "nat \<Rightarrow> bool" nat nat nat nat vmem_fit
  | AllocRandom "nat \<Rightarrow> bool" nat nat nat
  | AllocFixed "nat \<Rightarrow> bool" nat nat
  | AllocReserved reservation
  | Free nat

fun vmem_step :: "vmem \<Rightarrow> vmem_op \<Rightarrow> vmem panics" where
  "vmem_step v (AddSpan pool base sz) = map_option snd (add_span pool v base sz)"
| "vmem_step v (Xalloc pool sz align mn mx fit) = map_option snd (xalloc pool v sz align mn mx fit)"
| "vmem_step v (AllocRandom pool sz align entropy) = map_option snd (alloc_random pool v sz align entropy)"
| "vmem_step v (AllocFixed pool base sz) = map_option snd (alloc_fixed pool v base sz)"
| "vmem_step v (AllocReserved r) = alloc_reserved v r"
| "vmem_step v (Free base) = map_option snd (vmem_free v base)"

text \<open>
  The caller's obligations: alignments are 64-bit, a committed reservation comes from
  \<^const>\<open>reserve_fixed\<close> and still names a free range, and only a live allocation is
  freed. The other arguments are arbitrary.
\<close>

fun vmem_ok :: "vmem \<Rightarrow> vmem_op \<Rightarrow> bool" where
  "vmem_ok v (AddSpan pool base sz) = True"
| "vmem_ok v (Xalloc pool sz align mn mx fit) = (align < u64_limit)"
| "vmem_ok v (AllocRandom pool sz align entropy) = (align < u64_limit)"
| "vmem_ok v (AllocFixed pool base sz) = True"
| "vmem_ok v (AllocReserved r) =
     ((\<exists>pool sz. reserve_fixed pool v (res_base r) sz = Inr r) \<and> unallocated v (res_base r) (res_size r))"
| "vmem_ok v (Free base) = (\<exists>n. (base, n) \<in> allocs (tags v))"

lemma alloc_outcome_inv:
  "vmem_inv v \<Longrightarrow> alloc_outcome v pool sz al mn mx bad r \<Longrightarrow> \<exists>w. map_option snd r = Some w \<and> vmem_inv w"
proof (cases r)
  case (Some p)
  then show "vmem_inv v \<Longrightarrow> alloc_outcome v pool sz al mn mx bad r \<Longrightarrow> ?thesis"
    by (cases p; cases "fst p")
      (auto simp: alloc_outcome_def allocated_def split: vmem_error.splits)
qed (simp add: alloc_outcome_def)

lemma reserve_fixed_Inr:
  assumes "reserve_fixed pool v base sz = Inr r"
  shows "\<exists>n. fixed_size v base sz = Inr n \<and> r = \<lparr>res_base = base, res_size = n,
    res_start = Some base, res_end = Some (base + n)\<rparr>"
  using assms
  by (auto simp: reserve_fixed_def reserve_tag_def index_reserve_new_def split: sum.splits if_splits)

lemma alloc_reserved_outcome:
  assumes inv: "vmem_inv v" and r: "reserve_fixed pool v' base sz = Inr r" "vm_quantum v' = vm_quantum v"
    and n: "unallocated v base (res_size r)"
  shows "\<exists>w. alloc_reserved v r = Some w \<and> allocated v base (res_size r) w"
proof -
  obtain n where f: "fixed_size v' base sz = Inr n" and r': "r = \<lparr>res_base = base, res_size = n,
    res_start = Some base, res_end = Some (base + n)\<rparr>" using reserve_fixed_Inr [OF r(1)] by blast
  have "fixed_size v base sz = Inr n"
    using f unfolding fixed_size_def round_size_def r(2) .
  note f = fixed_size_Inr [OF this]
  note s = round_size_Inr [OF inv f(1)]
  obtain k where k: "free_segment_containing v base = Some k"
    using no_free_segment [OF inv s(4), of base] n r' by (cases "free_segment_containing v base") auto
  obtain a where a: "tags v k = Some a" "seg_free a" "k \<le> base" "vmem_tag v k = Some (tag_at v k)"
    "seg_end (tag_at v k) = seg_end a" "base + n \<le> seg_end a \<longleftrightarrow> unallocated v base n"
    using free_segment_covering [OF inv s(4) k] by blast
  have e: "base + n \<le> seg_end a" using a(6) n r' by simp
  have "\<exists>w. vmem_take v k r = Some w \<and> allocated v base n w"
    by (rule vmem_take_inv [OF inv a(1-3) f(2) s(4,3) e]) (simp_all add: r')
  then show ?thesis using k a e by (auto simp: alloc_reserved_def r')
qed

interpretation vm: safe_machine vmem_step vmem_ok vmem_inv
proof unfold_locales
  fix v x
  assume inv: "vmem_inv v" and ok: "vmem_ok v x"
  show "\<exists>w. vmem_step v x = Some w \<and> vmem_inv w"
  proof (cases x)
    case (AddSpan pool base sz)
    obtain r w where "add_span pool v base sz = Some (r, w)"
      using add_span_outcome [OF inv, of pool base sz] by (cases "add_span pool v base sz") auto
    then show ?thesis using AddSpan inv add_span_outcome [OF inv, of pool base sz]
      by (cases r) auto
  next
    case (Xalloc pool sz al mn mx fit)
    then have al: "al < u64_limit" using ok by simp
    show ?thesis using alloc_outcome_inv [OF inv xalloc_outcome [OF inv al]] Xalloc by simp
  next
    case (AllocRandom pool sz al entropy)
    then have al: "al < u64_limit" using ok by simp
    show ?thesis using alloc_outcome_inv [OF inv alloc_random_outcome [OF inv al]] AllocRandom by simp
  next
    case (AllocFixed pool base sz)
    obtain r w where "alloc_fixed pool v base sz = Some (r, w)"
      using alloc_fixed_outcome [OF inv, where pool = pool and base = base and sz = sz] by (cases "alloc_fixed pool v base sz") auto
    then show ?thesis using AllocFixed inv alloc_fixed_outcome [OF inv, where pool = pool and base = base and sz = sz]
      by (cases r) (auto simp: allocated_def split: vmem_error.splits)
  next
    case (AllocReserved r)
    then obtain pool sz where "reserve_fixed pool v (res_base r) sz = Inr r"
      "unallocated v (res_base r) (res_size r)" using ok by auto
    from alloc_reserved_outcome [OF inv this(1) refl this(2)] AllocReserved show ?thesis
      by (auto simp: allocated_def)
  next
    case (Free base)
    then obtain a where "tags v base = Some a" "\<not> seg_free a" using ok by (auto simp: in_allocs)
    then show ?thesis using vmem_free_inv [OF inv] Free by fastforce
  qed
qed

text \<open>
  C1. Starting from an empty arena with a valid quantum, no admissible sequence of operations
  panics, follows a dangling list link or loops forever, whatever the tag pool answers; the
  arena ends in a state that satisfies the representation invariant.
\<close>

theorem vmem_run_safe:
  assumes "is_power_of_two q" "q < u64_limit"
    and "admissible vmem_step vmem_ok (the (vmem_new q)) ops"
  shows "\<exists>w. Option.bind (vmem_new q) (\<lambda>v. run_ops vmem_step v ops) = Some w \<and> vmem_inv w"
proof -
  obtain v where v: "vmem_new q = Some v" "vmem_inv v" using vmem_new_inv [OF assms(1,2)] by blast
  with vm.run_safe [OF v(2)] assms(3) show ?thesis by simp
qed

section \<open>An arena for the examples\<close>

definition demo_arena :: vmem where
  "demo_arena = snd (the (add_span (\<lambda>_. True) (the (vmem_new 16)) 64 256))"

lemma demo_computation:
  "vmem_new 16 = Some \<lparr>vm_segments = index_new, vm_freelists = replicate FREELIST_COUNT None,
     vm_freelist_map = 0, vm_quantum = 16, vm_total = 0, vm_used = 0\<rparr>"
  "freelist_index 256 = 8"
  by (simp_all add: vmem_new_def is_power_of_two.simps freelist_index_def leading_zeros_def ilog2.simps)

lemma demo_arena_run:
  "add_span (\<lambda>_. True) (the (vmem_new 16)) 64 256 = Some (Inr (),
     \<lparr>vm_segments = \<lparr>ix_tree = [(64, segment_new 64 256 64 True)], ix_len = 1\<rparr>,
     vm_freelists = (replicate FREELIST_COUNT None)[8 := Some 64], vm_freelist_map = 256,
     vm_quantum = 16, vm_total = 256, vm_used = 0\<rparr>)"
  by (simp add: add_span_def demo_computation checked_add_def index_range_def index_new_def
      iter_next_back_def reserve_tag_def index_reserve_new_def seg_insert_def index_insert_def
      index_get_def push_free_def vmem_tag_def tag_set_def FREELIST_COUNT_def tree_replace_def
      segment_new_def push_bit_eq_mult)

lemma demo_arena_eq:
  "demo_arena = \<lparr>vm_segments = \<lparr>ix_tree = [(64, segment_new 64 256 64 True)], ix_len = 1\<rparr>,
     vm_freelists = (replicate FREELIST_COUNT None)[8 := Some 64], vm_freelist_map = 256,
     vm_quantum = 16, vm_total = 256, vm_used = 0\<rparr>"
  using demo_arena_run by (simp add: demo_arena_def)

lemma demo_arena_tags: "tags demo_arena = [64 \<mapsto> segment_new 64 256 64 True]"
  by (auto simp: tags_def demo_arena_eq index_get_def)

lemma demo_quantum: "is_power_of_two 16" "is_power_of_two 64"
  by (simp_all add: is_power_of_two.simps)

lemma demo_arena_inv: "vmem_inv demo_arena"
proof -
  obtain v where v: "vmem_new 16 = Some v" "vmem_inv v"
    using vmem_new_inv [OF demo_quantum(1)] by auto
  from v(1) demo_arena_run have "add_span (\<lambda>_. True) v 64 256 = Some (Inr (), demo_arena)"
    by (simp add: demo_arena_eq)
  then show ?thesis using add_span_outcome [OF v(2), of "\<lambda>_. True" 64 256] by simp
qed

theorem vmem_run_safe_witness:
  "\<exists>w. Option.bind (vmem_new 16) (\<lambda>v. run_ops vmem_step v
     [AddSpan (\<lambda>_. True) 64 256, Xalloc (\<lambda>_. True) 100 64 0 U64_MAX Best, AllocFixed (\<lambda>_. True) 288 16]) =
     Some w \<and> vmem_inv w"
  by (rule vmem_run_safe) (simp_all add: demo_quantum(1) split: option.split)

lemma demo_allocs: "allocs (tags demo_arena) = {}"
  by (simp add: demo_arena_tags allocs_def)

lemma demo_round: "round_size demo_arena 20 = Inr 32"
  by (simp add: round_size_def demo_arena_eq checked_add_def mask_down_def)

lemma demo_unallocated: "64 \<le> b \<Longrightarrow> b + n \<le> 320 \<Longrightarrow> unallocated demo_arena b n"
  by (auto simp: unallocated_def demo_arena_tags allocs_def region_def intro!: exI [of _ 64])

lemma demo_xalloc:
  "\<exists>b w. xalloc (\<lambda>_. True) demo_arena 20 16 0 1000 fit = Some (Inr b, w)"
proof -
  let ?res = "xalloc (\<lambda>_. True) demo_arena 20 16 0 1000 fit"
  have place: "can_place demo_arena 32 16 0 1000 64"
    using demo_unallocated by (simp add: can_place_def)
  have out: "alloc_outcome demo_arena (\<lambda>_. True) 20 16 0 1000 False ?res"
    using xalloc_outcome [OF demo_arena_inv, where al = 16 and pool = "\<lambda>_. True" and sz = 20
        and mn = 0 and mx = 1000 and fit = fit] by (simp add: demo_quantum)
  obtain r w where r: "?res = Some (r, w)" using out by (cases ?res) (auto simp: alloc_outcome_def)
  have "\<not> isl r"
  proof
    assume "isl r"
    then obtain e where "r = Inl e" by (cases r) auto
    with out r place show False
      by (cases e) (auto simp: alloc_outcome_def demo_round, auto simp: demo_arena_eq)
  qed
  then show ?thesis using r by (cases r) auto
qed

section \<open>Allocation\<close>

lemma alloc_outcome_client:
  assumes inv: "vmem_inv v" and out: "alloc_outcome v pool sz align mn mx bad res"
  shows "case res of
      None \<Rightarrow> False
    | Some (Inr b, w) \<Rightarrow> vmem_inv w \<and> (\<exists>n. sz \<le> n \<and> n < sz + vm_quantum v \<and> vm_quantum v dvd n \<and>
        max align (vm_quantum v) dvd b \<and> mn \<le> b \<and> b + n \<le> mx \<and> unallocated v b n \<and>
        allocs (tags w) = insert (b, n) (allocs (tags v)) \<and> region (tags w) = region (tags v) \<and>
        counters w = (vm_quantum v, vm_total v, vm_used v + n))
    | Some (Inl e, w) \<Rightarrow> w = v \<and>
        (case e of
           NoSpace \<Rightarrow> \<exists>n. sz \<le> n \<and> n < sz + vm_quantum v \<and> vm_quantum v dvd n \<and>
             (\<forall>b. max align (vm_quantum v) dvd b \<longrightarrow> mn \<le> b \<longrightarrow> b + n \<le> mx \<longrightarrow> \<not> unallocated v b n)
         | NoMemory \<Rightarrow> \<exists>k. \<not> pool k
         | Invalid \<Rightarrow> sz = 0 \<or> u64_limit \<le> sz + (vm_quantum v - 1) \<or> bad)"
proof -
  obtain r w where res: "res = Some (r, w)"
    using out by (cases res) (auto simp: alloc_outcome_def)
  show ?thesis
  proof (cases r)
    case (Inl e)
    show ?thesis
    proof (cases e)
      case NoSpace
      then obtain n where n: "round_size v sz = Inr n" "w = v"
        "\<forall>b. \<not> can_place v n (max align (vm_quantum v)) mn mx b"
        using out res Inl by (auto simp: alloc_outcome_def)
      then show ?thesis
        using round_size_Inr(1-3) [OF inv n(1)] res Inl NoSpace
        by (auto simp: can_place_def intro!: exI [of _ n])
    next
      case Invalid
      then show ?thesis
        using out res Inl round_size_Inl [of v sz]
        by (cases "round_size v sz") (auto simp: alloc_outcome_def)
    qed (use out res Inl in \<open>auto simp: alloc_outcome_def\<close>)
  next
    case (Inr b)
    then obtain n where n: "round_size v sz = Inr n" "allocated v b n w"
      "can_place v n (max align (vm_quantum v)) mn mx b"
      using out res by (auto simp: alloc_outcome_def)
    then show ?thesis
      using round_size_Inr(1-3) [OF inv n(1)] res Inr
      by (auto simp: can_place_def allocated_def intro!: exI [of _ n])
  qed
qed

text \<open>
  C2. A constrained allocation never panics. On success it returns an aligned range inside the
  requested bounds, of the requested size rounded up to the quantum, that was inside a span and
  met no allocated range; exactly that range becomes allocated. It reports that no space is
  left only if no such range exists, and malformed only for a malformed request; every failure
  leaves the arena unchanged.
\<close>

theorem xalloc_correct:
  assumes inv: "vmem_inv v" and al: "align < u64_limit"
  shows "case xalloc pool v sz align mn mx fit of
      None \<Rightarrow> False
    | Some (Inr b, w) \<Rightarrow> vmem_inv w \<and> (\<exists>n. sz \<le> n \<and> n < sz + vm_quantum v \<and> vm_quantum v dvd n \<and>
        max align (vm_quantum v) dvd b \<and> mn \<le> b \<and> b + n \<le> mx \<and> unallocated v b n \<and>
        allocs (tags w) = insert (b, n) (allocs (tags v)) \<and> region (tags w) = region (tags v) \<and>
        counters w = (vm_quantum v, vm_total v, vm_used v + n))
    | Some (Inl e, w) \<Rightarrow> w = v \<and>
        (case e of
           NoSpace \<Rightarrow> \<exists>n. sz \<le> n \<and> n < sz + vm_quantum v \<and> vm_quantum v dvd n \<and>
             (\<forall>b. max align (vm_quantum v) dvd b \<longrightarrow> mn \<le> b \<longrightarrow> b + n \<le> mx \<longrightarrow> \<not> unallocated v b n)
         | NoMemory \<Rightarrow> \<exists>k. \<not> pool k
         | Invalid \<Rightarrow> sz = 0 \<or> u64_limit \<le> sz + (vm_quantum v - 1) \<or>
             \<not> is_power_of_two align \<or> mx \<le> mn)"
  by (rule alloc_outcome_client [OF inv xalloc_outcome [OF inv al]])

theorem xalloc_witness:
  "vmem_inv demo_arena \<and>
   (case xalloc (\<lambda>_. True) demo_arena 100 64 100 U64_MAX Best of
      None \<Rightarrow> False
    | Some (Inr b, w) \<Rightarrow> vmem_inv w \<and> 64 dvd b \<and> 100 \<le> b
    | Some (Inl e, w) \<Rightarrow> w = demo_arena)"
  using xalloc_correct [OF demo_arena_inv, where align = 64 and pool = "\<lambda>_. True" and sz = 100
      and mn = 100 and mx = U64_MAX and fit = Best] demo_arena_inv
  by (cases "xalloc (\<lambda>_. True) demo_arena 100 64 100 U64_MAX Best")
    (auto simp: demo_arena_eq split: sum.splits)

text \<open>
  Randomised allocation has the same contract over the whole address space, for every value
  of the entropy: the slot it draws stays inside the free segment and keeps the alignment.
\<close>

theorem alloc_random_correct:
  assumes inv: "vmem_inv v" and al: "align < u64_limit"
  shows "case alloc_random pool v sz align entropy of
      None \<Rightarrow> False
    | Some (Inr b, w) \<Rightarrow> vmem_inv w \<and> (\<exists>n. sz \<le> n \<and> n < sz + vm_quantum v \<and> vm_quantum v dvd n \<and>
        max align (vm_quantum v) dvd b \<and> 0 \<le> b \<and> b + n \<le> U64_MAX \<and> unallocated v b n \<and>
        allocs (tags w) = insert (b, n) (allocs (tags v)) \<and> region (tags w) = region (tags v) \<and>
        counters w = (vm_quantum v, vm_total v, vm_used v + n))
    | Some (Inl e, w) \<Rightarrow> w = v \<and>
        (case e of
           NoSpace \<Rightarrow> \<exists>n. sz \<le> n \<and> n < sz + vm_quantum v \<and> vm_quantum v dvd n \<and>
             (\<forall>b. max align (vm_quantum v) dvd b \<longrightarrow> 0 \<le> b \<longrightarrow> b + n \<le> U64_MAX \<longrightarrow> \<not> unallocated v b n)
         | NoMemory \<Rightarrow> \<exists>k. \<not> pool k
         | Invalid \<Rightarrow> sz = 0 \<or> u64_limit \<le> sz + (vm_quantum v - 1) \<or> \<not> is_power_of_two align)"
  by (rule alloc_outcome_client [OF inv alloc_random_outcome [OF inv al]])

theorem alloc_random_witness:
  "vmem_inv demo_arena \<and>
   (case alloc_random (\<lambda>_. True) demo_arena 20 32 5 of
      None \<Rightarrow> False
    | Some (Inr b, w) \<Rightarrow> vmem_inv w \<and> 32 dvd b
    | Some (Inl e, w) \<Rightarrow> w = demo_arena)"
  using alloc_random_correct [OF demo_arena_inv, where align = 32 and pool = "\<lambda>_. True" and sz = 20
      and entropy = 5] demo_arena_inv
  by (cases "alloc_random (\<lambda>_. True) demo_arena 20 32 5")
    (auto simp: demo_arena_eq split: sum.splits)

text \<open>
  C5. Best-fit allocation takes the range from a smallest free segment that can hold it.
\<close>

theorem xalloc_best_fit:
  assumes inv: "vmem_inv v" and al: "align < u64_limit"
    and run: "xalloc pool v sz align mn mx Best = Some (Inr b, w)"
  shows "\<exists>k a n. round_size v sz = Inr n \<and> tags v k = Some a \<and> seg_free a \<and> k \<le> b \<and>
    b + n \<le> k + seg_size a \<and>
    (\<forall>j c. tags v j = Some c \<longrightarrow> seg_free c \<longrightarrow>
       (\<exists>x. fits_at c n (max align (vm_quantum v)) mn mx x) \<longrightarrow> seg_size a \<le> seg_size c)"
proof -
  let ?al = "max align (vm_quantum v)"
  from run obtain n where n: "round_size v sz = Inr n" and p: "is_power_of_two align"
    and bind: "Option.bind (scan_fit v n ?al mn mx True) (\<lambda>found. case found of
        None \<Rightarrow> Some (Inl NoSpace, v) | Some (segment, base) \<Rightarrow> take_at pool v segment base n) =
      Some (Inr b, w)"
    by (auto simp: xalloc_def Let_def split: sum.splits if_splits)
  note r = round_size_Inr [OF inv n]
  from scan_fit_inv [OF inv r(4,5) max_quantum(1,2) [OF inv p al], where mn = mn and mx = mx and best = True]
    bind obtain s a c where s: "tags v s = Some a" "seg_free a" "s \<le> c" "c + n \<le> seg_end a"
      "take_at pool v s c n = Some (Inr b, w)"
      and least: "\<forall>j c. tags v j = Some c \<longrightarrow> seg_free c \<longrightarrow>
        (\<exists>x. fits_at c n ?al mn mx x) \<longrightarrow> seg_size a \<le> seg_size c"
    by auto
  obtain y where y: "prepare_take pool v s c n = Some y"
    using s(5) by (cases "prepare_take pool v s c n") (auto simp: take_at_def)
  then have "c = b" using s(5) by (cases y) (auto simp: take_at_def bind_eq_Some_conv)
  then show ?thesis
    using n s least geomD(7) [OF vmem_invD(2) [OF inv] s(1)] by auto
qed


theorem xalloc_best_fit_witness:
  "\<exists>b w. xalloc (\<lambda>_. True) demo_arena 20 16 0 1000 Best = Some (Inr b, w) \<and>
    (\<exists>k a n. round_size demo_arena 20 = Inr n \<and> tags demo_arena k = Some a \<and> seg_free a \<and> k \<le> b \<and>
      b + n \<le> k + seg_size a)"
proof -
  obtain b w where "xalloc (\<lambda>_. True) demo_arena 20 16 0 1000 Best = Some (Inr b, w)"
    using demo_xalloc by blast
  from xalloc_best_fit [OF demo_arena_inv _ this] this show ?thesis by auto
qed

text \<open>
  C6. Allocating a fixed range never panics and, for a well-formed request, succeeds only when the
  range, rounded up to the quantum, is unallocated; exactly that range then becomes allocated.
  It reports that no space is left exactly when the range is not unallocated, unless the pool
  refused a tag; every failure leaves the arena unchanged.
\<close>

theorem alloc_fixed_correct:
  assumes inv: "vmem_inv v" and n: "fixed_size v base sz = Inr n"
  shows "case alloc_fixed pool v base sz of
      None \<Rightarrow> False
    | Some (Inr _, w) \<Rightarrow> unallocated v base n \<and> vmem_inv w \<and>
        allocs (tags w) = insert (base, n) (allocs (tags v)) \<and> region (tags w) = region (tags v) \<and>
        counters w = (vm_quantum v, vm_total v, vm_used v + n)
    | Some (Inl e, w) \<Rightarrow> w = v \<and> (e = NoSpace \<and> \<not> unallocated v base n \<or> e = NoMemory \<and> (\<exists>k. \<not> pool k))"
proof -
  note out = alloc_fixed_outcome [OF inv, where pool = pool and base = base and sz = sz]
  obtain r w where r: "alloc_fixed pool v base sz = Some (r, w)"
    using out by (cases "alloc_fixed pool v base sz") auto
  show ?thesis
  proof (cases r)
    case (Inl e)
    then show ?thesis using out r n by (cases e) auto
  next
    case (Inr u)
    then show ?thesis using out r n by (auto simp: allocated_def)
  qed
qed

theorem alloc_fixed_witness:
  "fixed_size demo_arena 128 20 = Inr 32 \<and> unallocated demo_arena 128 32 \<and>
   (\<exists>w. alloc_fixed (\<lambda>_. True) demo_arena 128 20 = Some (Inr (), w) \<and> vmem_inv w)"
proof -
  have f: "fixed_size demo_arena 128 20 = Inr 32"
    by (simp add: fixed_size_def demo_round checked_add_def) (simp add: demo_arena_eq)
  show ?thesis
    using alloc_fixed_correct [OF demo_arena_inv f, of "\<lambda>_. True"] f demo_unallocated [of 128 32]
    by (cases "alloc_fixed (\<lambda>_. True) demo_arena 128 20"; cases "fst (the (alloc_fixed (\<lambda>_. True) demo_arena 128 20))") auto
qed

section \<open>Release\<close>

text \<open>
  C3. Freeing the base of a live allocation never panics, returns its size, gives back exactly
  that range and keeps the invariant, in particular that free neighbours of one span are
  merged.
\<close>

theorem vmem_free_correct:
  assumes inv: "vmem_inv v" and live: "(base, n) \<in> allocs (tags v)"
  shows "\<exists>w. vmem_free v base = Some (n, w) \<and> vmem_inv w \<and>
    allocs (tags w) = allocs (tags v) - {(base, n)} \<and> region (tags w) = region (tags v) \<and>
    counters w = (vm_quantum v, vm_total v, vm_used v - n)"
proof -
  obtain a where "tags v base = Some a" "\<not> seg_free a" "seg_size a = n" using live by (auto simp: in_allocs)
  with vmem_free_inv [OF inv] show ?thesis by blast
qed

theorem vmem_free_witness:
  "\<exists>b n v w. xalloc (\<lambda>_. True) demo_arena 20 16 0 1000 Instant = Some (Inr b, v) \<and>
    vmem_free v b = Some (n, w) \<and> vmem_inv w \<and> allocs (tags w) = {}"
proof -
  obtain b v where v: "xalloc (\<lambda>_. True) demo_arena 20 16 0 1000 Instant = Some (Inr b, v)"
    using demo_xalloc by blast
  have "alloc_outcome demo_arena (\<lambda>_. True) 20 16 0 1000 False (Some (Inr b, v))"
    using xalloc_outcome [OF demo_arena_inv, where al = 16 and pool = "\<lambda>_. True" and sz = 20
        and mn = 0 and mx = 1000 and fit = Instant] v by (simp add: demo_quantum)
  then have inv: "vmem_inv v" and al: "allocs (tags v) = {(b, 32)}"
    by (simp_all add: alloc_outcome_def allocated_def demo_round demo_allocs)
  show ?thesis using vmem_free_correct [OF inv, of b 32] al v by auto
qed

section \<open>Queries and structure\<close>

text \<open>
  The query for a free range answers for every nonempty range whether one span covers it
  and no allocated range meets it.
\<close>

theorem vmem_is_free_correct:
  assumes inv: "vmem_inv v" and n: "0 < n"
  shows "vmem_is_free v base n = Some (unallocated v base n)"
proof (cases "base + n < u64_limit")
  case True
  show ?thesis
  proof (cases "free_segment_containing v base")
    case None
    then show ?thesis using True no_free_segment [OF inv n None] by (simp add: vmem_is_free_def checked_add_def)
  next
    case (Some k)
    then show ?thesis using True free_segment_covering [OF inv n Some]
      by (auto simp: vmem_is_free_def checked_add_def)
  qed
next
  case False
  moreover have "\<not> unallocated v base n"
    using unallocated_bound [OF inv n, of base] False by (auto simp: U64_MAX_def)
  ultimately show ?thesis by (simp add: vmem_is_free_def checked_add_def)
qed

theorem vmem_is_free_witness:
  "(0::nat) < 32 \<and> vmem_is_free demo_arena 128 32 = Some True"
  using vmem_is_free_correct [OF demo_arena_inv, of 32 128] demo_unallocated [of 128 32] by simp

lemma arena_ranges:
  assumes inv: "vmem_inv v"
  shows "(\<forall>(b, n) \<in> allocs (tags v). 0 < n \<and> vm_quantum v dvd b \<and> vm_quantum v dvd n \<and>
       (\<exists>sp. {b..<b + n} \<subseteq> region (tags v) sp)) \<and>
    (\<forall>(b, n) \<in> allocs (tags v). \<forall>(c, m) \<in> allocs (tags v). (b, n) \<noteq> (c, m) \<longrightarrow>
       {b..<b + n} \<inter> {c..<c + m} = {}) \<and>
    vm_used v = (\<Sum>(b, n) \<in> allocs (tags v). n) \<and> vm_used v \<le> vm_total v"
proof (intro conjI ballI)
  note I = vmem_invD [OF inv]
  let ?A = "tags v"
  fix p
  assume p: "p \<in> allocs ?A"
  obtain b n where bn: "p = (b, n)" by (cases p)
  then obtain a where a: "?A b = Some a" "seg_size a = n" using p by (auto simp: in_allocs)
  note d = geomD [OF I(2) a(1)]
  have "{b..<b + n} \<subseteq> region ?A (seg_span a)" using regionI [of ?A, OF a(1)] a(2) by auto
  then show "case p of (b, n) \<Rightarrow> 0 < n \<and> vm_quantum v dvd b \<and> vm_quantum v dvd n \<and>
       (\<exists>sp. {b..<b + n} \<subseteq> region ?A sp)" using d a bn by auto
  show "case p of (b, n) \<Rightarrow> \<forall>(c, m) \<in> allocs ?A. (b, n) \<noteq> (c, m) \<longrightarrow> {b..<b + n} \<inter> {c..<c + m} = {}"
    unfolding bn prod.case
  proof (intro ballI)
    fix q
    assume q: "q \<in> allocs ?A"
    obtain c m where cm: "q = (c, m)" by (cases q)
    then obtain a' where a': "?A c = Some a'" "seg_size a' = m" using q by (auto simp: in_allocs)
    have "(b, n) = (c, m)" if meet: "{b..<b + n} \<inter> {c..<c + m} \<noteq> {}"
    proof -
      obtain x where x: "x \<in> {b..<b + n} \<inter> {c..<c + m}" using meet by blast
      have "b = c" by (rule geom_unique [OF I(2) a(1) a'(1), of x]) (use x a a' in auto)
      then show ?thesis using a a' by simp
    qed
    then show "case q of (c, m) \<Rightarrow> (b, n) \<noteq> (c, m) \<longrightarrow> {b..<b + n} \<inter> {c..<c + m} = {}"
      unfolding cm prod.case by blast
  qed
next
  note I = vmem_invD [OF inv]
  let ?A = "tags v"
  have fin: "finite (dom ?A)" by (rule geom_finite [OF I(2)])
  let ?D = "{k \<in> dom ?A. \<not> seg_free (the (?A k))}"
  have "allocs ?A = (\<lambda>k. (k, seg_size (the (?A k)))) ` ?D" by (force simp: allocs_def)
  then have "(\<Sum>(b, n) \<in> allocs ?A. n) = (\<Sum>k \<in> ?D. seg_size (the (?A k)))"
    by (simp add: sum.reindex inj_on_def)
  also have "\<dots> = (\<Sum>k \<in> dom ?A. used_size (the (?A k)))"
    using fin by (intro sum.mono_neutral_cong_left) (auto simp: used_size_def)
  finally show "vm_used v = (\<Sum>(b, n) \<in> allocs ?A. n)" using I(7) by (simp add: wsum_def)
  show "vm_used v \<le> vm_total v" unfolding I(6,7) by (rule wsum_mono) (simp add: used_size_def)
qed

end
