(* ===== verification/Vmem_Client.thy ===== *)
theory Vmem_Client
  imports Vmem_Props
begin

text \<open>
  The arena as its clients see it. A client keeps a ledger of the spans it has added and of the
  ranges it has been granted and not given back, written from the results of its calls alone.
  The lemmas show that the arena and the ledger never disagree, so that grants never overlap,
  and that what can still be allocated depends only on the ledger: no sequence of calls loses or
  fragments address space beyond what is in use.
\<close>

section \<open>The ledger\<close>

record ledger =
  lg_spans :: "(nat \<times> nat) list"
  lg_live :: "(nat \<times> nat) list"

definition ledger_new :: ledger where
  "ledger_new = \<lparr>lg_spans = [], lg_live = []\<rparr>"

definition rounded :: "nat \<Rightarrow> nat \<Rightarrow> nat" where
  \<comment> \<open>the size a client is granted when it asks for the given one\<close>
  "rounded q sz = (sz + (q - 1)) div q * q"

definition grant :: "nat \<Rightarrow> nat \<Rightarrow> ledger \<Rightarrow> ledger" where
  "grant b n lg = lg\<lparr>lg_live := (b, n) # lg_live lg\<rparr>"

definition note_grant :: "nat \<Rightarrow> nat \<Rightarrow> ledger \<Rightarrow> (vmem_error + nat) \<times> vmem \<Rightarrow> vmem \<times> ledger" where
  "note_grant q sz lg res = (case res of (Inl _, w) \<Rightarrow> (w, lg) | (Inr b, w) \<Rightarrow> (w, grant b (rounded q sz) lg))"

fun client_step :: "nat \<Rightarrow> vmem \<times> ledger \<Rightarrow> vmem_op \<Rightarrow> (vmem \<times> ledger) panics" where
  \<comment> \<open>a call of the arena with the given quantum, and what the client writes down\<close>
  "client_step q (v, lg) (AddSpan pool base sz) =
     map_option (\<lambda>(r, w). (w, if isl r then lg else lg\<lparr>lg_spans := (base, sz) # lg_spans lg\<rparr>)) (add_span pool v base sz)"
| "client_step q (v, lg) (Xalloc pool sz align mn mx fit) =
     map_option (note_grant q sz lg) (xalloc pool v sz align mn mx fit)"
| "client_step q (v, lg) (AllocRandom pool sz align entropy) =
     map_option (note_grant q sz lg) (alloc_random pool v sz align entropy)"
| "client_step q (v, lg) (AllocFixed pool base sz) =
     map_option (\<lambda>(r, w). (w, if isl r then lg else grant base (rounded q sz) lg)) (alloc_fixed pool v base sz)"
| "client_step q (v, lg) (AllocReserved r) =
     map_option (\<lambda>w. (w, grant (res_base r) (res_size r) lg)) (alloc_reserved v r)"
| "client_step q (v, lg) (Free base) =
     map_option (\<lambda>(n, w). (w, lg\<lparr>lg_live := filter (\<lambda>(b, _). b \<noteq> base) (lg_live lg)\<rparr>)) (vmem_free v base)"

definition available :: "ledger \<Rightarrow> nat \<Rightarrow> nat \<Rightarrow> bool" where
  \<comment> \<open>the range lies in a span and meets no live grant\<close>
  "available lg b n \<longleftrightarrow> (\<exists>(s, m) \<in> set (lg_spans lg). s \<le> b \<and> b + n \<le> s + m) \<and>
     (\<forall>(c, m) \<in> set (lg_live lg). b + n \<le> c \<or> c + m \<le> b)"

fun client_ok :: "vmem \<times> ledger \<Rightarrow> vmem_op \<Rightarrow> bool" where
  \<comment> \<open>the obligations of a client, in terms of its ledger\<close>
  "client_ok (v, lg) (AddSpan pool base sz) = True"
| "client_ok (v, lg) (Xalloc pool sz align mn mx fit) = (align < u64_limit)"
| "client_ok (v, lg) (AllocRandom pool sz align entropy) = (align < u64_limit)"
| "client_ok (v, lg) (AllocFixed pool base sz) = True"
| "client_ok (v, lg) (AllocReserved r) =
     ((\<exists>pool sz. reserve_fixed pool v (res_base r) sz = Inr r) \<and> available lg (res_base r) (res_size r))"
| "client_ok (v, lg) (Free base) = (base \<in> fst ` set (lg_live lg))"

section \<open>Agreement\<close>

definition span_region :: "(nat \<times> nat) list \<Rightarrow> nat \<Rightarrow> nat set" where
  "span_region spans sp = (case map_of spans sp of None \<Rightarrow> {} | Some m \<Rightarrow> {sp..<sp + m})"

definition spans_ok :: "vmem \<Rightarrow> (nat \<times> nat) list \<Rightarrow> bool" where
  "spans_ok v spans \<longleftrightarrow> distinct (map fst spans) \<and> (\<forall>(s, m) \<in> set spans. 0 < m) \<and>
     region (tags v) = span_region spans \<and> vm_total v = sum_list (map snd spans)"

definition agrees :: "nat \<Rightarrow> vmem \<times> ledger \<Rightarrow> bool" where
  "agrees q x = (case x of (v, lg) \<Rightarrow> vmem_inv v \<and> vm_quantum v = q \<and> spans_ok v (lg_spans lg) \<and>
     distinct (lg_live lg) \<and> set (lg_live lg) = allocs (tags v))"

lemma agreesI:
  assumes "vmem_inv v" "vm_quantum v = q" "spans_ok v (lg_spans lg)" "distinct (lg_live lg)"
    "set (lg_live lg) = allocs (tags v)"
  shows "agrees q (v, lg)"
  using assms by (simp add: agrees_def)

lemma agreesD:
  assumes "agrees q (v, lg)"
  shows "vmem_inv v" "vm_quantum v = q" "spans_ok v (lg_spans lg)" "distinct (lg_live lg)"
    "set (lg_live lg) = allocs (tags v)"
  using assms by (simp_all add: agrees_def)

lemma in_span_region:
  assumes "spans_ok v spans" "0 < n"
  shows "(\<exists>sp. {b..<b + n} \<subseteq> span_region spans sp) \<longleftrightarrow> (\<exists>(s, m) \<in> set spans. s \<le> b \<and> b + n \<le> s + m)"
proof
  assume "\<exists>sp. {b..<b + n} \<subseteq> span_region spans sp"
  then obtain sp where sp: "{b..<b + n} \<subseteq> span_region spans sp" by blast
  moreover have "b \<in> {b..<b + n}" "b + n - 1 \<in> {b..<b + n}" using assms(2) by auto
  ultimately obtain m where m: "map_of spans sp = Some m" "sp \<le> b" "b + n - 1 < sp + m"
    unfolding span_region_def by (cases "map_of spans sp") auto
  then have "(sp, m) \<in> set spans" "b + n \<le> sp + m" using map_of_SomeD assms(2) by auto
  then show "\<exists>(s, m) \<in> set spans. s \<le> b \<and> b + n \<le> s + m" using m(2) by auto
next
  assume "\<exists>(s, m) \<in> set spans. s \<le> b \<and> b + n \<le> s + m"
  then obtain s m where s: "(s, m) \<in> set spans" "s \<le> b" "b + n \<le> s + m" by auto
  then have "map_of spans s = Some m" using assms(1) by (simp add: spans_ok_def)
  then have "{b..<b + n} \<subseteq> span_region spans s" using s by (auto simp: span_region_def)
  then show "\<exists>sp. {b..<b + n} \<subseteq> span_region spans sp" by blast
qed

lemma ranges_apart:
  fixes b :: nat
  assumes "0 < n" "0 < m"
  shows "{b..<b + n} \<inter> {c..<c + m} = {} \<longleftrightarrow> b + n \<le> c \<or> c + m \<le> b"
proof
  assume e: "{b..<b + n} \<inter> {c..<c + m} = {}"
  have "max b c \<notin> {b..<b + n} \<inter> {c..<c + m}" using e by blast
  then show "b + n \<le> c \<or> c + m \<le> b" using assms by (auto simp: max_def split: if_splits)
qed auto

lemma available_unallocated:
  assumes "agrees q (v, lg)" "0 < n"
  shows "available lg b n \<longleftrightarrow> unallocated v b n"
proof -
  note A = agreesD [OF assms(1)]
  have apart: "{b..<b + n} \<inter> {c..<c + m} = {} \<longleftrightarrow> b + n \<le> c \<or> c + m \<le> b" if "(c, m) \<in> allocs (tags v)" for c m
    using arena_ranges [OF A(1)] that by (intro ranges_apart [OF assms(2)]) blast
  have "(\<forall>(c, m) \<in> allocs (tags v). {b..<b + n} \<inter> {c..<c + m} = {}) \<longleftrightarrow>
      (\<forall>(c, m) \<in> allocs (tags v). b + n \<le> c \<or> c + m \<le> b)"
    using apart by (intro ball_cong) auto
  moreover have "region (tags v) = span_region (lg_spans lg)" using A(3) by (simp add: spans_ok_def)
  ultimately show ?thesis
    unfolding available_def unallocated_def A(5) using in_span_region [OF A(3) assms(2), of b] by simp
qed

lemma rounded_unique:
  assumes "0 < q" "sz \<le> n" "n < sz + q" "q dvd n"
  shows "n = rounded q sz"
proof -
  obtain k where k: "n = k * q" using assms(4) by (auto simp: dvd_def mult.commute)
  have "(sz + (q - 1)) div q = k"
    using assms(1-3) k by (intro div_nat_eqI) (auto simp: mult.commute)
  then show ?thesis using k by (simp add: rounded_def)
qed

lemma round_size_rounded: "vmem_inv v \<Longrightarrow> round_size v sz = Inr n \<Longrightarrow> n = rounded (vm_quantum v) sz"
  by (rule rounded_unique) (use round_size_Inr vmem_invD(4) in \<open>auto intro: power_of_two_pos\<close>)

lemma agrees_grant:
  assumes "agrees q (v, lg)" "allocated v b n w" "unallocated v b n" "0 < n"
  shows "agrees q (w, grant b n lg)"
proof -
  note A = agreesD [OF assms(1)]
  have w: "vmem_inv w" "vm_quantum w = q" "vm_total w = vm_total v" "region (tags w) = region (tags v)"
    "allocs (tags w) = insert (b, n) (allocs (tags v))"
    using assms(2) A(2) by (simp_all add: allocated_def counters_def)
  have "(b, n) \<notin> allocs (tags v)" using assms(3,4) by (fastforce simp: unallocated_def)
  then show ?thesis using w A by (intro agreesI) (simp_all add: grant_def spans_ok_def)
qed

lemma agrees_outcome:
  assumes "agrees q (v, lg)" "alloc_outcome v pool sz al mn mx bad res"
  shows "\<exists>x. map_option (note_grant q sz lg) res = Some x \<and> agrees q x"
proof -
  note A = agreesD [OF assms(1)]
  obtain r w where res: "res = Some (r, w)" using assms(2) by (cases res) (auto simp: alloc_outcome_def)
  show ?thesis
  proof (cases r)
    case (Inl e)
    then have "w = v" using assms(2) res by (cases e) (auto simp: alloc_outcome_def)
    then show ?thesis using res Inl assms(1) by (simp add: note_grant_def)
  next
    case (Inr b)
    then obtain n where n: "round_size v sz = Inr n" "allocated v b n w" "unallocated v b n"
      using assms(2) res by (auto simp: alloc_outcome_def can_place_def)
    have "agrees q (w, grant b n lg)" by (rule agrees_grant [OF assms(1) n(2,3) round_size_Inr(4) [OF A(1) n(1)]])
    then show ?thesis using res Inr round_size_rounded [OF A(1) n(1)] A(2) by (simp add: note_grant_def)
  qed
qed

lemma span_fresh:
  assumes "spans_ok v spans" "\<forall>sp. region (tags v) sp \<inter> {base..<base + sz} = {}" "0 < sz"
  shows "base \<notin> fst ` set spans"
proof
  assume "base \<in> fst ` set spans"
  then obtain m where m: "(base, m) \<in> set spans" by auto
  then have "0 < m" "span_region spans base = {base..<base + m}" "region (tags v) = span_region spans"
    using assms(1) by (auto simp: spans_ok_def span_region_def)
  then have "base \<in> region (tags v) base \<inter> {base..<base + sz}" using assms(3) by simp
  then show False using assms(2) by blast
qed

lemma agrees_add_span:
  assumes "agrees q (v, lg)"
  shows "\<exists>x. client_step q (v, lg) (AddSpan pool base sz) = Some x \<and> agrees q x"
proof -
  note A = agreesD [OF assms] and out = add_span_outcome [OF agreesD(1) [OF assms], of pool base sz]
  obtain r w where run: "add_span pool v base sz = Some (r, w)" using out by (cases "add_span pool v base sz") auto
  show ?thesis
  proof (cases r)
    case (Inl e)
    then show ?thesis using run out assms by simp
  next
    case (Inr u)
    then have w: "vmem_inv w" "counters w = (vm_quantum v, vm_total v + sz, vm_used v)"
      "allocs (tags w) = allocs (tags v)" "region (tags w) = (region (tags v))(base := {base..<base + sz})"
      "\<forall>sp. region (tags v) sp \<inter> {base..<base + sz} = {}" using run out by simp_all
    have sz: "0 < sz"
      using run Inr by (auto simp: add_span_def split: option.splits if_splits)
    have "spans_ok w ((base, sz) # lg_spans lg)"
      using A(3) span_fresh [OF A(3) w(5) sz] w(2,4) sz
      by (auto simp: spans_ok_def counters_def span_region_def fun_eq_iff)
    then have "agrees q (w, lg\<lparr>lg_spans := (base, sz) # lg_spans lg\<rparr>)"
      using A w(1-3) by (intro agreesI) (simp_all add: counters_def)
    then show ?thesis using run Inr by simp
  qed
qed

lemma agrees_free:
  assumes "agrees q (v, lg)" "base \<in> fst ` set (lg_live lg)"
  shows "\<exists>x. client_step q (v, lg) (Free base) = Some x \<and> agrees q x"
proof -
  note A = agreesD [OF assms(1)]
  obtain a where a: "tags v base = Some a" "\<not> seg_free a" using assms(2) A(5) by (auto simp: in_allocs)
  obtain w where w: "vmem_free v base = Some (seg_size a, w)" "vmem_inv w"
    "counters w = (vm_quantum v, vm_total v, vm_used v - seg_size a)"
    "allocs (tags w) = allocs (tags v) - {(base, seg_size a)}" "region (tags w) = region (tags v)"
    using vmem_free_inv [OF A(1) a] by blast
  have "(b, n) \<in> allocs (tags v) \<and> b \<noteq> base \<longleftrightarrow> (b, n) \<in> allocs (tags v) - {(base, seg_size a)}" for b n
    using a by (auto simp: in_allocs)
  then have "{x \<in> set (lg_live lg). case x of (b, _) \<Rightarrow> b \<noteq> base} = allocs (tags w)"
    unfolding w(4) A(5) by auto
  moreover have "spans_ok w (lg_spans lg)" "vm_quantum w = q" using A(2,3) w(3,5) by (simp_all add: spans_ok_def counters_def)
  ultimately have "agrees q (w, lg\<lparr>lg_live := filter (\<lambda>(b, _). b \<noteq> base) (lg_live lg)\<rparr>)"
    using A w(2) by (intro agreesI) simp_all
  then show ?thesis using w(1) by simp
qed

lemma agrees_fixed:
  assumes "agrees q (v, lg)"
  shows "\<exists>x. client_step q (v, lg) (AllocFixed pool base sz) = Some x \<and> agrees q x"
proof -
  note A = agreesD [OF assms] and out = alloc_fixed_outcome [OF agreesD(1) [OF assms], where pool = pool and base = base and sz = sz]
  obtain r w where run: "alloc_fixed pool v base sz = Some (r, w)" using out by (cases "alloc_fixed pool v base sz") auto
  show ?thesis
  proof (cases r)
    case (Inl e)
    then show ?thesis using run out assms by (cases e) auto
  next
    case (Inr u)
    then obtain n where n: "fixed_size v base sz = Inr n" "unallocated v base n" "allocated v base n w" using run out by auto
    note f = fixed_size_Inr(1) [OF n(1)]
    have "agrees q (w, grant base n lg)" by (rule agrees_grant [OF assms n(3,2) round_size_Inr(4) [OF A(1) f]])
    then show ?thesis using run Inr round_size_rounded [OF A(1) f] A(2) by simp
  qed
qed

lemma agrees_reserved:
  assumes "agrees q (v, lg)" "reserve_fixed pool v (res_base r) sz = Inr r" "available lg (res_base r) (res_size r)"
  shows "\<exists>x. client_step q (v, lg) (AllocReserved r) = Some x \<and> agrees q x"
proof -
  note A = agreesD [OF assms(1)]
  obtain n where n: "fixed_size v (res_base r) sz = Inr n" "res_size r = n" using reserve_fixed_Inr [OF assms(2)] by (metis reservation.select_convs(2))
  then have pos: "0 < res_size r" using round_size_Inr(4) [OF A(1) fixed_size_Inr(1) [OF n(1)]] by simp
  have free: "unallocated v (res_base r) (res_size r)" using available_unallocated [OF assms(1) pos] assms(3) by simp
  obtain w where "alloc_reserved v r = Some w" "allocated v (res_base r) (res_size r) w"
    using alloc_reserved_outcome [OF A(1) assms(2) refl free] by blast
  then show ?thesis using agrees_grant [OF assms(1) _ free pos] by simp
qed

interpretation client: safe_machine "client_step q" client_ok "agrees q"
proof unfold_locales
  fix x c
  assume x: "agrees q x" and ok: "client_ok x c"
  obtain v lg where v: "x = (v, lg)" by (cases x)
  note A = agreesD [OF x [unfolded v]]
  show "\<exists>y. client_step q x c = Some y \<and> agrees q y"
  proof (cases c)
    case (AddSpan pool base sz)
    then show ?thesis using agrees_add_span x v by simp
  next
    case (Xalloc pool sz al mn mx fit)
    then show ?thesis using agrees_outcome [OF x [unfolded v] xalloc_outcome [OF A(1)]] ok v by simp
  next
    case (AllocRandom pool sz al entropy)
    then show ?thesis using agrees_outcome [OF x [unfolded v] alloc_random_outcome [OF A(1)]] ok v by simp
  next
    case (AllocFixed pool base sz)
    then show ?thesis using agrees_fixed x v by simp
  next
    case (AllocReserved r)
    then show ?thesis using agrees_reserved [of q v lg] x ok v by auto
  next
    case (Free base)
    then show ?thesis using agrees_free x ok v by simp
  qed
qed

lemma agrees_new:
  assumes "is_power_of_two q" "q < u64_limit"
  shows "\<exists>v. vmem_new q = Some v \<and> agrees q (v, ledger_new)"
proof -
  obtain v where v: "vmem_new q = Some v" "vmem_inv v" "counters v = (q, 0, 0)" "allocs (tags v) = {}"
    "region (tags v) = (\<lambda>_. {})" using vmem_new_inv [OF assms] by blast
  then have "agrees q (v, ledger_new)"
    by (intro agreesI) (simp_all add: ledger_new_def spans_ok_def counters_def span_region_def fun_eq_iff)
  then show ?thesis using v(1) by blast
qed

lemma session_agrees:
  assumes "is_power_of_two q" "q < u64_limit" "admissible (client_step q) client_ok (the (vmem_new q), ledger_new) calls"
  shows "\<exists>w lg. run_ops (client_step q) (the (vmem_new q), ledger_new) calls = Some (w, lg) \<and> agrees q (w, lg)"
proof -
  obtain v where "vmem_new q = Some v" "agrees q (v, ledger_new)" using agrees_new [OF assms(1,2)] by blast
  then obtain y where "run_ops (client_step q) (the (vmem_new q), ledger_new) calls = Some y" "agrees q y"
    using client.run_safe [of q "(the (vmem_new q), ledger_new)" calls] assms(3) by auto
  then show ?thesis by (cases y) auto
qed

section \<open>Properties\<close>

definition apart :: "(nat \<times> nat) list \<Rightarrow> bool" where
  \<comment> \<open>different ranges of the list do not meet\<close>
  "apart xs \<longleftrightarrow> (\<forall>(b, n) \<in> set xs. \<forall>(c, m) \<in> set xs. (b, n) \<noteq> (c, m) \<longrightarrow> b + n \<le> c \<or> c + m \<le> b)"

lemma live_apart:
  assumes "agrees q (v, lg)"
  shows "apart (lg_live lg)"
proof -
  note A = agreesD [OF assms]
  have "b + n \<le> c \<or> c + m \<le> b"
    if "(b, n) \<in> set (lg_live lg)" "(c, m) \<in> set (lg_live lg)" "(b, n) \<noteq> (c, m)" for b n c m
  proof -
    have "0 < n" "0 < m" "{b..<b + n} \<inter> {c..<c + m} = {}"
      using arena_ranges [OF A(1)] that unfolding A(5) by blast+
    then show ?thesis using ranges_apart [of n m b c] by blast
  qed
  then show ?thesis unfolding apart_def by blast
qed

lemma used_live:
  assumes "agrees q (v, lg)"
  shows "vm_used v = sum_list (map snd (lg_live lg))"
proof -
  note A = agreesD [OF assms]
  have "vm_used v = (\<Sum>(b, n) \<in> set (lg_live lg). n)" using arena_ranges [OF A(1)] unfolding A(5) by blast
  also have "\<dots> = sum_list (map snd (lg_live lg))"
    using A(4) by (simp add: sum.distinct_set_conv_list split_beta)
  finally show ?thesis .
qed

text \<open>
  C7. The arena never grants the same address twice. After any sequence of calls by clients that
  only free what they hold, whatever the tag pool answers, the ranges that were granted and not
  given back, as the clients recorded them from the results of their calls, are distinct and do
  not meet; each is non-empty, aligned to the quantum and inside a span that was added. The two
  counters of the arena are the sums of the sizes of the live ranges and of the spans.
\<close>

theorem grants_disjoint:
  assumes "is_power_of_two q" "q < u64_limit" "admissible (client_step q) client_ok (the (vmem_new q), ledger_new) calls"
  shows "\<exists>w lg. run_ops (client_step q) (the (vmem_new q), ledger_new) calls = Some (w, lg) \<and>
    distinct (lg_live lg) \<and> apart (lg_live lg) \<and>
    (\<forall>(b, n) \<in> set (lg_live lg). 0 < n \<and> q dvd b \<and> q dvd n \<and> (\<exists>(s, m) \<in> set (lg_spans lg). s \<le> b \<and> b + n \<le> s + m)) \<and>
    vm_used w = sum_list (map snd (lg_live lg)) \<and> vm_total w = sum_list (map snd (lg_spans lg))"
proof -
  obtain w lg where run: "run_ops (client_step q) (the (vmem_new q), ledger_new) calls = Some (w, lg)"
    and ag: "agrees q (w, lg)" using session_agrees [OF assms] by blast
  note A = agreesD [OF ag]
  have "0 < n \<and> q dvd b \<and> q dvd n \<and> (\<exists>(s, m) \<in> set (lg_spans lg). s \<le> b \<and> b + n \<le> s + m)"
    if bn: "(b, n) \<in> set (lg_live lg)" for b n
  proof -
    have r: "0 < n" "q dvd b" "q dvd n" "\<exists>sp. {b..<b + n} \<subseteq> region (tags w) sp"
      using arena_ranges [OF A(1)] bn unfolding A(5) A(2) by blast+
    moreover have "region (tags w) = span_region (lg_spans lg)" using A(3) by (simp add: spans_ok_def)
    ultimately show ?thesis using in_span_region [OF A(3) r(1), of b] by simp
  qed
  moreover have "vm_total w = sum_list (map snd (lg_spans lg))" using A(3) by (simp add: spans_ok_def)
  ultimately show ?thesis using run A(4) live_apart [OF ag] used_live [OF ag] by blast
qed

definition demo_calls :: "vmem_op list" where
  "demo_calls = [AddSpan (\<lambda>_. True) 64 256, Xalloc (\<lambda>_. True) 100 64 0 U64_MAX Best, AllocFixed (\<lambda>_. True) 288 16]"

lemma demo_session: "admissible (client_step 16) client_ok (the (vmem_new 16), ledger_new) demo_calls"
  by (auto simp: demo_calls_def note_grant_def split: option.split sum.splits prod.splits)

theorem grants_disjoint_witness:
  "\<exists>w lg. run_ops (client_step 16) (the (vmem_new 16), ledger_new) demo_calls = Some (w, lg) \<and> apart (lg_live lg)"
  using grants_disjoint [OF demo_quantum(1) _ demo_session] by auto

lemma fixed_size_aligned:
  assumes "vmem_inv v" "vm_quantum v dvd b" "vm_quantum v dvd n" "0 < n" "b + n < u64_limit" "n + vm_quantum v \<le> u64_limit"
  shows "round_size v n = Inr n" "fixed_size v b n = Inr n"
proof -
  have q: "0 < vm_quantum v" using vmem_invD(4) [OF assms(1)] by (rule power_of_two_pos)
  obtain m where m: "round_size v n = Inr m"
    using round_size_Inl [of v n] assms(4,6) q by (cases "round_size v n") auto
  have "m = n" using round_size_rounded [OF assms(1) m] rounded_unique [of "vm_quantum v" n n] q assms(3) by simp
  then show "round_size v n = Inr n" using m by simp
  then show "fixed_size v b n = Inr n" using assms(2,5) by (simp add: fixed_size_def checked_add_def)
qed

lemma available_bound: "agrees q (v, lg) \<Longrightarrow> 0 < n \<Longrightarrow> available lg b n \<Longrightarrow> b + n < u64_limit"
  using available_unallocated [of q v lg n b] unallocated_bound [of v n b] agreesD(1) by (fastforce simp: U64_MAX_def)

text \<open>
  C4. The arena loses nothing: after any such sequence of calls, what can be allocated depends only
  on the spans and the live ranges in the clients' ledger. A fixed range is granted exactly when
  it lies in a span and meets no live range, and a constrained allocation succeeds exactly when
  some aligned range within its bounds does. In particular a span can be allocated in one piece
  again as soon as everything in it has been freed, however it was cut up before. The tag pool
  answers.
\<close>

theorem arena_loses_nothing:
  assumes "is_power_of_two q" "q < u64_limit" "admissible (client_step q) client_ok (the (vmem_new q), ledger_new) calls"
    and "q dvd n" "0 < n" "n + q \<le> u64_limit" "is_power_of_two align" "align < u64_limit" "mn < mx"
  shows "\<exists>w lg. run_ops (client_step q) (the (vmem_new q), ledger_new) calls = Some (w, lg) \<and>
    (\<forall>b. q dvd b \<longrightarrow> ((\<exists>w'. alloc_fixed (\<lambda>_. True) w b n = Some (Inr (), w')) \<longleftrightarrow> available lg b n)) \<and>
    ((\<exists>b w'. xalloc (\<lambda>_. True) w n align mn mx fit = Some (Inr b, w')) \<longleftrightarrow>
      (\<exists>b. max align q dvd b \<and> mn \<le> b \<and> b + n \<le> mx \<and> available lg b n))"
proof -
  obtain w lg where run: "run_ops (client_step q) (the (vmem_new q), ledger_new) calls = Some (w, lg)"
    and ag: "agrees q (w, lg)" using session_agrees [OF assms(1-3)] by blast
  note A = agreesD [OF ag] and av = available_unallocated [OF ag assms(5)]
  have "n < u64_limit" using assms(6) power_of_two_pos [OF assms(1)] by linarith
  then have size: "round_size w n = Inr n" using fixed_size_aligned(1) [OF A(1), of 0 n] A(2) assms(4-6) by simp
  have "(\<exists>w'. alloc_fixed (\<lambda>_. True) w b n = Some (Inr (), w')) \<longleftrightarrow> available lg b n" if b: "q dvd b" for b
  proof (cases "b + n < u64_limit")
    case True
    have f: "fixed_size w b n = Inr n" using fixed_size_aligned(2) [OF A(1)] A(2) b assms(4-6) True by blast
    note out = alloc_fixed_outcome [OF A(1), where pool = "\<lambda>_. True" and base = b and sz = n]
    obtain r w' where r: "alloc_fixed (\<lambda>_. True) w b n = Some (r, w')"
      using out by (cases "alloc_fixed (\<lambda>_. True) w b n") auto
    show ?thesis
    proof (cases r)
      case (Inl e)
      then show ?thesis using out r f av [of b] by (cases e) simp_all
    next
      case (Inr u)
      then show ?thesis using out r f av [of b] by simp
    qed
  next
    case False
    then have "fixed_size w b n = Inl Invalid" using size by (simp add: fixed_size_def checked_add_def)
    then show ?thesis using False available_bound [OF ag assms(5), of b] by (auto simp: alloc_fixed_def)
  qed
  moreover have "(\<exists>b w'. xalloc (\<lambda>_. True) w n align mn mx fit = Some (Inr b, w')) \<longleftrightarrow>
      (\<exists>b. max align q dvd b \<and> mn \<le> b \<and> b + n \<le> mx \<and> available lg b n)"
  proof -
    have out: "alloc_outcome w (\<lambda>_. True) n align mn mx False (xalloc (\<lambda>_. True) w n align mn mx fit)"
      using xalloc_outcome [OF A(1) assms(8), of "\<lambda>_. True" n mn mx fit] assms(7,9) by simp
    obtain r w' where r: "xalloc (\<lambda>_. True) w n align mn mx fit = Some (r, w')"
      using out by (cases "xalloc (\<lambda>_. True) w n align mn mx fit") (auto simp: alloc_outcome_def)
    show ?thesis
    proof (cases r)
      case (Inl e)
      then show ?thesis using out r size av A(2) by (cases e) (simp_all add: alloc_outcome_def can_place_def)
    next
      case (Inr b)
      then have "max align q dvd b \<and> mn \<le> b \<and> b + n \<le> mx \<and> available lg b n"
        using out r size av A(2) by (simp add: alloc_outcome_def can_place_def)
      then show ?thesis using r Inr by blast
    qed
  qed
  ultimately show ?thesis using run by blast
qed

theorem arena_loses_nothing_witness:
  "\<exists>w lg. run_ops (client_step 16) (the (vmem_new 16), ledger_new) demo_calls = Some (w, lg) \<and>
    ((\<exists>w'. alloc_fixed (\<lambda>_. True) w 64 32 = Some (Inr (), w')) \<longleftrightarrow> available lg 64 32)"
proof -
  have size: "(16::nat) < u64_limit" "(16::nat) dvd 32" "(0::nat) < 32" "32 + 16 \<le> (u64_limit :: nat)" "0 < U64_MAX"
    by (simp_all add: U64_MAX_def)
  obtain w lg where "run_ops (client_step 16) (the (vmem_new 16), ledger_new) demo_calls = Some (w, lg)"
    "\<forall>b. 16 dvd b \<longrightarrow> ((\<exists>w'. alloc_fixed (\<lambda>_. True) w b 32 = Some (Inr (), w')) \<longleftrightarrow> available lg b 32)"
    using arena_loses_nothing [OF demo_quantum(1) size(1) demo_session size(2-4) demo_quantum(1) size(1,5), of Best]
    by (elim exE conjE) (rule that)
  moreover have "(16::nat) dvd 64" by simp
  ultimately show ?thesis by (intro exI [of _ w] exI [of _ lg] conjI) simp_all
qed

end
