(* ===== verification/Errors.thy ===== *)
theory Errors
  imports Prelude
begin

text \<open>
  The error types shared by the filesystem layer (\<open>kernel/src/fs/error.rs\<close>) and the driver
  framework (\<open>kernel/src/driver/error.rs\<close>), the status codes of the driver interface, and the
  conversions between the two types. Status codes are 32-bit signed integers in the source and
  integers here: no operation computes with them.
\<close>

datatype fs_error =
    NotFound | AlreadyExists | NotDirectory | IllegalSeek | IsDirectory | NotTty | Interrupted
  | NotEmpty | CrossDevice | SymlinkLoop | NameTooLong | InvalidArgument | Unsupported | Busy
  | WouldBlock | FsNoSpace | FileTooLarge | PermissionDenied | ReadOnly | BadFileDescriptor
  | FsOutOfMemory | FsIo

datatype drv_error =
    DrvInvalidArgument | DrvNotFound | DrvAlreadyExists | DrvWrongKind | DrvPermissionDenied | DrvBusy
  | DrvUnsupported | DrvNoSpace | DrvOutOfMemory | DrvIo | DrvWouldBlock | DrvInterrupted
  | DrvDeadlock | DrvDeferred | DrvNotInitialized | DrvTimedOut | DrvNoDevice | DrvBufferTooSmall
  | DrvNotTty | DrvIllegalSeek | DrvFilesystem | DrvNotDirectory | DrvIsDirectory | DrvNotEmpty
  | DrvCrossDevice | DrvSymlinkLoop | DrvNameTooLong | DrvFileTooLarge | DrvReadOnly
  | DrvBadFileDescriptor | DrvCallback int

definition STATUS_OK :: int where
  "STATUS_OK = 0"

fun error_to_status :: "drv_error \<Rightarrow> int" where
  "error_to_status DrvInvalidArgument = -1"
| "error_to_status DrvNotFound = -2"
| "error_to_status DrvAlreadyExists = -3"
| "error_to_status DrvWrongKind = -4"
| "error_to_status DrvPermissionDenied = -5"
| "error_to_status DrvBusy = -6"
| "error_to_status DrvUnsupported = -7"
| "error_to_status DrvNoSpace = -8"
| "error_to_status DrvOutOfMemory = -9"
| "error_to_status DrvIo = -10"
| "error_to_status DrvWouldBlock = -11"
| "error_to_status DrvInterrupted = -12"
| "error_to_status DrvDeadlock = -13"
| "error_to_status DrvDeferred = -14"
| "error_to_status DrvNotInitialized = -15"
| "error_to_status DrvTimedOut = -16"
| "error_to_status DrvNoDevice = -17"
| "error_to_status DrvBufferTooSmall = -18"
| "error_to_status DrvNotTty = -19"
| "error_to_status DrvIllegalSeek = -20"
| "error_to_status DrvFilesystem = -21"
| "error_to_status DrvNotDirectory = -22"
| "error_to_status DrvIsDirectory = -23"
| "error_to_status DrvNotEmpty = -24"
| "error_to_status DrvCrossDevice = -25"
| "error_to_status DrvSymlinkLoop = -26"
| "error_to_status DrvNameTooLong = -27"
| "error_to_status DrvFileTooLarge = -28"
| "error_to_status DrvReadOnly = -29"
| "error_to_status DrvBadFileDescriptor = -30"
| "error_to_status (DrvCallback status) = status"

definition status_table :: "(int \<times> drv_error) list" where
  \<comment> \<open>the arms of the match in \<open>from_status\<close>, in order\<close>
  "status_table =
     [(-1, DrvInvalidArgument), (-2, DrvNotFound), (-3, DrvAlreadyExists), (-4, DrvWrongKind),
      (-5, DrvPermissionDenied), (-6, DrvBusy), (-7, DrvUnsupported), (-8, DrvNoSpace),
      (-9, DrvOutOfMemory), (-10, DrvIo), (-11, DrvWouldBlock), (-12, DrvInterrupted),
      (-13, DrvDeadlock), (-14, DrvDeferred), (-15, DrvNotInitialized), (-16, DrvTimedOut),
      (-17, DrvNoDevice), (-18, DrvBufferTooSmall), (-19, DrvNotTty), (-20, DrvIllegalSeek),
      (-21, DrvFilesystem), (-22, DrvNotDirectory), (-23, DrvIsDirectory), (-24, DrvNotEmpty),
      (-25, DrvCrossDevice), (-26, DrvSymlinkLoop), (-27, DrvNameTooLong), (-28, DrvFileTooLarge),
      (-29, DrvReadOnly), (-30, DrvBadFileDescriptor)]"

definition error_from_status :: "int \<Rightarrow> drv_error" where
  "error_from_status status = (case map_of status_table status of
     Some e \<Rightarrow> e | None \<Rightarrow> DrvCallback status)"

definition is_deferred :: "drv_error \<Rightarrow> bool" where
  "is_deferred e \<longleftrightarrow> e = DrvDeferred"

definition to_status :: "drv_error + unit \<Rightarrow> int" where
  "to_status r = (case r of Inr _ \<Rightarrow> STATUS_OK | Inl e \<Rightarrow> error_to_status e)"

definition from_status :: "int \<Rightarrow> drv_error + unit" where
  "from_status status = (if 0 \<le> status then Inr () else Inl (error_from_status status))"

fun drv_of_fs :: "fs_error \<Rightarrow> drv_error" where
  "drv_of_fs NotFound = DrvNotFound"
| "drv_of_fs AlreadyExists = DrvAlreadyExists"
| "drv_of_fs NotDirectory = DrvNotDirectory"
| "drv_of_fs IllegalSeek = DrvIllegalSeek"
| "drv_of_fs IsDirectory = DrvIsDirectory"
| "drv_of_fs NotTty = DrvNotTty"
| "drv_of_fs Interrupted = DrvInterrupted"
| "drv_of_fs NotEmpty = DrvNotEmpty"
| "drv_of_fs CrossDevice = DrvCrossDevice"
| "drv_of_fs SymlinkLoop = DrvSymlinkLoop"
| "drv_of_fs NameTooLong = DrvNameTooLong"
| "drv_of_fs InvalidArgument = DrvInvalidArgument"
| "drv_of_fs Unsupported = DrvUnsupported"
| "drv_of_fs Busy = DrvBusy"
| "drv_of_fs WouldBlock = DrvWouldBlock"
| "drv_of_fs FsNoSpace = DrvNoSpace"
| "drv_of_fs FileTooLarge = DrvFileTooLarge"
| "drv_of_fs PermissionDenied = DrvPermissionDenied"
| "drv_of_fs ReadOnly = DrvReadOnly"
| "drv_of_fs BadFileDescriptor = DrvBadFileDescriptor"
| "drv_of_fs FsOutOfMemory = DrvOutOfMemory"
| "drv_of_fs FsIo = DrvFilesystem"

fun fs_of_drv :: "drv_error \<Rightarrow> fs_error" where
  "fs_of_drv DrvInvalidArgument = InvalidArgument"
| "fs_of_drv DrvNotFound = NotFound"
| "fs_of_drv DrvAlreadyExists = AlreadyExists"
| "fs_of_drv DrvWrongKind = Unsupported"
| "fs_of_drv DrvPermissionDenied = PermissionDenied"
| "fs_of_drv DrvBusy = Busy"
| "fs_of_drv DrvUnsupported = Unsupported"
| "fs_of_drv DrvNoSpace = FsNoSpace"
| "fs_of_drv DrvOutOfMemory = FsOutOfMemory"
| "fs_of_drv DrvIo = FsIo"
| "fs_of_drv DrvWouldBlock = WouldBlock"
| "fs_of_drv DrvInterrupted = Interrupted"
| "fs_of_drv DrvDeadlock = FsIo"
| "fs_of_drv DrvDeferred = Busy"
| "fs_of_drv DrvNotInitialized = FsIo"
| "fs_of_drv DrvTimedOut = FsIo"
| "fs_of_drv DrvNoDevice = NotFound"
| "fs_of_drv DrvBufferTooSmall = InvalidArgument"
| "fs_of_drv DrvNotTty = NotTty"
| "fs_of_drv DrvIllegalSeek = IllegalSeek"
| "fs_of_drv DrvFilesystem = FsIo"
| "fs_of_drv DrvNotDirectory = NotDirectory"
| "fs_of_drv DrvIsDirectory = IsDirectory"
| "fs_of_drv DrvNotEmpty = NotEmpty"
| "fs_of_drv DrvCrossDevice = CrossDevice"
| "fs_of_drv DrvSymlinkLoop = SymlinkLoop"
| "fs_of_drv DrvNameTooLong = NameTooLong"
| "fs_of_drv DrvFileTooLarge = FileTooLarge"
| "fs_of_drv DrvReadOnly = ReadOnly"
| "fs_of_drv DrvBadFileDescriptor = BadFileDescriptor"
| "fs_of_drv (DrvCallback _) = FsIo"

section \<open>Properties\<close>

definition proper_error :: "drv_error \<Rightarrow> bool" where
  \<comment> \<open>every variant but a callback status that the table already names, or that is no error\<close>
  "proper_error e \<longleftrightarrow> (case e of DrvCallback s \<Rightarrow> s < -30 | _ \<Rightarrow> True)"

lemma status_table_negative: "map_of status_table s = Some e \<Longrightarrow> s < 0 \<and> error_to_status e = s"
  by (auto simp: status_table_def split: if_splits)

lemma status_table_none: "s < -30 \<Longrightarrow> map_of status_table s = None"
  by (simp add: status_table_def)

text \<open>
  The status encoding of driver errors is a round trip in both directions: every negative
  status decodes to an error that encodes to the same status, and every proper error (not a
  callback status that stands for success or for another variant) is negative and decodes to
  itself.
\<close>
theorem status_roundtrip:
  "to_status (from_status s) = min s 0 \<and>
   (proper_error e \<longrightarrow> to_status (Inl e) < 0 \<and> from_status (to_status (Inl e)) = Inl e)"
proof
  show "to_status (from_status s) = min s 0"
    using status_table_negative [of s]
    by (auto simp: to_status_def from_status_def STATUS_OK_def error_from_status_def split: option.split)
  show "proper_error e \<longrightarrow> to_status (Inl e) < 0 \<and> from_status (to_status (Inl e)) = Inl e"
    by (cases e) (auto simp: to_status_def from_status_def error_from_status_def status_table_none
      proper_error_def status_table_def)
qed

theorem status_roundtrip_witness:
  "to_status (from_status (-14)) = -14 \<and> from_status (to_status (Inl (DrvCallback (-95)))) = Inl (DrvCallback (-95))"
  using status_roundtrip [of "-14" "DrvCallback (-95)"] by (simp add: proper_error_def)

text \<open>
  A filesystem error that passes through the driver framework and returns to the
  filesystem layer is the same error.
\<close>
theorem fs_error_roundtrip: "fs_of_drv (drv_of_fs e) = e"
  by (cases e) simp_all

end
