(* ===== verification/Path.thy ===== *)
theory Path
  imports Errors
begin

text \<open>
  Model of \<open>kernel/src/fs/path.rs\<close>. Paths are byte strings; the component iterator keeps the path and a position, as in the source. The
  lemmas show that the iterator enumerates the nonempty pieces between separators, that
  \<open>parse\<close> accepts exactly the well-formed paths, and that \<open>split_parent\<close> cuts off exactly the
  last component.
\<close>

section \<open>Limits and bytes\<close>

definition MAX_PATH_LEN :: nat where "MAX_PATH_LEN = 4096"
definition MAX_NAME_LEN :: nat where "MAX_NAME_LEN = 255"
definition MAX_SYMLINK_DEPTH :: nat where "MAX_SYMLINK_DEPTH = 8"

abbreviation SLASH :: u8 where "SLASH \<equiv> 47"
abbreviation DOT :: u8 where "DOT \<equiv> 46"

section \<open>The component iterator\<close>

record components =
  cp_path :: "u8 list"
  cp_position :: nat

definition components_new :: "u8 list \<Rightarrow> components" where
  "components_new path = \<lparr>cp_path = path, cp_position = 0\<rparr>"

function advance_while :: "(u8 \<Rightarrow> bool) \<Rightarrow> u8 list \<Rightarrow> nat \<Rightarrow> nat" where
  \<comment> \<open>the two loops that move the position over bytes satisfying the condition\<close>
  "advance_while P path position =
     (if position < length path \<and> P (path ! position)
      then advance_while P path (position + 1) else position)"
  by pat_completeness auto
termination by (relation "measure (\<lambda>(_, path, position). length path - position)") auto

declare advance_while.simps [simp del]

definition components_next :: "components \<Rightarrow> u8 list option \<times> components" where
  "components_next c =
     (let start = advance_while (\<lambda>b. b = SLASH) (cp_path c) (cp_position c) in
      if start = length (cp_path c) then (None, c\<lparr>cp_position := start\<rparr>)
      else let stop = advance_while (\<lambda>b. b \<noteq> SLASH) (cp_path c) start in
        (Some (take (stop - start) (drop start (cp_path c))), c\<lparr>cp_position := stop\<rparr>))"

definition components_peek :: "components \<Rightarrow> u8 list option" where
  "components_peek c = fst (components_next c)"

lemma advance_while_spec:
  assumes "position \<le> length path"
  shows "advance_while P path position = position + length (takeWhile P (drop position path))"
  using assms
proof (induction P path position rule: advance_while.induct)
  case (1 P path position)
  show ?case
  proof (cases "position < length path \<and> P (path ! position)")
    case True
    then have "drop position path = path ! position # drop (position + 1) path"
      by (simp add: Cons_nth_drop_Suc)
    with True "1.IH" show ?thesis by (subst advance_while.simps) simp
  next
    case False
    then have "takeWhile P (drop position path) = []"
      using "1.prems" by (cases "position < length path") (auto simp: Cons_nth_drop_Suc [symmetric])
    with False show ?thesis by (subst advance_while.simps) auto
  qed
qed

lemma components_next_advances:
  assumes "cp_position c < length (cp_path c)" "components_next c = (Some x, d)"
  shows "cp_path d = cp_path c" "cp_position c < cp_position d" "cp_position d \<le> length (cp_path c)"
proof -
  let ?p = "cp_path c" and ?i = "cp_position c"
  define start where "start = advance_while (\<lambda>b. b = SLASH) ?p ?i"
  have start: "start = ?i + length (takeWhile (\<lambda>b. b = SLASH) (drop ?i ?p))"
    unfolding start_def by (rule advance_while_spec) (use assms(1) in simp)
  have le: "start \<le> length ?p"
    using length_takeWhile_le [of "\<lambda>b. b = SLASH" "drop ?i ?p"] assms(1) start by simp
  from assms(2) have ne: "start \<noteq> length ?p"
    and d: "d = c\<lparr>cp_position := advance_while (\<lambda>b. b \<noteq> SLASH) ?p start\<rparr>"
    by (auto simp: components_next_def Let_def start_def split: if_splits)
  have q: "drop start ?p = dropWhile (\<lambda>b. b = SLASH) (drop ?i ?p)"
    unfolding start dropWhile_eq_drop by (simp add: add.commute)
  have "drop start ?p \<noteq> []" using ne le by simp
  then have "hd (drop start ?p) \<noteq> SLASH"
    unfolding q by (rule hd_dropWhile)
  then have "takeWhile (\<lambda>b. b \<noteq> SLASH) (drop start ?p) \<noteq> []"
    using ne le by (cases "drop start ?p") auto
  moreover have "advance_while (\<lambda>b. b \<noteq> SLASH) ?p start =
      start + length (takeWhile (\<lambda>b. b \<noteq> SLASH) (drop start ?p))"
    by (rule advance_while_spec [OF le])
  moreover note length_takeWhile_le [of "\<lambda>b. b \<noteq> SLASH" "drop start ?p"]
  ultimately show "cp_path d = ?p" "?i < cp_position d" "cp_position d \<le> length ?p"
    using d start le by auto
qed

function components_rest :: "components \<Rightarrow> u8 list list" where
  \<comment> \<open>what a \<open>for\<close> loop over the iterator visits; the position never passes the end\<close>
  "components_rest c =
     (if cp_position c < length (cp_path c) then
        (case components_next c of (None, _) \<Rightarrow> [] | (Some x, d) \<Rightarrow> x # components_rest d)
      else [])"
  by pat_completeness auto
termination
proof (relation "measure (\<lambda>c. length (cp_path c) - cp_position c)")
  fix c o' d x
  assume "cp_position c < length (cp_path c)" "(o', d) = components_next c" "o' = Some x"
  then show "(d, c) \<in> measure (\<lambda>c. length (cp_path c) - cp_position c)"
    using components_next_advances [of c x d] by auto
qed simp

declare components_rest.simps [simp del]

section \<open>Validation\<close>

definition validate_path :: "u8 list \<Rightarrow> fs_error + unit" where
  "validate_path path =
     (if length path > MAX_PATH_LEN then Inl NameTooLong
      else if path = [] \<or> 0 \<in> set path then Inl InvalidArgument
      else Inr ())"

definition validate_name :: "u8 list \<Rightarrow> fs_error + unit" where
  "validate_name name =
     (if length name > MAX_NAME_LEN then Inl NameTooLong
      else if name = [] \<or> 0 \<in> set name \<or> SLASH \<in> set name then Inl InvalidArgument
      else Inr ())"

definition validate_leaf_name :: "u8 list \<Rightarrow> fs_error + unit" where
  "validate_leaf_name name =
     (case validate_name name of
        Inl e \<Rightarrow> Inl e
      | Inr _ \<Rightarrow> if name = [DOT] \<or> name = [DOT, DOT] then Inl InvalidArgument else Inr ())"

definition validate_symlink_target :: "u8 list \<Rightarrow> fs_error + unit" where
  "validate_symlink_target target =
     (if target = [] \<or> 0 \<in> set target then Inl InvalidArgument
      else if length target > MAX_PATH_LEN then Inl NameTooLong
      else Inr ())"

section \<open>Parsing\<close>

record parsed_path =
  pp_absolute :: bool
  pp_trailing_slash :: bool
  pp_components :: components

fun validate_all :: "u8 list list \<Rightarrow> fs_error + unit" where
  "validate_all [] = Inr ()"
| "validate_all (c # cs) = (case validate_name c of Inl e \<Rightarrow> Inl e | Inr _ \<Rightarrow> validate_all cs)"

definition first_byte :: "u8 list \<Rightarrow> u8 option" where
  "first_byte path = (case path of [] \<Rightarrow> None | b # _ \<Rightarrow> Some b)"

definition last_byte :: "u8 list \<Rightarrow> u8 option" where
  "last_byte path = (if path = [] then None else Some (last path))"

definition path_parse :: "u8 list \<Rightarrow> fs_error + parsed_path" where
  "path_parse path =
     (case validate_path path of Inl e \<Rightarrow> Inl e | Inr _ \<Rightarrow>
      case validate_all (components_rest (components_new path)) of Inl e \<Rightarrow> Inl e | Inr _ \<Rightarrow>
        Inr \<lparr>pp_absolute = (first_byte path = Some SLASH),
             pp_trailing_slash = (last_byte path = Some SLASH),
             pp_components = components_new path\<rparr>)"

record parent_path =
  pn_parent :: "u8 list"
  pn_name :: "u8 list"
  pn_trailing_slash :: bool

fun strip_trailing :: "u8 list \<Rightarrow> nat \<Rightarrow> nat" where
  "strip_trailing path stop =
     (if stop > 1 \<and> path ! (stop - 1) = SLASH then strip_trailing path (stop - 1) else stop)"

declare strip_trailing.simps [simp del]

fun rposition :: "(u8 \<Rightarrow> bool) \<Rightarrow> u8 list \<Rightarrow> nat option" where
  "rposition P [] = None"
| "rposition P (b # bs) =
     (case rposition P bs of Some i \<Rightarrow> Some (Suc i) | None \<Rightarrow> if P b then Some 0 else None)"

definition split_parent :: "u8 list \<Rightarrow> fs_error + parent_path" where
  "split_parent path =
     (case validate_path path of Inl e \<Rightarrow> Inl e | Inr _ \<Rightarrow>
      (let trailing_slash = (last_byte path = Some SLASH);
           path = take (strip_trailing path (length path)) path;
           (parent, name) = (case rposition (\<lambda>b. b = SLASH) path of
              None \<Rightarrow> ([DOT], path)
            | Some index \<Rightarrow> if index = 0 then (take 1 path, drop 1 path)
                            else (take index path, drop (index + 1) path))
       in case validate_leaf_name name of Inl e \<Rightarrow> Inl e | Inr _ \<Rightarrow>
            Inr \<lparr>pn_parent = parent, pn_name = name, pn_trailing_slash = trailing_slash\<rparr>))"

section \<open>Splitting at separators\<close>

text \<open>The reference: the pieces between separators, and the nonempty ones among them.\<close>

fun pieces :: "u8 list \<Rightarrow> u8 list list" where
  "pieces [] = [[]]"
| "pieces (b # bs) = (if b = SLASH then [] # pieces bs
     else (case pieces bs of [] \<Rightarrow> [[b]] | p # ps \<Rightarrow> (b # p) # ps))"

definition names :: "u8 list \<Rightarrow> u8 list list" where
  "names path = filter (\<lambda>p. p \<noteq> []) (pieces path)"

lemma pieces_not_Nil [simp]: "pieces p \<noteq> []"
  by (cases p) (auto split: list.splits)

lemma pieces_no_slash: "SLASH \<notin> set p \<Longrightarrow> pieces p = [p]"
  by (induction p) auto

lemma pieces_append: "pieces (p @ SLASH # q) = pieces p @ pieces q"
proof (induction p)
  case (Cons b p)
  then show ?case by (cases "pieces p") auto
qed simp

lemma pieces_free: "x \<in> set (pieces p) \<Longrightarrow> SLASH \<notin> set x"
proof (induction p arbitrary: x)
  case (Cons b p)
  then show ?case by (cases "pieces p") (auto split: if_splits)
qed auto

lemma names_append: "names (p @ SLASH # q) = names p @ names q"
  by (simp add: names_def pieces_append)

lemma names_no_slash: "SLASH \<notin> set p \<Longrightarrow> names p = (if p = [] then [] else [p])"
  by (simp add: names_def pieces_no_slash)

lemma names_slash [simp]: "names (SLASH # p) = names p"
  by (simp add: names_def)

lemma names_Nil [simp]: "names [] = []"
  by (simp add: names_def)

lemma names_slashes: "(\<forall>b \<in> set s. b = SLASH) \<Longrightarrow> names (s @ p) = names p"
  by (induction s) auto

lemma names_trailing: "names (p @ [SLASH]) = names p"
  using names_append [of p "[]"] by simp

lemma names_step:
  assumes "q = dropWhile (\<lambda>b. b = SLASH) p"
  shows "names p = (if q = [] then []
    else takeWhile (\<lambda>b. b \<noteq> SLASH) q # names (dropWhile (\<lambda>b. b \<noteq> SLASH) q))"
proof -
  have "names p = names q"
  proof -
    have "names (takeWhile (\<lambda>b. b = SLASH) p @ dropWhile (\<lambda>b. b = SLASH) p) =
        names (dropWhile (\<lambda>b. b = SLASH) p)"
      by (rule names_slashes) (auto dest: set_takeWhileD)
    then show ?thesis using assms by simp
  qed
  moreover have "names q = takeWhile (\<lambda>b. b \<noteq> SLASH) q # names (dropWhile (\<lambda>b. b \<noteq> SLASH) q)"
    if "q \<noteq> []"
  proof -
    let ?t = "takeWhile (\<lambda>b. b \<noteq> SLASH) q" and ?d = "dropWhile (\<lambda>b. b \<noteq> SLASH) q"
    have t: "SLASH \<notin> set ?t" by (auto dest: set_takeWhileD)
    have "hd q \<noteq> SLASH" using hd_dropWhile [of "\<lambda>b. b = SLASH" p] assms that by auto
    then have "?t \<noteq> []" using that by (cases q) auto
    show ?thesis
    proof (cases ?d)
      case Nil
      then have q: "?t = q" by (metis append_Nil2 takeWhile_dropWhile_id)
      show ?thesis using names_no_slash [OF t] \<open>?t \<noteq> []\<close> unfolding Nil q by simp
    next
      case (Cons b r)
      then have "b = SLASH" using hd_dropWhile [of "\<lambda>b. b \<noteq> SLASH" q] by simp
      have "names q = names (?t @ SLASH # r)"
        using Cons \<open>b = SLASH\<close> takeWhile_dropWhile_id [of "\<lambda>b. b \<noteq> SLASH" q] by simp
      then show ?thesis
        using names_append [of ?t r] names_no_slash [OF t] \<open>?t \<noteq> []\<close> Cons \<open>b = SLASH\<close> by simp
    qed
  qed
  ultimately show ?thesis by simp
qed

lemma drop_length_takeWhile: "drop (length (takeWhile P xs)) xs = dropWhile P xs"
  by (simp add: dropWhile_eq_drop)

lemma components_next_spec:
  assumes "cp_position c \<le> length (cp_path c)"
  defines "q \<equiv> dropWhile (\<lambda>b. b = SLASH) (drop (cp_position c) (cp_path c))"
  shows "components_next c =
      (if q = [] then (None, c\<lparr>cp_position := length (cp_path c)\<rparr>)
       else (Some (takeWhile (\<lambda>b. b \<noteq> SLASH) q),
             c\<lparr>cp_position := length (cp_path c) - length (dropWhile (\<lambda>b. b \<noteq> SLASH) q)\<rparr>))"
proof -
  let ?p = "cp_path c" and ?i = "cp_position c"
  define start where "start = advance_while (\<lambda>b. b = SLASH) ?p ?i"
  have start: "start = ?i + length (takeWhile (\<lambda>b. b = SLASH) (drop ?i ?p))"
    unfolding start_def by (rule advance_while_spec [OF assms(1)])
  have q: "drop start ?p = q"
    unfolding q_def start by (simp add: drop_length_takeWhile [symmetric] add.commute)
  have le: "start \<le> length ?p"
    using length_takeWhile_le [of "\<lambda>b. b = SLASH" "drop ?i ?p"] assms(1) start by simp
  have q0: "start = length ?p \<longleftrightarrow> q = []" using q le by auto
  define stop where "stop = advance_while (\<lambda>b. b \<noteq> SLASH) ?p start"
  have stop: "stop = start + length (takeWhile (\<lambda>b. b \<noteq> SLASH) q)"
    unfolding stop_def advance_while_spec [OF le] q ..
  have len: "length q = length ?p - start" using q by (metis length_drop)
  have "stop = length ?p - length (dropWhile (\<lambda>b. b \<noteq> SLASH) q)"
  proof -
    have "length q = length (takeWhile (\<lambda>b. b \<noteq> SLASH) q) + length (dropWhile (\<lambda>b. b \<noteq> SLASH) q)"
      by (metis length_append takeWhile_dropWhile_id)
    then show ?thesis using stop len le by linarith
  qed
  moreover have "take (stop - start) (drop start ?p) = takeWhile (\<lambda>b. b \<noteq> SLASH) q"
    unfolding stop q by (simp add: takeWhile_eq_take [symmetric])
  ultimately show ?thesis
    using q0 by (auto simp: components_next_def Let_def start_def [symmetric] stop_def [symmetric])
qed

lemma components_rest_names:
  "cp_position c \<le> length (cp_path c) \<Longrightarrow>
    components_rest c = names (drop (cp_position c) (cp_path c))"
proof (induction c rule: components_rest.induct)
  case (1 c)
  let ?p = "cp_path c" and ?i = "cp_position c"
  define q where "q = dropWhile (\<lambda>b. b = SLASH) (drop ?i ?p)"
  define d where "d = dropWhile (\<lambda>b. b \<noteq> SLASH) q"
  note nx = components_next_spec [OF "1.prems", folded q_def, folded d_def]
  note st = names_step [of q "drop ?i ?p", OF q_def, folded d_def]
  show ?case
  proof (cases "q = []")
    case True
    then show ?thesis using nx st by (subst components_rest.simps) auto
  next
    case False
    let ?c = "c\<lparr>cp_position := length ?p - length d\<rparr>"
    have i: "?i < length ?p" using False by (cases "?i < length ?p") (auto simp: q_def)
    have suffix: "\<exists>u. drop ?i ?p = u @ d \<and> u \<noteq> []"
    proof (intro exI conjI)
      show "drop ?i ?p = (takeWhile (\<lambda>b. b = SLASH) (drop ?i ?p) @ takeWhile (\<lambda>b. b \<noteq> SLASH) q) @ d"
        by (simp add: q_def d_def)
      have "hd q \<noteq> SLASH" using hd_dropWhile [of "\<lambda>b. b = SLASH" "drop ?i ?p"] False q_def by auto
      then have "takeWhile (\<lambda>b. b \<noteq> SLASH) q \<noteq> []" using False by (cases q) auto
      then show "takeWhile (\<lambda>b. b = SLASH) (drop ?i ?p) @ takeWhile (\<lambda>b. b \<noteq> SLASH) q \<noteq> []" by simp
    qed
    then obtain u where u: "drop ?i ?p = u @ d" "u \<noteq> []" by blast
    have ul: "length u + length d = length ?p - ?i" using arg_cong [OF u(1), of length] by simp
    moreover have "0 < length u" using u(2) by simp
    ultimately have pos: "?i < length ?p - length d" using i by linarith
    have "drop (length ?p - length d) ?p = d"
    proof -
      have "length ?p - length d = length u + ?i" using ul pos i by linarith
      then show ?thesis using arg_cong [OF u(1), of "drop (length u)"] by (simp add: add.commute)
    qed
    then have "components_rest ?c = names d"
      using "1.IH" [OF i] nx False pos by simp
    then show ?thesis using nx st False i pos by (subst components_rest.simps) simp
  qed
qed

lemma components_new_names: "components_rest (components_new p) = names p"
  using components_rest_names [of "components_new p"] by (simp add: components_new_def)

lemma validate_all_Inr: "validate_all cs = Inr () \<longleftrightarrow> (\<forall>c \<in> set cs. validate_name c = Inr ())"
  by (induction cs) (auto split: sum.split)

lemma validate_all_Inl: "validate_all cs = Inl e \<Longrightarrow> \<exists>c \<in> set cs. validate_name c = Inl e"
  by (induction cs) (auto split: sum.splits)

lemma pieces_concat: "x \<in> set (pieces p) \<Longrightarrow> set x \<subseteq> set p"
proof (induction p arbitrary: x)
  case (Cons b p)
  then show ?case by (cases "pieces p") (auto split: if_splits, fastforce+)
qed auto

section \<open>Properties\<close>

definition wf_path :: "u8 list \<Rightarrow> bool" where
  "wf_path p \<longleftrightarrow> p \<noteq> [] \<and> length p \<le> 4096 \<and> 0 \<notin> set p"

lemma validate_path_iff: "validate_path p = Inr () \<longleftrightarrow> wf_path p"
  by (auto simp: validate_path_def wf_path_def MAX_PATH_LEN_def)

lemma validate_names_iff:
  assumes "0 \<notin> set p"
  shows "validate_all (names p) = Inr () \<longleftrightarrow> (\<forall>x \<in> set (pieces p). length x \<le> 255)"
proof -
  have "validate_name x = Inr () \<longleftrightarrow> length x \<le> 255" if "x \<in> set (pieces p)" "x \<noteq> []" for x
    using that pieces_free [OF that(1)] pieces_concat [OF that(1)] assms
    by (auto simp: validate_name_def MAX_NAME_LEN_def)
  then show ?thesis by (fastforce simp: validate_all_Inr names_def)
qed

text \<open>
  C9. Parsing accepts exactly the nonempty byte strings of at most 4096 bytes without NUL whose
  pieces between separators have at most 255 bytes. The iterator it returns then enumerates
  exactly the nonempty pieces, in order, and the flags tell whether the path starts and ends
  with a separator.
\<close>

theorem path_parse_correct:
  "case path_parse p of
     Inr r \<Rightarrow> wf_path p \<and> (\<forall>x \<in> set (pieces p). length x \<le> 255) \<and>
       components_rest (pp_components r) = filter (\<lambda>x. x \<noteq> []) (pieces p) \<and>
       (pp_absolute r \<longleftrightarrow> (\<exists>q. p = SLASH # q)) \<and> (pp_trailing_slash r \<longleftrightarrow> (\<exists>q. p = q @ [SLASH]))
   | Inl e \<Rightarrow> \<not> (wf_path p \<and> (\<forall>x \<in> set (pieces p). length x \<le> 255))"
proof (cases "path_parse p")
  case (Inl e)
  then have "validate_path p \<noteq> Inr () \<or> validate_all (names p) \<noteq> Inr ()"
    by (auto simp: path_parse_def components_new_names split: sum.splits)
  then show ?thesis using Inl validate_names_iff [of p] by (auto simp: validate_path_iff wf_path_def)
next
  case (Inr r)
  then have v: "validate_path p = Inr ()" "validate_all (names p) = Inr ()"
    by (auto simp: path_parse_def components_new_names split: sum.splits)
  from Inr have r: "pp_components r = components_new p" "pp_absolute r = (first_byte p = Some SLASH)"
    "pp_trailing_slash r = (last_byte p = Some SLASH)"
    by (auto simp: path_parse_def split: sum.splits)
  have "first_byte p = Some SLASH \<longleftrightarrow> (\<exists>q. p = SLASH # q)" by (cases p) (auto simp: first_byte_def)
  moreover have "last_byte p = Some SLASH \<longleftrightarrow> (\<exists>q. p = q @ [SLASH])"
    by (cases p rule: rev_cases) (auto simp: last_byte_def)
  ultimately show ?thesis
    using Inr v r validate_names_iff [of p]
    by (auto simp: components_new_names names_def validate_path_iff wf_path_def)
qed

theorem path_parse_witness:
  "\<exists>r. path_parse [SLASH, 97, SLASH, SLASH, 98] = Inr r \<and>
     components_rest (pp_components r) = [[97], [98]] \<and> pp_absolute r"
proof -
  have "path_parse [SLASH, 97, SLASH, SLASH, 98] \<noteq> Inl e" for e
    using path_parse_correct [of "[SLASH, 97, SLASH, SLASH, 98]"] by (auto simp: wf_path_def)
  then obtain r where "path_parse [SLASH, 97, SLASH, SLASH, 98] = Inr r"
    by (cases "path_parse [SLASH, 97, SLASH, SLASH, 98]") auto
  with path_parse_correct [of "[SLASH, 97, SLASH, SLASH, 98]"] show ?thesis by auto
qed

section \<open>Splitting off the last component\<close>

lemma strip_trailing_spec:
  assumes "0 < stop" "stop \<le> length p"
  shows "\<exists>n. take stop p = take (strip_trailing p stop) p @ replicate n SLASH \<and>
    0 < strip_trailing p stop \<and> strip_trailing p stop \<le> stop \<and>
    (strip_trailing p stop = 1 \<or> p ! (strip_trailing p stop - 1) \<noteq> SLASH)"
  using assms
proof (induction p stop rule: strip_trailing.induct)
  case (1 p stop)
  show ?case
  proof (cases "stop > 1 \<and> p ! (stop - 1) = SLASH")
    case True
    then obtain n where n: "take (stop - 1) p = take (strip_trailing p (stop - 1)) p @ replicate n SLASH"
      "0 < strip_trailing p (stop - 1)" "strip_trailing p (stop - 1) \<le> stop - 1"
      "strip_trailing p (stop - 1) = 1 \<or> p ! (strip_trailing p (stop - 1) - 1) \<noteq> SLASH"
    proof -
      have "0 < stop - 1" "stop - 1 \<le> length p" using True "1.prems" by auto
      from "1.IH" [OF True this] show thesis using that by blast
    qed
    have e: "strip_trailing p stop = strip_trailing p (stop - 1)"
      using True by (subst strip_trailing.simps) simp
    have "stop - 1 < length p" using True "1.prems" by linarith
    then have "take stop p = take (stop - 1) p @ [SLASH]"
      using take_Suc_conv_app_nth [of "stop - 1" p] True by simp
    also have "\<dots> = take (strip_trailing p (stop - 1)) p @ replicate (Suc n) SLASH"
      using n(1) by (simp add: replicate_append_same)
    finally show ?thesis unfolding e using n by (intro exI [of _ "Suc n"]) auto
  next
    case False
    then have "strip_trailing p stop = stop" by (subst strip_trailing.simps) auto
    then show ?thesis using False "1.prems" by (intro exI [of _ 0]) auto
  qed
qed

lemma rposition_spec:
  "case rposition P xs of
     None \<Rightarrow> \<forall>x \<in> set xs. \<not> P x
   | Some i \<Rightarrow> i < length xs \<and> P (xs ! i) \<and> (\<forall>x \<in> set (drop (Suc i) xs). \<not> P x)"
  by (induction xs) (auto split: option.splits)

lemma names_replicate: "names (p @ replicate n SLASH) = names p"
proof (induction n)
  case (Suc n)
  then show ?case
    using names_trailing [of "p @ replicate n SLASH"]
    by (simp flip: replicate_append_same)
qed simp

lemma split_at_slash:
  assumes "i < length q" "q ! i = SLASH" "\<forall>x \<in> set (drop (Suc i) q). x \<noteq> SLASH"
  shows "names q = names (take i q) @ (if drop (Suc i) q = [] then [] else [drop (Suc i) q])"
proof -
  have "q = take i q @ SLASH # drop (Suc i) q" using assms(1,2) by (metis id_take_nth_drop)
  then have "names q = names (take i q) @ names (drop (Suc i) q)" by (metis names_append)
  then show ?thesis using names_no_slash [of "drop (Suc i) q"] assms(3) by auto
qed

lemma validate_leaf_iff:
  "validate_leaf_name x = Inr () \<longleftrightarrow> x \<noteq> [] \<and> length x \<le> 255 \<and> 0 \<notin> set x \<and> SLASH \<notin> set x \<and>
     x \<noteq> [DOT] \<and> x \<noteq> [DOT, DOT]"
  by (auto simp: validate_leaf_name_def validate_name_def MAX_NAME_LEN_def split: if_splits)

text \<open>The three shapes of the pair of parent and name that the source computes.\<close>

lemma split_cases:
  assumes "p \<noteq> []"
  obtains q n where "p = q @ replicate n SLASH" "q \<noteq> []" "q = [SLASH] \<or> last q \<noteq> SLASH"
    "take (strip_trailing p (length p)) p = q"
proof -
  obtain n where n: "take (length p) p = take (strip_trailing p (length p)) p @ replicate n SLASH"
    "0 < strip_trailing p (length p)" "strip_trailing p (length p) \<le> length p"
    "strip_trailing p (length p) = 1 \<or> p ! (strip_trailing p (length p) - 1) \<noteq> SLASH"
    using strip_trailing_spec [of "length p" p] assms by auto
  define k where "k = strip_trailing p (length p)"
  note k = n [folded k_def]
  have ne: "take k p \<noteq> []" using k(2) assms by simp
  have last: "last (take k p) = p ! (k - 1)"
    using k(2,3) ne by (simp add: last_conv_nth min_absorb2)
  have "take k p = [SLASH] \<or> last (take k p) \<noteq> SLASH"
  proof (cases "k = 1")
    case True
    then have "take k p = [p ! 0]" using assms by (cases p) simp_all
    then show ?thesis by simp
  next
    case False
    then have "p ! (k - 1) \<noteq> SLASH" using k(4) by blast
    then show ?thesis unfolding last by (rule disjI2)
  qed
  then show thesis using that [of "take k p" n] k(1) ne by (simp add: k_def [symmetric])
qed

lemma split_pair:
  assumes q: "q \<noteq> []" "q = [SLASH] \<or> last q \<noteq> SLASH"
  defines "pn \<equiv> (case rposition (\<lambda>b. b = SLASH) q of
      None \<Rightarrow> ([DOT], q)
    | Some index \<Rightarrow> if index = 0 then (take 1 q, drop 1 q) else (take index q, drop (index + 1) q))"
  shows "(names q = names (fst pn) @ (if snd pn = [] then [] else [snd pn]) \<or>
        names q = [snd pn] \<and> fst pn = [DOT]) \<and>
      ((\<exists>r. q = SLASH # r) \<longleftrightarrow> (\<exists>r. fst pn = SLASH # r)) \<and> (snd pn = [] \<longrightarrow> names q = [])"
proof (cases "rposition (\<lambda>b. b = SLASH) q")
  case None
  then have ns: "SLASH \<notin> set q" using rposition_spec [where P = "\<lambda>b. b = SLASH" and xs = q] by auto
  then have "\<not> (\<exists>r. q = SLASH # r)" by auto
  moreover have "pn = ([DOT], q)" using None by (simp add: pn_def)
  ultimately show ?thesis using q(1) names_no_slash [OF ns] by simp
next
  case (Some i)
  then have i: "i < length q" "q ! i = SLASH" "\<forall>x \<in> set (drop (Suc i) q). x \<noteq> SLASH"
    using rposition_spec [where P = "\<lambda>b. b = SLASH" and xs = q] by auto
  note sp = split_at_slash [OF i]
  have last: "q = [SLASH]" if "drop (Suc i) q = []"
  proof -
    have "i = length q - 1" using i(1) that by simp
    then have "last q = SLASH" using i(2) q(1) by (simp add: last_conv_nth)
    then show ?thesis using q(2) by blast
  qed
  show ?thesis
  proof (cases "i = 0")
    case True
    then obtain r where r: "q = SLASH # r" using i by (cases q) auto
    then have "pn = ([SLASH], r)" using Some True by (simp add: pn_def)
    then show ?thesis using sp True r by auto
  next
    case False
    then have pn: "pn = (take i q, drop (Suc i) q)" using Some by (simp add: pn_def)
    have ne: "drop (Suc i) q \<noteq> []" using last False i(1) by auto
    have hd: "(\<exists>r. q = SLASH # r) \<longleftrightarrow> (\<exists>r. take i q = SLASH # r)"
      using False q(1) by (cases q; cases i) auto
    have "names q = names (take i q) @ [drop (Suc i) q]" using sp ne by (simp only: if_False)
    then show ?thesis unfolding pn fst_conv snd_conv using ne hd by (simp only: if_False simp_thms)
  qed
qed

text \<open>
  Splitting off the last component succeeds exactly when the path is valid and its last
  component is a valid entry name other than dot and dot-dot. The name is then that last
  component, and the parent path has the remaining components; a path with a single component
  and no separator has the parent dot.
\<close>

theorem split_parent_correct:
  "case split_parent p of
     Inr r \<Rightarrow> wf_path p \<and> validate_leaf_name (pn_name r) = Inr () \<and>
       (names p = names (pn_parent r) @ [pn_name r] \<or> names p = [pn_name r] \<and> pn_parent r = [DOT]) \<and>
       ((\<exists>q. p = SLASH # q) \<longleftrightarrow> (\<exists>q. pn_parent r = SLASH # q)) \<and>
       (pn_trailing_slash r \<longleftrightarrow> (\<exists>q. p = q @ [SLASH]))
   | Inl e \<Rightarrow> \<not> (wf_path p \<and> names p \<noteq> [] \<and> validate_leaf_name (last (names p)) = Inr ())"
proof (cases "validate_path p")
  case (Inl e)
  then show ?thesis using validate_path_iff [of p] by (simp add: split_parent_def)
next
  case (Inr u)
  then have wf: "wf_path p" using validate_path_iff [of p] by simp
  then have "p \<noteq> []" by (simp add: wf_path_def)
  then obtain q n where q: "p = q @ replicate n SLASH" "q \<noteq> []" "q = [SLASH] \<or> last q \<noteq> SLASH"
    and tk: "take (strip_trailing p (length p)) p = q" by (rule split_cases)
  have np: "names p = names q" using q(1) names_replicate by simp
  have head: "(\<exists>r. p = SLASH # r) \<longleftrightarrow> (\<exists>r. q = SLASH # r)" using q(1,2) by (cases q) auto
  have tail: "last_byte p = Some SLASH \<longleftrightarrow> (\<exists>r. p = r @ [SLASH])"
    by (cases p rule: rev_cases) (auto simp: last_byte_def)
  define pn where "pn = (case rposition (\<lambda>b. b = SLASH) q of
      None \<Rightarrow> ([DOT], q)
    | Some index \<Rightarrow> if index = 0 then (take 1 q, drop 1 q) else (take index q, drop (index + 1) q))"
  have run: "split_parent p = (case validate_leaf_name (snd pn) of Inl e \<Rightarrow> Inl e | Inr _ \<Rightarrow>
      Inr \<lparr>pn_parent = fst pn, pn_name = snd pn, pn_trailing_slash = (last_byte p = Some SLASH)\<rparr>)"
    unfolding split_parent_def Let_def tk pn_def [symmetric] using Inr
    by (simp add: case_prod_unfold)
  have parts: "names q = names (fst pn) @ (if snd pn = [] then [] else [snd pn]) \<or>
        names q = [snd pn] \<and> fst pn = [DOT]"
    and starts: "(\<exists>r. q = SLASH # r) \<longleftrightarrow> (\<exists>r. fst pn = SLASH # r)"
    and bare: "snd pn = [] \<longrightarrow> names q = []"
    using split_pair [OF q(2,3), folded pn_def] by auto
  show ?thesis
  proof (cases "validate_leaf_name (snd pn)")
    case (Inl e)
    have "\<not> (names p \<noteq> [] \<and> validate_leaf_name (last (names p)) = Inr ())"
    proof (cases "snd pn = []")
      case True
      then show ?thesis using bare np by simp
    next
      case False
      then have "last (names p) = snd pn" using parts np by auto
      then show ?thesis using Inl by simp
    qed
    then show ?thesis using run Inl by simp
  next
    case (Inr v)
    then have ne: "snd pn \<noteq> []" using validate_leaf_iff [of "snd pn"] by simp
    then have "names p = names (fst pn) @ [snd pn] \<or> names p = [snd pn] \<and> fst pn = [DOT]"
      using parts np by simp
    moreover have "split_parent p = Inr \<lparr>pn_parent = fst pn, pn_name = snd pn,
        pn_trailing_slash = (last_byte p = Some SLASH)\<rparr>" using run Inr by simp
    ultimately show ?thesis using Inr head starts tail wf by simp
  qed
qed

theorem split_parent_witness:
  "\<exists>r. split_parent [SLASH, 97, SLASH, 98, SLASH] = Inr r \<and> pn_name r = [98] \<and> pn_trailing_slash r"
proof -
  let ?p = "[SLASH, 97, SLASH, 98, SLASH] :: u8 list"
  have n: "names ?p = [[97], [98]]" by (simp add: names_def)
  have "split_parent ?p \<noteq> Inl e" for e
    using split_parent_correct [of ?p] n by (auto simp: wf_path_def validate_leaf_iff)
  then obtain r where r: "split_parent ?p = Inr r" by (cases "split_parent ?p") auto
  with split_parent_correct [of ?p] n show ?thesis by auto
qed

end
