(* ===== verification/Bytes.thy ===== *)
theory Bytes
  imports Prelude
begin

text \<open>
  Byte strings as the kernel's parsers use them: indexing and slicing, which panic out of
  range, the pieces of a string between separators, and the well-formedness of UTF-8 that
  Rust's \<open>str::from_utf8\<close> checks.
\<close>

section \<open>Indexing\<close>

definition byte_at :: "u8 list \<Rightarrow> nat \<Rightarrow> u8 panics" where
  "byte_at bs i = (if i < length bs then Some (bs ! i) else None)"

definition slice :: "u8 list \<Rightarrow> nat \<Rightarrow> nat \<Rightarrow> u8 list panics" where
  "slice bs a b = (if a \<le> b \<and> b \<le> length bs then Some (take (b - a) (drop a bs)) else None)"

section \<open>Little-endian numbers\<close>

fun from_le_bytes :: "u8 list \<Rightarrow> nat" where
  "from_le_bytes [] = 0"
| "from_le_bytes (b # bs) = unat b + 256 * from_le_bytes bs"

fun to_le_bytes :: "nat \<Rightarrow> nat \<Rightarrow> u8 list" where
  \<comment> \<open>the given number of bytes, least significant first\<close>
  "to_le_bytes 0 n = []"
| "to_le_bytes (Suc w) n = word_of_nat n # to_le_bytes w (n div 256)"

section \<open>Pieces between separators\<close>

fun split_at :: "'a \<Rightarrow> 'a list \<Rightarrow> 'a list list" where
  \<comment> \<open>the iterator of \<open>str::split\<close>: one more piece than there are separators\<close>
  "split_at sep [] = [[]]"
| "split_at sep (c # cs) =
     (if c = sep then [] # split_at sep cs
      else case split_at sep cs of [] \<Rightarrow> [[c]] | p # ps \<Rightarrow> (c # p) # ps)"

fun join_with :: "'a \<Rightarrow> 'a list list \<Rightarrow> 'a list" where
  "join_with sep [] = []"
| "join_with sep [p] = p"
| "join_with sep (p # ps) = p @ sep # join_with sep ps"

definition rsplit_once :: "'a \<Rightarrow> 'a list \<Rightarrow> ('a list \<times> 'a list) option" where
  \<comment> \<open>the parts before and after the last separator\<close>
  "rsplit_once sep cs =
     (if sep \<in> set cs
      then let tl = takeWhile (\<lambda>c. c \<noteq> sep) (rev cs) in
           Some (take (length cs - length tl - 1) cs, rev tl)
      else None)"

section \<open>UTF-8\<close>

definition continuation :: "u8 \<Rightarrow> bool" where
  "continuation b \<longleftrightarrow> 0x80 \<le> b \<and> b \<le> 0xBF"

fun utf8_valid :: "u8 list \<Rightarrow> bool" where
  \<comment> \<open>no overlong forms, no surrogates, nothing above U+10FFFF\<close>
  "utf8_valid [] = True"
| "utf8_valid (a # rest) =
     (if a \<le> 0x7F then utf8_valid rest
      else if 0xC2 \<le> a \<and> a \<le> 0xDF then
        (case rest of b # r \<Rightarrow> continuation b \<and> utf8_valid r | _ \<Rightarrow> False)
      else if 0xE0 \<le> a \<and> a \<le> 0xEF then
        (case rest of b # c # r \<Rightarrow> continuation b \<and> continuation c \<and>
           (a = 0xE0 \<longrightarrow> 0xA0 \<le> b) \<and> (a = 0xED \<longrightarrow> b \<le> 0x9F) \<and> utf8_valid r
         | _ \<Rightarrow> False)
      else if 0xF0 \<le> a \<and> a \<le> 0xF4 then
        (case rest of b # c # d # r \<Rightarrow> continuation b \<and> continuation c \<and> continuation d \<and>
           (a = 0xF0 \<longrightarrow> 0x90 \<le> b) \<and> (a = 0xF4 \<longrightarrow> b \<le> 0x8F) \<and> utf8_valid r
         | _ \<Rightarrow> False)
      else False)"

section \<open>Lemmas\<close>

lemma slice_length: "slice bs a b = Some v \<Longrightarrow> length v = b - a"
  by (auto simp: slice_def split: if_splits)

lemma from_le_bytes_bound: "from_le_bytes bs < 256 ^ length bs"
proof (induction bs)
  case (Cons b bs)
  have "unat b < 256" using unsigned_less [of b, where ?'a = nat] by simp
  moreover have "256 * (from_le_bytes bs + 1) \<le> 256 * 256 ^ length bs"
    using Cons by (intro mult_le_mono2) simp
  ultimately show ?case by simp
qed simp

lemma to_le_bytes_length [simp]: "length (to_le_bytes w n) = w"
  by (induction w arbitrary: n) auto

lemma from_to_le_bytes: "n < 256 ^ w \<Longrightarrow> from_le_bytes (to_le_bytes w n) = n"
proof (induction w arbitrary: n)
  case (Suc w)
  have "n div 256 < 256 ^ w" using Suc.prems by (simp add: less_mult_imp_div_less mult.commute)
  then show ?case using Suc.IH by (simp add: unat_of_nat)
qed simp

lemma split_at_nonempty [simp]: "split_at sep cs \<noteq> []"
  by (induction cs) (auto split: list.split)

lemma join_with_Cons: "ps \<noteq> [] \<Longrightarrow> join_with sep (p # ps) = p @ sep # join_with sep ps"
  by (cases ps) auto

lemma join_split [simp]: "join_with sep (split_at sep cs) = cs"
proof (induction cs)
  case (Cons c cs)
  then show ?case
    by (cases "split_at sep cs") (auto simp: join_with_Cons, metis append_Cons join_with.simps(2,3) list.exhaust)
qed simp

lemma split_at_no_sep: "p \<in> set (split_at sep cs) \<Longrightarrow> sep \<notin> set p"
  by (induction cs arbitrary: p) (fastforce split: if_splits list.splits)+

lemma split_single: "sep \<notin> set p \<Longrightarrow> split_at sep p = [p]"
  by (induction p) auto

lemma split_at_append: "sep \<notin> set p \<Longrightarrow> split_at sep (p @ sep # cs) = p # split_at sep cs"
  by (induction p) auto

lemma split_join:
  "ps \<noteq> [] \<Longrightarrow> (\<forall>p \<in> set ps. sep \<notin> set p) \<Longrightarrow> split_at sep (join_with sep ps) = ps"
  by (induction sep ps rule: join_with.induct) (auto simp: split_single split_at_append)

lemma rsplit_once_append: "sep \<notin> set n \<Longrightarrow> rsplit_once sep (p @ sep # n) = Some (p, n)"
proof -
  assume n: "sep \<notin> set n"
  then have "takeWhile (\<lambda>c. c \<noteq> sep) (rev n @ sep # rev p) = rev n"
    by (subst takeWhile_append2) auto
  then show ?thesis by (simp add: rsplit_once_def Let_def)
qed

end
