(* ===== verification/Results.thy ===== *)
theory Results
  imports Bytes
begin

text \<open>
  Fallible code that may also panic: a result is an option (no value: the panic) of a sum
  (left: the error that is returned). The predicate \<open>total_res\<close> says that a computation does
  not panic and that its value, if it returns one, has a property; the collection
  \<open>total_steps\<close> has a rule for every kind of step of the parsers.
\<close>

type_synonym ('e, 'a) res = "('e + 'a) panics"

named_theorems total_steps \<open>one rule per kind of step\<close>

section \<open>The monad\<close>

definition res_bind :: "('e, 'a) res \<Rightarrow> ('a \<Rightarrow> ('e, 'b) res) \<Rightarrow> ('e, 'b) res" where
  "res_bind m f = (case m of None \<Rightarrow> None | Some (Inl e) \<Rightarrow> Some (Inl e) | Some (Inr x) \<Rightarrow> f x)"

definition res_ok :: "'a \<Rightarrow> ('e, 'a) res" where
  "res_ok x = Some (Inr x)"

definition res_fail :: "'e \<Rightarrow> ('e, 'a) res" where
  "res_fail e = Some (Inl e)"

definition res_pure :: "'a panics \<Rightarrow> ('e, 'a) res" where
  "res_pure m = map_option Inr m"

definition ok_or :: "'a option \<Rightarrow> 'e \<Rightarrow> ('e, 'a) res" where
  "ok_or m e = (case m of None \<Rightarrow> res_fail e | Some x \<Rightarrow> res_ok x)"

definition res_guard :: "bool \<Rightarrow> 'e \<Rightarrow> ('e, unit) res" where
  \<comment> \<open>an early return of the error when the condition holds\<close>
  "res_guard bad e = (if bad then res_fail e else res_ok ())"

section \<open>Results that are not panics\<close>

definition total_res :: "('e, 'a) res \<Rightarrow> ('a \<Rightarrow> bool) \<Rightarrow> bool" where
  "total_res m Q \<longleftrightarrow> (case m of None \<Rightarrow> False | Some (Inl _) \<Rightarrow> True | Some (Inr x) \<Rightarrow> Q x)"

lemma total_bind:
  "total_res m P \<Longrightarrow> (\<And>x. P x \<Longrightarrow> total_res (f x) Q) \<Longrightarrow> total_res (res_bind m f) Q"
  by (cases m) (auto simp: total_res_def res_bind_def split: sum.splits)

lemma res_bind_ok [simp]: "res_bind (res_ok x) f = f x"
  by (simp add: res_bind_def res_ok_def)

lemma res_bind_fail [simp]: "res_bind (res_fail e) f = res_fail e"
  by (simp add: res_bind_def res_fail_def)

lemma res_bind_assoc [simp]: "res_bind (res_bind m g) f = res_bind m (\<lambda>y. res_bind (g y) f)"
  by (simp add: res_bind_def split: option.split sum.split)

lemma res_bind_if [simp]: "res_bind (if b then m else n) f = (if b then res_bind m f else res_bind n f)"
  by simp

lemma total_ok: "Q x \<Longrightarrow> total_res (res_ok x) Q"
  by (simp add: total_res_def res_ok_def)

lemma total_fail [simp]: "total_res (res_fail e) Q"
  by (simp add: total_res_def res_fail_def)

lemma total_guard [total_steps]:
  "(\<not> bad \<Longrightarrow> total_res (f ()) Q) \<Longrightarrow> total_res (res_bind (res_guard bad e) f) Q"
  by (simp add: res_guard_def res_bind_def res_ok_def res_fail_def total_res_def)

lemma total_pure: "m = Some x \<Longrightarrow> total_res (f x) Q \<Longrightarrow> total_res (res_bind (res_pure m) f) Q"
  by (simp add: res_pure_def total_res_def res_bind_def)

lemma total_ok_or [total_steps]:
  "(\<And>x. m = Some x \<Longrightarrow> total_res (f x) Q) \<Longrightarrow> total_res (res_bind (ok_or m e) f) Q"
  by (cases m) (simp_all add: ok_or_def res_bind_def res_ok_def res_fail_def total_res_def)

lemma total_slice [total_steps]:
  "a \<le> b \<Longrightarrow> b \<le> length bs \<Longrightarrow> (\<And>v. length v = b - a \<Longrightarrow> total_res (f v) Q) \<Longrightarrow>
    total_res (res_bind (res_pure (slice bs a b)) f) Q"
  by (rule total_pure) (auto simp: slice_def)

lemma total_byte [total_steps]:
  "i < length bs \<Longrightarrow> (\<And>b. total_res (f b) Q) \<Longrightarrow> total_res (res_bind (res_pure (byte_at bs i)) f) Q"
  by (rule total_pure) (auto simp: byte_at_def)

lemma total_if [total_steps]:
  "(b \<Longrightarrow> total_res m Q) \<Longrightarrow> (\<not> b \<Longrightarrow> total_res n Q) \<Longrightarrow> total_res (if b then m else n) Q"
  by simp

lemma res_bind_Inr:
  "res_bind m f = Some (Inr y) \<longleftrightarrow> (\<exists>x. m = Some (Inr x) \<and> f x = Some (Inr y))"
  by (auto simp: res_bind_def split: option.splits sum.splits)

lemma res_step_Inr:
  "res_ok x = Some (Inr y) \<longleftrightarrow> x = y" "res_fail e \<noteq> Some (Inr y)"
  "res_pure m = Some (Inr y) \<longleftrightarrow> m = Some y" "ok_or m e = Some (Inr y) \<longleftrightarrow> m = Some y"
  "res_guard bad e = Some (Inr u) \<longleftrightarrow> \<not> bad"
  by (auto simp: res_ok_def res_fail_def res_pure_def ok_or_def res_guard_def split: option.splits)

end
