(* ===== verification/Partition.thy ===== *)
theory Partition
  imports Errors Results
begin

text \<open>
  Model of \<open>kernel/src/fs/partition.rs\<close>, the discovery of MBR and GPT partitions. The disk is an argument: its geometry and the
  outcome of every read, so that the theorems hold for arbitrary, also malicious, media. A
  result is an option (no value: a slice index out of range or an arithmetic overflow, that is
  a panic) of a sum (left: the error the source returns). Whether the heap yields a buffer for a
  block is an argument as well; the lists the code grows while it parses cannot fail there and
  do not here.
\<close>

unbundle bit_operations_syntax

section \<open>Results\<close>

type_synonym 'a drv = "(drv_error + 'a) panics"

section \<open>Bytes\<close>

definition le32 :: "u8 list \<Rightarrow> nat \<Rightarrow> nat drv" where
  "le32 bs offset = (case slice bs offset (offset + 4) of
     None \<Rightarrow> res_fail DrvInvalidArgument | Some v \<Rightarrow> res_ok (from_le_bytes v))"

definition le64 :: "u8 list \<Rightarrow> nat \<Rightarrow> nat drv" where
  "le64 bs offset = (case slice bs offset (offset + 8) of
     None \<Rightarrow> res_fail DrvInvalidArgument | Some v \<Rightarrow> res_ok (from_le_bytes v))"

definition crc_bit :: "u32 \<Rightarrow> u32" where
  "crc_bit crc = (drop_bit 1 crc) XOR (0xedb88320 AND (0 - (crc AND 1)))"

definition crc_byte :: "u32 \<Rightarrow> u8 \<Rightarrow> u32" where
  "crc_byte crc b = (crc_bit ^^ 8) (crc XOR ucast b)"

definition crc32 :: "u8 list \<Rightarrow> nat" where
  "crc32 bs = unat (NOT (fold (\<lambda>b crc. crc_byte crc b) bs (NOT (0 :: u32))))"

section \<open>The disk\<close>

record disk =
  dk_block_size :: nat
  dk_block_count :: nat
  dk_read :: "nat \<Rightarrow> nat \<Rightarrow> drv_error + u8 list"

definition zeroed :: "(nat \<Rightarrow> bool) \<Rightarrow> nat \<Rightarrow> u8 list drv" where
  \<comment> \<open>the heap may refuse a buffer\<close>
  "zeroed heap len = (if heap len then res_ok (replicate len 0) else res_fail DrvOutOfMemory)"

definition read_blocks :: "disk \<Rightarrow> nat \<Rightarrow> nat \<Rightarrow> u8 list \<Rightarrow> u8 list drv" where
  \<comment> \<open>the buffer keeps its length, whatever the device stores in it\<close>
  "read_blocks dk lba blocks buffer = (case dk_read dk lba blocks of
     Inl e \<Rightarrow> res_fail e
   | Inr bs \<Rightarrow> res_ok (take (length buffer) (bs @ drop (length bs) buffer)))"

section \<open>Partitions\<close>

definition GPT_SIGNATURE :: "u8 list" where
  "GPT_SIGNATURE = [69, 70, 73, 32, 80, 65, 82, 84]"
definition GPT_MIN_HEADER :: nat where "GPT_MIN_HEADER = 92"
definition GPT_MIN_ENTRY :: nat where "GPT_MIN_ENTRY = 128"
definition MAX_GPT_ENTRIES :: nat where "MAX_GPT_ENTRIES = 4096"
definition MAX_GPT_BYTES :: nat where "MAX_GPT_BYTES = 16 * 1024 * 1024"
definition MAX_EBR_LINKS :: nat where "MAX_EBR_LINKS = 128"

record partition =
  pt_number :: nat
  pt_first :: nat
  pt_blocks :: nat

definition partition_map :: "nat \<Rightarrow> nat \<Rightarrow> nat \<Rightarrow> nat \<Rightarrow> drv_error + nat" where
  \<comment> \<open>the translation of a block range of a partition that starts at \<open>first\<close>\<close>
  "partition_map first extent lba blocks =
     (case checked_add lba blocks of
        None \<Rightarrow> Inl DrvInvalidArgument
      | Some stop \<Rightarrow>
          if stop > extent then Inl DrvInvalidArgument
          else case checked_add first lba of None \<Rightarrow> Inl DrvInvalidArgument | Some x \<Rightarrow> Inr x)"

definition is_extended :: "u8 \<Rightarrow> bool" where
  "is_extended kind \<longleftrightarrow> kind = 0x05 \<or> kind = 0x0f \<or> kind = 0x85"

fun check_ranges :: "nat \<Rightarrow> nat \<Rightarrow> partition list \<Rightarrow> drv_error + unit" where
  "check_ranges disk_blocks previous_end [] = Inr ()"
| "check_ranges disk_blocks previous_end (p # ps) =
     (case checked_add (pt_first p) (pt_blocks p) of
        None \<Rightarrow> Inl DrvInvalidArgument
      | Some stop \<Rightarrow>
          if pt_blocks p = 0 \<or> pt_first p = 0 \<or> disk_blocks \<le> pt_first p \<or> stop > disk_blocks \<or>
             pt_first p < previous_end
          then Inl DrvInvalidArgument else check_ranges disk_blocks stop ps)"

definition validate_ranges :: "partition list \<Rightarrow> nat \<Rightarrow> partition list drv" where
  \<comment> \<open>ties of the unstable sorts: equal starts are refused, and numbers are distinct\<close>
  "validate_ranges ps disk_blocks =
     (case check_ranges disk_blocks 0 (sort_key pt_first ps) of
        Inl e \<Rightarrow> res_fail e
      | Inr _ \<Rightarrow> res_ok (sort_key pt_number ps))"

section \<open>GPT\<close>

fun gpt_entries ::
  "u8 list \<Rightarrow> nat \<Rightarrow> nat \<Rightarrow> nat \<Rightarrow> nat list \<Rightarrow> partition list \<Rightarrow> partition list drv" where
  "gpt_entries entries entry_size first_usable last_usable [] output = res_ok output"
| "gpt_entries entries entry_size first_usable last_usable (index # rest) output =
     res_bind (res_pure (slice entries (index * entry_size) ((index + 1) * entry_size))) (\<lambda>entry.
     res_bind (res_pure (slice entry 0 16)) (\<lambda>guid.
     if (\<forall>b \<in> set guid. b = 0)
     then gpt_entries entries entry_size first_usable last_usable rest output
     else
       res_bind (le64 entry 32) (\<lambda>first.
       res_bind (le64 entry 40) (\<lambda>last_lba.
       if first < first_usable \<or> last_lba > last_usable \<or> first > last_lba
       then res_fail DrvInvalidArgument
       else
         res_bind (res_pure (checked_add (last_lba - first) 1)) (\<lambda>blocks.
         gpt_entries entries entry_size first_usable last_usable rest
           (output @ [\<lparr>pt_number = index + 1, pt_first = first, pt_blocks = blocks\<rparr>]))))))"

definition checked_mul :: "nat \<Rightarrow> nat \<Rightarrow> nat option" where
  "checked_mul a b = (if a * b < u64_limit then Some (a * b) else None)"

definition gpt_header_ok :: "disk \<Rightarrow> nat \<Rightarrow> u8 list \<Rightarrow> (nat \<times> nat) drv" where
  \<comment> \<open>the checks of the header up to the usable range, which is returned\<close>
  "gpt_header_ok dk block_size header =
     res_bind (res_guard (slice header 0 8 \<noteq> Some GPT_SIGNATURE) DrvInvalidArgument) (\<lambda>_.
     res_bind (le32 header 12) (\<lambda>header_size.
     res_bind (res_guard (\<not> (GPT_MIN_HEADER \<le> header_size \<and> header_size \<le> block_size))
       DrvInvalidArgument) (\<lambda>_.
     res_bind (le32 header 16) (\<lambda>stored_header_crc.
     res_bind (res_pure (slice header 0 header_size)) (\<lambda>copy.
     res_bind (res_pure (slice copy 16 20)) (\<lambda>_.
     let checked_header = take 16 copy @ replicate 4 0 @ drop 20 copy in
     res_bind (res_guard (crc32 checked_header \<noteq> stored_header_crc) DrvIo) (\<lambda>_.
     res_bind (le64 header 24) (\<lambda>my_lba.
     res_bind (if my_lba \<noteq> 1 then res_ok True
               else res_bind (le64 header 32) (\<lambda>alternate.
                 res_ok (dk_block_count dk \<le> alternate))) (\<lambda>bad.
     res_bind (res_guard bad DrvInvalidArgument) (\<lambda>_.
     res_bind (le64 header 40) (\<lambda>first_usable.
     res_bind (le64 header 48) (\<lambda>last_usable.
     res_bind (res_guard (first_usable > last_usable \<or> dk_block_count dk \<le> last_usable)
       DrvInvalidArgument) (\<lambda>_.
     res_ok (first_usable, last_usable))))))))))))))"

definition discover_gpt :: "(nat \<Rightarrow> bool) \<Rightarrow> disk \<Rightarrow> nat \<Rightarrow> partition list drv" where
  "discover_gpt heap dk block_size =
     res_bind (res_guard (dk_block_count dk < 2) DrvInvalidArgument) (\<lambda>_.
     res_bind (zeroed heap block_size) (\<lambda>header.
     res_bind (read_blocks dk 1 1 header) (\<lambda>header.
     res_bind (gpt_header_ok dk block_size header) (\<lambda>(first_usable, last_usable).
     res_bind (le64 header 72) (\<lambda>entries_lba.
     res_bind (le32 header 80) (\<lambda>entry_count.
     res_bind (le32 header 84) (\<lambda>entry_size.
     res_bind (res_guard (entry_count = 0 \<or> entry_count > MAX_GPT_ENTRIES \<or>
       entry_size < GPT_MIN_ENTRY \<or> entry_size mod 8 \<noteq> 0) DrvInvalidArgument) (\<lambda>_.
     res_bind (ok_or (checked_mul entry_count entry_size) DrvInvalidArgument) (\<lambda>bytes.
     res_bind (res_guard (bytes > MAX_GPT_BYTES) DrvInvalidArgument) (\<lambda>_.
     let blocks = (bytes + block_size - 1) div block_size in
     res_bind (ok_or (checked_add entries_lba blocks) DrvInvalidArgument) (\<lambda>stop.
     res_bind (res_guard (entries_lba = 0 \<or> stop > dk_block_count dk) DrvInvalidArgument) (\<lambda>_.
     res_bind (res_pure (checked_mul blocks block_size)) (\<lambda>size.
     res_bind (zeroed heap size) (\<lambda>entries.
     res_bind (res_guard (2 ^ 32 \<le> blocks) DrvInvalidArgument) (\<lambda>_.
     res_bind (read_blocks dk entries_lba blocks entries) (\<lambda>entries.
     res_bind (res_pure (slice entries 0 bytes)) (\<lambda>table.
     res_bind (le32 header 88) (\<lambda>stored_crc.
     res_bind (res_guard (crc32 table \<noteq> stored_crc) DrvIo) (\<lambda>_.
     res_bind (gpt_entries entries entry_size first_usable last_usable [0..<entry_count] [])
       (\<lambda>output. validate_ranges output (dk_block_count dk)))))))))))))))))))))"

section \<open>MBR\<close>

fun ebr_links ::
  "(nat \<Rightarrow> bool) \<Rightarrow> disk \<Rightarrow> nat \<Rightarrow> nat \<Rightarrow> nat \<Rightarrow> nat \<Rightarrow> nat \<Rightarrow> nat list \<Rightarrow> nat \<Rightarrow> partition list \<Rightarrow>
   (nat \<times> partition list) drv" where
  \<comment> \<open>the loop over the links; the first number counts the iterations that are left\<close>
  "ebr_links heap dk block_size base container_end 0 relative visited number output =
     res_fail DrvInvalidArgument"
| "ebr_links heap dk block_size base container_end (Suc n) relative visited number output =
     res_bind (ok_or (checked_add base relative) DrvInvalidArgument) (\<lambda>ebr_lba.
     res_bind (res_guard (ebr_lba < base \<or> container_end \<le> ebr_lba \<or> ebr_lba \<in> set visited)
       DrvInvalidArgument) (\<lambda>_.
     res_bind (zeroed heap block_size) (\<lambda>sector.
     res_bind (read_blocks dk ebr_lba 1 sector) (\<lambda>sector.
     res_bind (res_guard (slice sector 510 512 \<noteq> Some [0x55, 0xaa]) DrvInvalidArgument) (\<lambda>_.
     res_bind (res_pure (slice sector 446 462)) (\<lambda>logical.
     res_bind (res_pure (byte_at logical 4)) (\<lambda>kind.
     res_bind (le32 logical 8) (\<lambda>first_relative.
     res_bind (le32 logical 12) (\<lambda>blocks.
     res_bind
       (if kind \<noteq> 0 \<and> blocks \<noteq> 0 \<and> \<not> is_extended kind then
          res_bind (ok_or (checked_add ebr_lba first_relative) DrvInvalidArgument) (\<lambda>first.
          res_bind (res_guard (first < base \<or>
            (case checked_add first blocks of None \<Rightarrow> True | Some stop \<Rightarrow> stop > container_end))
            DrvInvalidArgument) (\<lambda>_.
          res_ok (number + 1,
            output @ [\<lparr>pt_number = number, pt_first = first, pt_blocks = blocks\<rparr>])))
        else res_ok (number, output))
       (\<lambda>(number, output).
     res_bind (res_pure (slice sector 462 478)) (\<lambda>link.
     res_bind (res_pure (byte_at link 4)) (\<lambda>link_kind.
     res_bind (if \<not> is_extended link_kind then res_ok True
               else res_bind (le32 link 12) (\<lambda>n. res_ok (n = 0))) (\<lambda>last_link.
     if last_link then res_ok (number, output)
     else res_bind (le32 link 8) (\<lambda>relative.
       ebr_links heap dk block_size base container_end n relative (visited @ [ebr_lba])
         number output))))))))))))))"

definition discover_ebr ::
  "(nat \<Rightarrow> bool) \<Rightarrow> disk \<Rightarrow> nat \<Rightarrow> nat \<Rightarrow> nat \<Rightarrow> nat \<Rightarrow> partition list \<Rightarrow>
   (nat \<times> partition list) drv" where
  "discover_ebr heap dk block_size base container_blocks number output =
     (case checked_add base container_blocks of
        None \<Rightarrow> res_fail DrvInvalidArgument
      | Some container_end \<Rightarrow>
          if container_end \<le> dk_block_count dk
          then ebr_links heap dk block_size base container_end MAX_EBR_LINKS 0 [] number output
          else res_fail DrvInvalidArgument)"

fun mbr_entries ::
  "(nat \<Rightarrow> bool) \<Rightarrow> disk \<Rightarrow> nat \<Rightarrow> u8 list \<Rightarrow> nat list \<Rightarrow> nat \<Rightarrow> partition list \<Rightarrow> partition list drv" where
  "mbr_entries heap dk block_size sector [] number output = res_ok output"
| "mbr_entries heap dk block_size sector (index # rest) number output =
     res_bind (res_pure (slice sector (446 + index * 16) (462 + index * 16))) (\<lambda>entry.
     res_bind (res_pure (byte_at entry 4)) (\<lambda>kind.
     res_bind (le32 entry 8) (\<lambda>first.
     res_bind (le32 entry 12) (\<lambda>blocks.
     if kind = 0 \<or> blocks = 0
     then mbr_entries heap dk block_size sector rest number output
     else if is_extended kind then
       res_bind (discover_ebr heap dk block_size first blocks number output) (\<lambda>(number, output).
       mbr_entries heap dk block_size sector rest number output)
     else if kind \<noteq> 0xee then
       mbr_entries heap dk block_size sector rest number
         (output @ [\<lparr>pt_number = index + 1, pt_first = first, pt_blocks = blocks\<rparr>])
     else mbr_entries heap dk block_size sector rest number output))))"

definition discover_mbr :: "(nat \<Rightarrow> bool) \<Rightarrow> disk \<Rightarrow> nat \<Rightarrow> u8 list \<Rightarrow> partition list drv" where
  "discover_mbr heap dk block_size sector =
     res_bind (mbr_entries heap dk block_size sector [0..<4] 5 []) (\<lambda>output.
     if output = [] then res_fail DrvNotFound
     else validate_ranges output (dk_block_count dk))"

definition discover :: "(nat \<Rightarrow> bool) \<Rightarrow> disk \<Rightarrow> partition list drv" where
  "discover heap dk =
     (let block_size = dk_block_size dk in
      if block_size < 512 then res_fail DrvInvalidArgument
      else
        res_bind (zeroed heap block_size) (\<lambda>sector.
        res_bind (read_blocks dk 0 1 sector) (\<lambda>sector.
        if slice sector 510 512 \<noteq> Some [0x55, 0xaa] then res_fail DrvNotFound
        else
          res_bind (res_pure (those (map (\<lambda>index. byte_at sector (446 + index * 16 + 4)) [0..<4])))
            (\<lambda>kinds.
          if 0xee \<in> set kinds then discover_gpt heap dk block_size
          else discover_mbr heap dk block_size sector))))"

section \<open>Results that are not panics\<close>

lemma total_le32 [total_steps]:
  "(\<And>n. n < 4294967296 \<Longrightarrow> total_res (f n) Q) \<Longrightarrow> total_res (res_bind (le32 bs i) f) Q"
proof (cases "slice bs i (i + 4)")
  case (Some v)
  assume Q: "\<And>n. n < 4294967296 \<Longrightarrow> total_res (f n) Q"
  have "from_le_bytes v < 4294967296" using from_le_bytes_bound [of v] slice_length [OF Some] by simp
  then show ?thesis using Some Q by (simp add: le32_def res_bind_def res_ok_def)
qed (simp add: le32_def res_bind_def res_fail_def total_res_def)

lemma total_le64 [total_steps]:
  "(\<And>n. n < u64_limit \<Longrightarrow> total_res (f n) Q) \<Longrightarrow> total_res (res_bind (le64 bs i) f) Q"
proof (cases "slice bs i (i + 8)")
  case (Some v)
  assume Q: "\<And>n. n < u64_limit \<Longrightarrow> total_res (f n) Q"
  have "from_le_bytes v < u64_limit" using from_le_bytes_bound [of v] slice_length [OF Some] by simp
  then show ?thesis using Some Q by (simp add: le64_def res_bind_def res_ok_def)
qed (simp add: le64_def res_bind_def res_fail_def total_res_def)

lemma total_zeroed [total_steps]:
  "(\<And>bs. length bs = n \<Longrightarrow> total_res (f bs) Q) \<Longrightarrow> total_res (res_bind (zeroed heap n) f) Q"
  by (simp add: zeroed_def res_bind_def res_ok_def res_fail_def total_res_def)

lemma total_read [total_steps]:
  "(\<And>bs. length bs = length buffer \<Longrightarrow> total_res (f bs) Q) \<Longrightarrow>
    total_res (res_bind (read_blocks dk lba n buffer) f) Q"
  by (auto simp: read_blocks_def res_bind_def res_ok_def res_fail_def total_res_def split: sum.split)

section \<open>Validated ranges\<close>

definition disjoint_ranges :: "partition list \<Rightarrow> bool" where
  "disjoint_ranges ps \<longleftrightarrow> (\<forall>p \<in> set ps. \<forall>q \<in> set ps. pt_number p \<noteq> pt_number q \<longrightarrow>
     {pt_first p..<pt_first p + pt_blocks p} \<inter> {pt_first q..<pt_first q + pt_blocks q} = {})"

definition valid_table :: "nat \<Rightarrow> partition list \<Rightarrow> bool" where
  "valid_table disk_blocks ps \<longleftrightarrow>
     (\<forall>p \<in> set ps. 0 < pt_first p \<and> 0 < pt_blocks p \<and> pt_first p + pt_blocks p \<le> disk_blocks) \<and>
     distinct (map pt_number ps) \<and> sorted (map pt_number ps) \<and> disjoint_ranges ps"

fun increasing :: "nat \<Rightarrow> partition list \<Rightarrow> bool" where
  "increasing prev [] = True"
| "increasing prev (p # ps) = (prev \<le> pt_first p \<and> 0 < pt_blocks p \<and> 0 < pt_first p \<and>
     increasing (pt_first p + pt_blocks p) ps)"

lemma check_ranges_ok:
  "check_ranges n prev ps = Inr () \<Longrightarrow>
    increasing prev ps \<and> (\<forall>p \<in> set ps. pt_first p + pt_blocks p \<le> n)"
  by (induction ps arbitrary: prev) (auto split: option.splits if_splits)

lemma increasing_after: "increasing prev ps \<Longrightarrow> p \<in> set ps \<Longrightarrow> prev \<le> pt_first p \<and> 0 < pt_blocks p \<and> 0 < pt_first p"
  by (induction ps arbitrary: prev) force+

lemma increasing_disjoint:
  assumes "increasing prev ps" "i < length ps" "j < length ps" "i < j"
  shows "pt_first (ps ! i) + pt_blocks (ps ! i) \<le> pt_first (ps ! j)"
  using assms
proof (induction ps arbitrary: prev i j)
  case (Cons p ps)
  then obtain j' where j: "j = Suc j'" by (cases j) auto
  show ?case
  proof (cases i)
    case 0
    have "increasing (pt_first p + pt_blocks p) ps" using Cons.prems(1) by simp
    moreover have "ps ! j' \<in> set ps" using Cons.prems j by simp
    ultimately show ?thesis using increasing_after 0 j by auto
  next
    case (Suc i')
    then show ?thesis using Cons j by auto
  qed
qed simp

lemma validate_ranges_ok:
  assumes "validate_ranges ps n = Some (Inr qs)" "distinct (map pt_number ps)"
  shows "valid_table n qs \<and> set qs = set ps"
proof -
  from assms(1) have c: "check_ranges n 0 (sort_key pt_first ps) = Inr ()" and q: "qs = sort_key pt_number ps"
    by (auto simp: validate_ranges_def res_ok_def res_fail_def split: sum.splits)
  let ?s = "sort_key pt_first ps"
  have inc: "increasing 0 ?s" and top: "\<forall>p \<in> set ps. pt_first p + pt_blocks p \<le> n"
    using check_ranges_ok [OF c] by auto
  have "disjoint_ranges qs"
    unfolding disjoint_ranges_def
  proof (intro ballI impI)
    fix p r
    assume p: "p \<in> set qs" and r: "r \<in> set qs" and ne: "pt_number p \<noteq> pt_number r"
    obtain i where i: "i < length ?s" "?s ! i = p" using p q by (metis in_set_conv_nth set_sort)
    obtain j where j: "j < length ?s" "?s ! j = r" using r q by (metis in_set_conv_nth set_sort)
    have "i \<noteq> j" using i j ne by auto
    then have "pt_first p + pt_blocks p \<le> pt_first r \<or> pt_first r + pt_blocks r \<le> pt_first p"
      using increasing_disjoint [OF inc i(1) j(1)] increasing_disjoint [OF inc j(1) i(1)] i j
      by (cases i j rule: linorder_cases) auto
    then show "{pt_first p..<pt_first p + pt_blocks p} \<inter> {pt_first r..<pt_first r + pt_blocks r} = {}" by auto
  qed
  moreover have "distinct (map pt_number qs)"
    using assms(2) q by (metis distinct_map distinct_sort set_sort)
  moreover have "\<forall>p \<in> set qs. 0 < pt_first p \<and> 0 < pt_blocks p"
    using increasing_after [OF inc] q by simp
  ultimately show ?thesis using top q by (auto simp: valid_table_def)
qed

section \<open>Discovery never panics and returns a valid table\<close>

lemma gpt_entries_total:
  assumes "\<forall>i \<in> set idxs. (i + 1) * es \<le> length entries" "sorted_wrt (<) idxs" "128 \<le> es"
    and "\<forall>p \<in> set out. \<forall>i \<in> set idxs. pt_number p \<le> i" "distinct (map pt_number out)"
    and "lu + 1 < u64_limit"
  shows "total_res (gpt_entries entries es fu lu idxs out) (\<lambda>r. distinct (map pt_number r))"
  using assms
proof (induction idxs arbitrary: out)
  case Nil
  then show ?case by (simp add: total_ok)
next
  case (Cons i idxs)
  have "total_res (gpt_entries entries es fu lu idxs out) (\<lambda>r. distinct (map pt_number r))"
    using Cons by auto
  moreover have "total_res (gpt_entries entries es fu lu idxs
      (out @ [\<lparr>pt_number = i + 1, pt_first = first, pt_blocks = b\<rparr>])) (\<lambda>r. distinct (map pt_number r))" for first b
    by (rule Cons.IH) (use Cons.prems in \<open>auto simp: Suc_le_eq\<close>)
  moreover have "checked_add (lst - first) 1 = Some (lst - first + 1)" if "lst \<le> lu" for lst first
    using that Cons.prems(6) by (simp add: checked_add_def)
  ultimately show ?case
    using Cons.prems(1,3)
    by (auto intro!: total_steps total_pure [of "checked_add a b" c for a b c])
qed

lemma validate_ranges_total:
  "distinct (map pt_number ps) \<Longrightarrow> total_res (validate_ranges ps n) (valid_table n)"
  using validate_ranges_ok [of ps n]
  by (auto simp: total_res_def validate_ranges_def res_ok_def res_fail_def split: sum.split)

definition numbered :: "nat \<Rightarrow> partition list \<Rightarrow> bool" where
  \<comment> \<open>the next logical number is above every number given so far\<close>
  "numbered number out \<longleftrightarrow> 5 \<le> number \<and> distinct (map pt_number out) \<and>
     (\<forall>p \<in> set out. pt_number p < number)"

definition added_logical :: "partition list \<Rightarrow> nat \<times> partition list \<Rightarrow> bool" where
  "added_logical out r \<longleftrightarrow> numbered (fst r) (snd r) \<and>
     (\<forall>p \<in> set (snd r). p \<in> set out \<or> 5 \<le> pt_number p)"

lemma ebr_links_total:
  assumes "512 \<le> block_size" "numbered number out"
  shows "total_res (ebr_links heap dk block_size base container_end n relative visited number out)
           (added_logical out)"
  using assms(2)
proof (induction n arbitrary: relative visited number out)
  case 0
  then show ?case by simp
next
  case (Suc n)
  have more: "numbered (number + 1) (out @ [\<lparr>pt_number = number, pt_first = f, pt_blocks = b\<rparr>])" for f b
    using Suc.prems by (auto simp: numbered_def)
  have grown: "added_logical out r"
    if "added_logical (out @ [\<lparr>pt_number = number, pt_first = f, pt_blocks = b\<rparr>]) r" for f b r
    using that Suc.prems by (auto simp: added_logical_def numbered_def)
  have next_total: "total_res (ebr_links heap dk block_size base container_end n relative visited (number + 1)
      (out @ [\<lparr>pt_number = number, pt_first = f, pt_blocks = b\<rparr>])) (added_logical out)"
    for relative visited f b
    using Suc.IH [OF more [of f b], of relative visited] grown [of f b]
    by (auto simp: total_res_def split: option.splits sum.splits)
  have stop: "added_logical out (number, out)"
    "added_logical out (number + 1, out @ [\<lparr>pt_number = number, pt_first = f, pt_blocks = b\<rparr>])" for f b
    using Suc.prems more by (auto simp: added_logical_def numbered_def)
  show ?case
    using assms(1) Suc.IH [OF Suc.prems] next_total stop
    by (simp; intro total_steps; auto intro!: total_steps total_ok)
qed

lemma mbr_entries_total:
  assumes "512 \<le> block_size" "length sector = block_size" "sorted_wrt (<) idxs" "\<forall>i \<in> set idxs. i < 4"
    and "numbered number out" "\<forall>p \<in> set out. \<forall>i \<in> set idxs. pt_number p \<le> i \<or> 5 \<le> pt_number p"
  shows "total_res (mbr_entries heap dk block_size sector idxs number out) (\<lambda>r. distinct (map pt_number r))"
  using assms(3-)
proof (induction idxs arbitrary: number out)
  case Nil
  then show ?case by (simp add: total_ok numbered_def)
next
  case (Cons i idxs)
  have skip: "total_res (mbr_entries heap dk block_size sector idxs number out) (\<lambda>r. distinct (map pt_number r))"
    using Cons by auto
  have primary: "total_res (mbr_entries heap dk block_size sector idxs number
      (out @ [\<lparr>pt_number = i + 1, pt_first = f, pt_blocks = b\<rparr>])) (\<lambda>r. distinct (map pt_number r))" for f b
    by (rule Cons.IH) (use Cons.prems in \<open>fastforce simp: numbered_def\<close>)+
  have ebr: "total_res (discover_ebr heap dk block_size f b number out) (added_logical out)" for f b
    using ebr_links_total [OF assms(1) Cons.prems(3)]
    by (simp add: discover_ebr_def split: option.split)
  have "total_res (mbr_entries heap dk block_size sector idxs n r) (\<lambda>r. distinct (map pt_number r))"
    if "added_logical out (n, r)" for n r
    by (rule Cons.IH) (use Cons.prems that in \<open>fastforce simp: added_logical_def\<close>)+
  then have logical: "total_res (res_bind (discover_ebr heap dk block_size f b number out)
      (\<lambda>(number, output). mbr_entries heap dk block_size sector idxs number output))
      (\<lambda>r. distinct (map pt_number r))" for f b
    by (intro total_bind [OF ebr]) auto
  show ?case
    using assms(1,2) Cons.prems(2) skip primary logical
    by (simp; intro total_steps; auto intro!: total_steps)
qed

lemma gpt_header_total:
  assumes "length header = block_size"
  shows "total_res (gpt_header_ok dk block_size header) (\<lambda>(first, stop). stop < dk_block_count dk)"
  using assms by (auto simp: gpt_header_ok_def Let_def GPT_MIN_HEADER_def intro!: total_steps total_ok)

lemma total_mul:
  "a * b < u64_limit \<Longrightarrow> total_res (f (a * b)) Q \<Longrightarrow>
    total_res (res_bind (res_pure (checked_mul a b)) f) Q"
  by (rule total_pure) (simp_all add: checked_mul_def)

lemma gpt_table_total:
  assumes "length entries = (count * es + bs - 1) div bs * bs" "0 < bs" "128 \<le> es" "stop + 1 < u64_limit"
  shows "total_res (gpt_entries entries es first stop [0..<count] []) (\<lambda>r. distinct (map pt_number r))"
proof (rule gpt_entries_total)
  have "count * es \<le> length entries" using div_ceil_bounds(1) [of bs "count * es"] assms by simp
  moreover have "(i + 1) * es \<le> count * es" if "i < count" for i
    using that by (intro mult_le_mono1) simp
  ultimately have "(i + 1) * es \<le> length entries" if "i < count" for i
    using that order.trans by blast
  then show "\<forall>i \<in> set [0..<count]. (i + 1) * es \<le> length entries" by simp
qed (use assms in auto)

lemma discover_gpt_total:
  assumes "512 \<le> block_size" "block_size < 4294967296" "dk_block_count dk < u64_limit"
  shows "total_res (discover_gpt heap dk block_size) (valid_table (dk_block_count dk))"
proof -
  have table: "total_res (res_bind (gpt_entries entries es first stop [0..<count] [])
      (\<lambda>output. validate_ranges output (dk_block_count dk))) (valid_table (dk_block_count dk))"
    if "length entries = (count * es + block_size - 1) div block_size * block_size" "128 \<le> es"
      "stop < dk_block_count dk" for entries es first stop count
    by (rule total_bind [OF gpt_table_total [OF that(1)]])
      (use that assms in \<open>auto intro: validate_ranges_total\<close>)
  have mul: "(n + b - Suc 0) div b * b < u64_limit"
    if "n \<le> MAX_GPT_BYTES" "512 \<le> b" "b < 4294967296" for n b
    using that div_ceil_bounds(2) [of b n] by (simp add: MAX_GPT_BYTES_def)
  have fits: "n \<le> (n + b - Suc 0) div b * b" if "512 \<le> b" for n b
    using div_ceil_bounds(1) [of b n] that by simp
  note head = total_bind [OF gpt_header_total]
  show ?thesis
    using assms(1,2) unfolding discover_gpt_def Let_def
    apply (intro total_steps head)
      apply (simp; fail)
    apply clarsimp
    apply (intro total_steps)
    apply (rule total_mul)
     apply (auto simp: checked_mul_def split: if_splits intro!: mul)[1]
    apply (intro total_steps)
      apply simp
     apply (use fits in \<open>auto simp: checked_mul_def split: if_splits\<close>)[1]
    apply (intro total_steps table)
      apply (auto simp: checked_mul_def GPT_MIN_ENTRY_def split: if_splits)
    done
qed

lemma discover_total:
  assumes "dk_block_size dk < 4294967296" "dk_block_count dk < u64_limit"
  shows "total_res (discover heap dk) (valid_table (dk_block_count dk))"
proof -
  have kinds: "\<exists>ks. those (map (\<lambda>i. byte_at sector (446 + i * 16 + 4)) [0..<4]) = Some ks"
    if "512 \<le> length sector" for sector
    using that by (simp add: byte_at_def upt_rec numeral_eq_Suc)
  have mbr: "total_res (discover_mbr heap dk bs sector) (valid_table (dk_block_count dk))"
    if "512 \<le> bs" "length sector = bs" for bs sector
    unfolding discover_mbr_def
    by (rule total_bind [OF mbr_entries_total [OF that]])
      (auto simp: numbered_def intro!: validate_ranges_total)
  have rest: "total_res (res_bind (res_pure (those (map (\<lambda>i. byte_at sector (446 + i * 16 + 4)) [0..<4])))
      (\<lambda>kinds. if 238 \<in> set kinds then discover_gpt heap dk (dk_block_size dk)
        else discover_mbr heap dk (dk_block_size dk) sector)) (valid_table (dk_block_count dk))"
    if len: "512 \<le> dk_block_size dk" "length sector = dk_block_size dk" for sector
  proof -
    obtain ks where "those (map (\<lambda>i. byte_at sector (446 + i * 16 + 4)) [0..<4]) = Some ks"
      using kinds [of sector] len by auto
    then show ?thesis
      using mbr [OF len] discover_gpt_total [OF len(1) assms] by (intro total_pure) auto
  qed
  show ?thesis
    using rest by (auto simp: discover_def Let_def intro!: total_steps)
qed

definition gpt_used :: "u8 list \<Rightarrow> nat \<Rightarrow> nat \<Rightarrow> bool" where
  \<comment> \<open>the entry has a type GUID that is not zero\<close>
  "gpt_used entries es i \<longleftrightarrow> (\<exists>b \<in> set (take 16 (drop (i * es) entries)). b \<noteq> 0)"

definition gpt_field :: "u8 list \<Rightarrow> nat \<Rightarrow> nat" where
  "gpt_field entries offset = from_le_bytes (take 8 (drop offset entries))"

definition gpt_partition :: "u8 list \<Rightarrow> nat \<Rightarrow> nat \<Rightarrow> partition" where
  \<comment> \<open>what the specification of GPT says of entry \<open>i\<close>: first and last block, both inclusive\<close>
  "gpt_partition entries es i = \<lparr>pt_number = i + 1, pt_first = gpt_field entries (i * es + 32),
     pt_blocks = gpt_field entries (i * es + 40) + 1 - gpt_field entries (i * es + 32)\<rparr>"

lemma gpt_entries_exact:
  assumes "gpt_entries entries es fu lu idxs out = Some (Inr r)"
  shows "r = out @ map (gpt_partition entries es) (filter (gpt_used entries es) idxs)"
  using assms
proof (induction idxs arbitrary: out)
  case Nil
  then show ?case by (simp add: res_ok_def)
next
  case (Cons i idxs)
  let ?entry = "take es (drop (i * es) entries)"
  from Cons.prems have es: "16 \<le> es" "(i + 1) * es \<le> length entries"
    by (auto simp: slice_def res_pure_def res_bind_def split: if_splits)
  then have guid: "take 16 ?entry = take 16 (drop (i * es) entries)" by simp
  show ?case
  proof (cases "\<forall>b \<in> set (take 16 (drop (i * es) entries)). b = 0")
    case True
    then show ?thesis
      using Cons es by (simp add: gpt_used_def slice_def res_pure_def res_bind_def guid)
  next
    case False
    have le: "le64 ?entry k = res_ok (gpt_field entries (i * es + k))"
      if "le64 ?entry k = Some (Inr x)" for k x
      using that es by (auto simp: le64_def gpt_field_def slice_def res_fail_def drop_take min_def add.commute
        split: if_splits)
    from False Cons.prems es obtain f l where fl: "le64 ?entry 32 = Some (Inr f)" "le64 ?entry 40 = Some (Inr l)"
      by (auto simp: slice_def res_pure_def res_bind_def guid split: option.splits sum.splits if_splits)
    with le have f: "f = gpt_field entries (i * es + 32)"
      "l = gpt_field entries (i * es + 40)"
      by (auto simp: res_ok_def)
    have "f \<le> l" "gpt_entries entries es fu lu idxs
        (out @ [\<lparr>pt_number = i + 1, pt_first = f, pt_blocks = l - f + 1\<rparr>]) = Some (Inr r)"
      using False Cons.prems es fl
      by (auto simp: slice_def res_pure_def res_bind_def guid res_fail_def checked_add_def split: if_splits)
    then show ?thesis
      using Cons.IH [of "out @ [\<lparr>pt_number = i + 1, pt_first = f, pt_blocks = l - f + 1\<rparr>]"] False f
      by (simp add: gpt_used_def gpt_partition_def Suc_diff_le)
  qed
qed

lemma le_Inr:
  "le32 bs i = Some (Inr n) \<longleftrightarrow> i + 4 \<le> length bs \<and> n = from_le_bytes (take 4 (drop i bs))"
  "le64 bs i = Some (Inr n) \<longleftrightarrow> i + 8 \<le> length bs \<and> n = gpt_field bs i"
  by (auto simp: le32_def le64_def gpt_field_def slice_def res_ok_def res_fail_def)

lemma zeroed_Inr: "zeroed heap n = Some (Inr bs) \<longleftrightarrow> heap n \<and> bs = replicate n 0"
  by (auto simp: zeroed_def res_ok_def res_fail_def)

lemma validate_ranges_set: "validate_ranges ps n = Some (Inr qs) \<Longrightarrow> set qs = set ps"
  by (auto simp: validate_ranges_def res_ok_def res_fail_def split: sum.splits)

lemma partition_map_range:
  "partition_map first extent lba n = Inr x \<Longrightarrow> {x..<x + n} \<subseteq> {first..<first + extent}"
  by (auto simp: partition_map_def split: option.splits if_splits)

section \<open>Properties\<close>

definition demo_disk :: disk where
  \<comment> \<open>an MBR with one primary partition of two blocks at block 1\<close>
  "demo_disk = \<lparr>dk_block_size = 512, dk_block_count = 9,
     dk_read = (\<lambda>lba n. Inr (replicate 446 0 @ [0, 0, 0, 0, 0x83, 0, 0, 0, 1, 0, 0, 0, 2, 0, 0, 0] @
       [0, 0, 0, 0, 0x83, 0, 0, 0, 4, 0, 0, 0, 5, 0, 0, 0] @ replicate 32 0 @ [0x55, 0xaa]))\<rparr>"

definition demo_partitions :: "partition list" where
  "demo_partitions = [\<lparr>pt_number = 1, pt_first = 1, pt_blocks = 2\<rparr>, \<lparr>pt_number = 2, pt_first = 4, pt_blocks = 5\<rparr>]"

lemma upt_4: "[0..<4] = [0, 1, 2, 3 :: nat]"
  by (simp add: upt_rec)

lemma demo_discover: "discover (\<lambda>_. True) demo_disk = Some (Inr demo_partitions)"
  by (simp add: discover_def demo_disk_def zeroed_def read_blocks_def slice_def byte_at_def upt_4
    discover_mbr_def res_pure_def le32_def res_ok_def res_bind_def is_extended_def validate_ranges_def
    checked_add_def demo_partitions_def nth_append nth_Cons')

text \<open>
  C10. Whatever a disk contains, and whichever reads and allocations of buffers fail, partition
  discovery does not panic. When it succeeds, every partition is a non-empty range of blocks inside the
  disk that does not contain block 0, the numbers are distinct and ascending, and the ranges
  of different partitions are disjoint.
\<close>
theorem discover_correct:
  assumes "dk_block_size dk < 2 ^ 32" "dk_block_count dk < u64_limit"
  shows "case discover heap dk of None \<Rightarrow> False | Some (Inl e) \<Rightarrow> True
         | Some (Inr ps) \<Rightarrow> valid_table (dk_block_count dk) ps"
  using discover_total [of dk heap] assms by (simp add: total_res_def)

theorem discover_witness:
  "discover (\<lambda>_. True) demo_disk = Some (Inr demo_partitions) \<and> valid_table 9 demo_partitions"
  using discover_correct [of demo_disk "\<lambda>_. True"] demo_discover by (simp add: demo_disk_def)

text \<open>
  C11. Isolation of partitions: the blocks that a request to one discovered partition is
  translated to lie inside the disk, after block 0, and are never blocks that a request to
  another partition of the same disk is translated to.
\<close>
theorem partition_isolation:
  assumes "dk_block_size dk < 2 ^ 32" "dk_block_count dk < u64_limit"
    and "discover heap dk = Some (Inr ps)" "p \<in> set ps" "q \<in> set ps" "pt_number p \<noteq> pt_number q"
    and "partition_map (pt_first p) (pt_blocks p) lba n = Inr x"
    and "partition_map (pt_first q) (pt_blocks q) lba' n' = Inr y"
  shows "{x..<x + n} \<subseteq> {1..<dk_block_count dk} \<and> {x..<x + n} \<inter> {y..<y + n'} = {}"
proof -
  have "valid_table (dk_block_count dk) ps"
    using discover_total [of dk heap] assms(1-3) by (simp add: total_res_def)
  then have v: "0 < pt_first p" "pt_first p + pt_blocks p \<le> dk_block_count dk"
    "{pt_first p..<pt_first p + pt_blocks p} \<inter> {pt_first q..<pt_first q + pt_blocks q} = {}"
    using assms(4-6) unfolding valid_table_def disjoint_ranges_def by blast+
  have r: "{x..<x + n} \<subseteq> {pt_first p..<pt_first p + pt_blocks p}"
    "{y..<y + n'} \<subseteq> {pt_first q..<pt_first q + pt_blocks q}"
    using partition_map_range assms(7,8) by blast+
  moreover have "{pt_first p..<pt_first p + pt_blocks p} \<subseteq> {1..<dk_block_count dk}"
    using v by auto
  ultimately show ?thesis using v(3) by blast
qed

theorem partition_isolation_witness:
  "partition_map 1 2 0 2 = Inr 1 \<and> partition_map 4 5 1 4 = Inr 5 \<and>
   {1..<1 + 2} \<inter> {5..<5 + 4} = ({} :: nat set)"
proof -
  have m: "partition_map 1 2 0 2 = Inr 1" "partition_map 4 5 1 4 = Inr 5"
    by (simp_all add: partition_map_def checked_add_def)
  have "{1..<1 + 2} \<subseteq> {1..<dk_block_count demo_disk} \<and> {1..<1 + 2} \<inter> {5..<5 + 4} = ({} :: nat set)"
    by (rule partition_isolation [OF _ _ demo_discover, where
      p = "\<lparr>pt_number = 1, pt_first = 1, pt_blocks = 2\<rparr>" and q = "\<lparr>pt_number = 2, pt_first = 4, pt_blocks = 5\<rparr>"
      and lba = 0 and lba' = 1])
      (use m in \<open>simp_all add: demo_disk_def demo_partitions_def\<close>)
  with m show ?thesis by simp
qed

text \<open>
  The partitions read from a GPT entry table are exactly the entries whose type GUID is
  not zero, in the order of the table, each with its index plus one as its number, its first
  block and the number of blocks up to and including its last one.
\<close>
theorem gpt_entries_correct:
  assumes "gpt_entries entries es first_usable last_usable [0..<count] [] = Some (Inr ps)"
  shows "ps = map (gpt_partition entries es) (filter (gpt_used entries es) [0..<count])"
  using gpt_entries_exact [OF assms] by simp

definition demo_gpt_entries :: "u8 list" where
  "demo_gpt_entries = replicate 128 0 @ replicate 16 7 @ replicate 16 0 @
     [34, 0, 0, 0, 0, 0, 0, 0, 41, 0, 0, 0, 0, 0, 0, 0] @ replicate 80 0"

theorem gpt_entries_witness:
  "gpt_entries demo_gpt_entries 128 34 99 [0..<2] [] = Some (Inr [\<lparr>pt_number = 2, pt_first = 34, pt_blocks = 8\<rparr>]) \<and>
   [\<lparr>pt_number = 2, pt_first = 34, pt_blocks = 8\<rparr>] =
     map (gpt_partition demo_gpt_entries 128) (filter (gpt_used demo_gpt_entries 128) [0..<2])"
proof -
  have run: "gpt_entries demo_gpt_entries 128 34 99 [0..<2] [] =
      Some (Inr [\<lparr>pt_number = 2, pt_first = 34, pt_blocks = 8\<rparr>])"
    by (simp add: demo_gpt_entries_def upt_rec slice_def res_pure_def res_bind_def le64_def res_ok_def
      checked_add_def)
  then show ?thesis using gpt_entries_correct [OF run] by simp
qed

end
