(* ===== verification/Initramfs.thy ===== *)
theory Initramfs
  imports Path Results "HOL-Library.Multiset"
begin

text \<open>
  Model of \<open>kernel/src/sys/initramfs.rs\<close>, the parser of the USTAR archive that the boot loader
  hands over and its import into the root filesystem. Strings are byte strings. The virtual
  filesystem the importer calls is an argument, a record of operations on a state
  \<open>'v\<close> with anchors \<open>'a\<close> and nodes \<open>'n\<close>; every operation may fail and may change the state.
\<close>

unbundle bit_operations_syntax

section \<open>The archive\<close>

definition TAR_BLOCK_SIZE :: nat where "TAR_BLOCK_SIZE = 512"

abbreviation slash :: u8 where "slash \<equiv> 47"

datatype init_error =
    Truncated | InvalidHeader | InvalidChecksum | InvalidNumber | InvalidPath | DuplicatePath
  | MissingEndMarker | TrailingData | UnsupportedEntry u8 | UnresolvedHardLink | Filesystem fs_error

datatype entry_kind = Regular "u8 list" | Directory | Symlink "u8 list" | HardLink "u8 list"

record tar_entry =
  te_path :: "u8 list"
  te_mode :: nat
  te_kind :: entry_kind

record tar_archive =
  ta_bytes :: "u8 list"
  ta_offset :: nat
  ta_finished :: bool

definition tar_new :: "u8 list \<Rightarrow> tar_archive" where
  "tar_new bytes = \<lparr>ta_bytes = bytes, ta_offset = 0, ta_finished = False\<rparr>"

definition header_field :: "u8 list \<Rightarrow> init_error + u8 list" where
  "header_field field =
     (let text = takeWhile (\<lambda>b. b \<noteq> 0) field in
      if utf8_valid text then Inr text else Inl InvalidPath)"

definition checked_mul8 :: "nat \<Rightarrow> nat option" where
  "checked_mul8 n = (if n * 8 < u64_limit then Some (n * 8) else None)"

fun octal_loop :: "u8 list \<Rightarrow> nat \<Rightarrow> bool \<Rightarrow> bool \<Rightarrow> init_error + nat" where
  "octal_loop [] value saw_digit finished = Inr value"
| "octal_loop (b # bs) value saw_digit finished =
     (if (b = 32 \<or> b = 0) \<and> \<not> saw_digit then octal_loop bs value saw_digit finished
      else if 48 \<le> b \<and> b \<le> 55 \<and> \<not> finished then
        (case Option.bind (checked_mul8 value) (\<lambda>v. checked_add v (unat (b - 48))) of
           None \<Rightarrow> Inl InvalidNumber
         | Some v \<Rightarrow> octal_loop bs v True finished)
      else if b = 32 \<or> b = 0 then octal_loop bs value saw_digit True
      else Inl InvalidNumber)"

definition parse_octal :: "u8 list \<Rightarrow> init_error + nat" where
  "parse_octal field =
     (if field \<noteq> [] \<and> hd field AND 0x80 \<noteq> 0 then Inl InvalidNumber
      else octal_loop field 0 False False)"

fun push_components :: "u8 list list \<Rightarrow> u8 list \<Rightarrow> init_error + u8 list" where
  \<comment> \<open>the loop over the components\<close>
  "push_components [] normalized = Inr normalized"
| "push_components (c # cs) normalized =
     (if c = [] \<or> c = [46] \<or> c = [46, 46] then Inl InvalidPath
      else push_components cs ((if normalized \<noteq> [] then normalized @ [slash] else normalized) @ c))"

definition trim_end_slashes :: "u8 list \<Rightarrow> u8 list" where
  "trim_end_slashes path = rev (dropWhile (\<lambda>b. b = slash) (rev path))"

definition normalize_path :: "u8 list \<Rightarrow> init_error + u8 list" where
  "normalize_path path =
     (if path = [] \<or> hd path = slash \<or> 0 \<in> set path then Inl InvalidPath
      else let trimmed = trim_end_slashes path in
        if trimmed = [] then Inl InvalidPath
        else push_components (split_at slash trimmed) [])"

definition parse_entry_path :: "u8 list \<Rightarrow> u8 list \<Rightarrow> init_error + u8 list" where
  "parse_entry_path prefix name =
     (if name = [] then Inl InvalidPath
      else normalize_path ((if prefix \<noteq> [] then prefix @ [slash] else []) @ name))"

definition parse_link_path :: "u8 list \<Rightarrow> init_error + u8 list" where
  "parse_link_path target = normalize_path target"

definition parse_symlink_target :: "u8 list \<Rightarrow> init_error + u8 list" where
  "parse_symlink_target target =
     (if target = [] \<or> 0 \<in> set target then Inl InvalidPath else Inr target)"

definition absolute_path :: "u8 list \<Rightarrow> u8 list" where
  "absolute_path path = slash # path"

definition tar_checksum :: "u8 list \<Rightarrow> nat" where
  "tar_checksum header =
     sum_list (map (\<lambda>(i, b). if 148 \<le> i \<and> i < 156 then 32 else unat b) (enumerate 0 header))"

definition tar_end :: "tar_archive \<Rightarrow> nat \<Rightarrow> (init_error, tar_entry option \<times> tar_archive) res" where
  \<comment> \<open>the branch for a block of zeros\<close>
  "tar_end a header_end =
     res_bind (ok_or (checked_add header_end TAR_BLOCK_SIZE) MissingEndMarker) (\<lambda>second_end.
     res_bind (ok_or (slice (ta_bytes a) header_end second_end) MissingEndMarker) (\<lambda>second.
     if \<not> (\<forall>b \<in> set second. b = 0) then res_fail MissingEndMarker
     else
       res_bind (res_pure (slice (ta_bytes a) second_end (length (ta_bytes a)))) (\<lambda>rest.
       if \<exists>b \<in> set rest. b \<noteq> 0 then res_fail TrailingData
       else res_ok (None, a\<lparr>ta_finished := True, ta_offset := length (ta_bytes a)\<rparr>))))"

definition entry_kind_of :: "u8 list \<Rightarrow> u8 list \<Rightarrow> (init_error, entry_kind) res" where
  \<comment> \<open>the match on the type byte\<close>
  "entry_kind_of header data =
     res_bind (res_pure (byte_at header 156)) (\<lambda>kind.
     res_bind (res_pure (slice header 157 257)) (\<lambda>link.
     if kind = 0 \<or> kind = 48 then res_ok (Regular data)
     else if kind = 49 then
       res_bind (Some (header_field link)) (\<lambda>t. res_bind (Some (parse_link_path t)) (\<lambda>p. res_ok (HardLink p)))
     else if kind = 50 then
       res_bind (Some (header_field link)) (\<lambda>t. res_bind (Some (parse_symlink_target t)) (\<lambda>p. res_ok (Symlink p)))
     else if kind = 53 then res_ok Directory
     else res_fail (UnsupportedEntry kind)))"

definition tar_file :: "tar_archive \<Rightarrow> nat \<Rightarrow> u8 list \<Rightarrow> (init_error, tar_entry option \<times> tar_archive) res" where
  \<comment> \<open>an entry whose header is not a block of zeros\<close>
  "tar_file a header_end header =
     res_bind (res_pure (slice header 257 263)) (\<lambda>magic.
     res_bind (res_guard (magic \<noteq> [117, 115, 116, 97, 114, 0] \<and> magic \<noteq> [117, 115, 116, 97, 114, 32])
       InvalidHeader) (\<lambda>_.
     res_bind (res_pure (slice header 148 156)) (\<lambda>checksum.
     res_bind (Some (parse_octal checksum)) (\<lambda>expected.
     res_bind (res_guard (expected \<noteq> tar_checksum header) InvalidChecksum) (\<lambda>_.
     res_bind (res_pure (slice header 345 500)) (\<lambda>prefix.
     res_bind (Some (header_field prefix)) (\<lambda>prefix.
     res_bind (res_pure (slice header 0 100)) (\<lambda>name.
     res_bind (Some (header_field name)) (\<lambda>name.
     res_bind (Some (parse_entry_path prefix name)) (\<lambda>path.
     res_bind (res_pure (slice header 100 108)) (\<lambda>mode.
     res_bind (Some (parse_octal mode)) (\<lambda>mode.
     res_bind (res_pure (slice header 124 136)) (\<lambda>size'.
     res_bind (Some (parse_octal size')) (\<lambda>size'.
     res_bind (ok_or (checked_add header_end size') Truncated) (\<lambda>data_end.
     res_bind (ok_or (slice (ta_bytes a) header_end data_end) Truncated) (\<lambda>data.
     res_bind (ok_or (checked_add size' (TAR_BLOCK_SIZE - 1)) Truncated) (\<lambda>rounded.
     res_bind (ok_or (checked_add header_end (mask_down rounded TAR_BLOCK_SIZE)) Truncated) (\<lambda>offset.
     res_bind (res_guard (offset > length (ta_bytes a)) Truncated) (\<lambda>_.
     res_bind (entry_kind_of header data) (\<lambda>kind.
     res_ok (Some \<lparr>te_path = path, te_mode = mode AND 0xFFF, te_kind = kind\<rparr>,
             a\<lparr>ta_offset := offset\<rparr>)))))))))))))))))))))"

definition tar_next :: "tar_archive \<Rightarrow> (init_error, tar_entry option \<times> tar_archive) res" where
  "tar_next a =
     (if ta_finished a then res_ok (None, a)
      else
        res_bind (ok_or (checked_add (ta_offset a) TAR_BLOCK_SIZE) Truncated) (\<lambda>header_end.
        res_bind (ok_or (slice (ta_bytes a) (ta_offset a) header_end) Truncated) (\<lambda>header.
        if \<forall>b \<in> set header. b = 0 then tar_end a header_end
        else tar_file a header_end header)))"

section \<open>The iterator over regular files\<close>

record regular_iter =
  ri_archive :: tar_archive
  ri_failed :: bool

definition regular_new :: "u8 list \<Rightarrow> regular_iter" where
  "regular_new bytes = \<lparr>ri_archive = tar_new bytes, ri_failed = False\<rparr>"

type_synonym regular_item = "(init_error + u8 list \<times> u8 list) option"

partial_function (option) regular_loop :: "tar_archive \<Rightarrow> (regular_item \<times> regular_iter) panics" where
  \<comment> \<open>after an error the position does not matter: a failed iterator is not advanced\<close>
  "regular_loop a =
     Option.bind (tar_next a) (\<lambda>r. case r of
       Inl e \<Rightarrow> Some (Some (Inl e), \<lparr>ri_archive = a, ri_failed = True\<rparr>)
     | Inr (None, a') \<Rightarrow> Some (None, \<lparr>ri_archive = a', ri_failed = False\<rparr>)
     | Inr (Some e, a') \<Rightarrow>
         (case te_kind e of
            Regular bytes \<Rightarrow> Some (Some (Inr (te_path e, bytes)), \<lparr>ri_archive = a', ri_failed = False\<rparr>)
          | _ \<Rightarrow> regular_loop a'))"

declare regular_loop.simps [code]

definition regular_next :: "regular_iter \<Rightarrow> (regular_item \<times> regular_iter) panics" where
  "regular_next it = (if ri_failed it then Some (None, it) else regular_loop (ri_archive it))"

section \<open>The import\<close>

record ('v, 'a, 'n) vfs_ops =
  vo_root_anchor :: "'v \<Rightarrow> fs_error + 'a"
  vo_resolve_at :: "'a \<Rightarrow> u8 list \<Rightarrow> bool \<Rightarrow> 'v \<Rightarrow> (fs_error + 'a) \<times> 'v"
  vo_create_dir_at :: "'a \<Rightarrow> u8 list \<Rightarrow> nat \<Rightarrow> 'v \<Rightarrow> (fs_error + unit) \<times> 'v"
  vo_create_file_at :: "'a \<Rightarrow> u8 list \<Rightarrow> nat \<Rightarrow> 'v \<Rightarrow> (fs_error + 'n) \<times> 'v"
  vo_symlink_at :: "u8 list \<Rightarrow> 'a \<Rightarrow> u8 list \<Rightarrow> 'v \<Rightarrow> (fs_error + unit) \<times> 'v"
  vo_write_at :: "'n \<Rightarrow> nat \<Rightarrow> u8 list \<Rightarrow> 'v \<Rightarrow> (fs_error + nat) \<times> 'v"
  vo_is_directory :: "'a \<Rightarrow> 'v \<Rightarrow> bool"
  vo_mount_id :: "'a \<Rightarrow> nat"
  vo_vnode_link :: "'a \<Rightarrow> u8 list \<Rightarrow> 'a \<Rightarrow> 'v \<Rightarrow> (fs_error + unit) \<times> 'v"

type_synonym ('v, 'x) vfs_run = "((init_error + 'x) \<times> 'v) panics"

definition fs_call :: "(fs_error + 'x) \<times> 'v \<Rightarrow> ('x \<Rightarrow> 'v \<Rightarrow> ('v, 'y) vfs_run) \<Rightarrow> ('v, 'y) vfs_run" where
  \<comment> \<open>a call of the filesystem whose error is propagated\<close>
  "fs_call r f = (case r of (Inl e, v) \<Rightarrow> Some (Inl (Filesystem e), v) | (Inr x, v) \<Rightarrow> f x v)"

definition parent_of :: "u8 list \<Rightarrow> u8 list" where
  "parent_of path =
     (if path \<noteq> [] \<and> hd path = slash then
        (case rsplit_once slash path of
           Some (p, _) \<Rightarrow> if p = [] then [slash] else p
         | None \<Rightarrow> [slash])
      else (case rsplit_once slash path of Some (p, _) \<Rightarrow> p | None \<Rightarrow> [slash]))"

definition name_of :: "u8 list \<Rightarrow> u8 list" where
  "name_of path = (case rsplit_once slash path of Some (_, n) \<Rightarrow> n | None \<Rightarrow> path)"

definition resolve_or_create ::
  "('v, 'a, 'n) vfs_ops \<Rightarrow> 'a \<Rightarrow> u8 list \<Rightarrow> 'v \<Rightarrow> (fs_error + 'a) \<times> 'v" where
  "resolve_or_create ops root path v =
     (case vo_resolve_at ops root path True v of
        (Inr a, v) \<Rightarrow> (Inr a, v)
      | (Inl _, v) \<Rightarrow>
          (case vo_create_dir_at ops root path 493 v of
             (Inl e, v) \<Rightarrow> (Inl e, v)
           | (Inr _, v) \<Rightarrow> vo_resolve_at ops root path True v))"

fun walk_prefixes ::
  "('v, 'a, 'n) vfs_ops \<Rightarrow> 'a \<Rightarrow> u8 list list \<Rightarrow> u8 list \<Rightarrow> (u8 list \<rightharpoonup> 'a) \<Rightarrow> 'v \<Rightarrow>
   ('v, u8 list \<rightharpoonup> 'a) vfs_run" where
  \<comment> \<open>the loop over the components of the parent\<close>
  "walk_prefixes ops root [] current cache v = Some (Inr cache, v)"
| "walk_prefixes ops root (c # cs) current cache v =
     (let current = current @ [slash] @ c in
      if cache current \<noteq> None then walk_prefixes ops root cs current cache v
      else fs_call (resolve_or_create ops root current v) (\<lambda>anchor v.
             walk_prefixes ops root cs current (cache(current \<mapsto> anchor)) v))"

definition cached_parent ::
  "('v, 'a, 'n) vfs_ops \<Rightarrow> 'a \<Rightarrow> (u8 list \<rightharpoonup> 'a) \<Rightarrow> u8 list \<Rightarrow> 'v \<Rightarrow>
   ('v, 'a \<times> u8 list \<times> (u8 list \<rightharpoonup> 'a)) vfs_run" where
  "cached_parent ops root cache path v =
     (let parent = parent_of path; name = name_of path in
      case cache parent of
        Some anchor \<Rightarrow> Some (Inr (anchor, name, cache), v)
      | None \<Rightarrow>
          (case walk_prefixes ops root (split_at slash parent) [] cache v of
             None \<Rightarrow> None
           | Some (Inl e, v) \<Rightarrow> Some (Inl e, v)
           | Some (Inr cache, v) \<Rightarrow>
               (case cache parent of
                  Some anchor \<Rightarrow> Some (Inr (anchor, name, cache), v)
                | None \<Rightarrow> Some (Inl InvalidPath, v))))"

function write_all :: "('v, 'a, 'n) vfs_ops \<Rightarrow> 'n \<Rightarrow> u8 list \<Rightarrow> nat \<Rightarrow> 'v \<Rightarrow> ('v, unit) vfs_run" where
  "write_all ops vnode data offset v =
     (if data = [] then Some (Inr (), v)
      else case vo_write_at ops vnode offset data v of
        (Inl e, v) \<Rightarrow> Some (Inl (Filesystem e), v)
      | (Inr written, v) \<Rightarrow>
          if written = 0 then Some (Inl (Filesystem FsIo), v)
          else case checked_add offset written of
            None \<Rightarrow> Some (Inl InvalidNumber, v)
          | Some offset \<Rightarrow>
              if written \<le> length data then write_all ops vnode (drop written data) offset v else None)"
  by pat_completeness auto
termination by (relation "measure (\<lambda>(ops, vnode, data, offset, v). length data)") auto

declare write_all.simps [simp del]

definition link_at ::
  "('v, 'a, 'n) vfs_ops \<Rightarrow> 'a \<Rightarrow> u8 list \<Rightarrow> bool \<Rightarrow> 'a \<Rightarrow> u8 list \<Rightarrow> 'v \<Rightarrow> (fs_error + unit) \<times> 'v" where
  "link_at ops existing_base existing follow_existing new_base new_path v =
     (case vo_resolve_at ops existing_base existing follow_existing v of
        (Inl e, v) \<Rightarrow> (Inl e, v)
      | (Inr target, v) \<Rightarrow>
          if vo_is_directory ops target v then (Inl PermissionDenied, v)
          else case split_parent new_path of
            Inl e \<Rightarrow> (Inl e, v)
          | Inr parent \<Rightarrow>
              (case vo_resolve_at ops new_base (pn_parent parent) True v of
                 (Inl e, v) \<Rightarrow> (Inl e, v)
               | (Inr directory, v) \<Rightarrow>
                   if pn_trailing_slash parent then (Inl NotDirectory, v)
                   else if vo_mount_id ops target \<noteq> vo_mount_id ops directory then (Inl CrossDevice, v)
                   else vo_vnode_link ops directory (pn_name parent) target v))"

definition fs_link :: "('v, 'a, 'n) vfs_ops \<Rightarrow> u8 list \<Rightarrow> u8 list \<Rightarrow> 'v \<Rightarrow> (fs_error + unit) \<times> 'v" where
  "fs_link ops existing new_path v =
     (case vo_root_anchor ops v of
        Inl e \<Rightarrow> (Inl e, v)
      | Inr root \<Rightarrow> link_at ops root existing True root new_path v)"

fun link_pass ::
  "('v, 'a, 'n) vfs_ops \<Rightarrow> (u8 list \<times> u8 list) list \<Rightarrow> (u8 list \<times> u8 list) list \<Rightarrow> bool \<Rightarrow> 'v \<Rightarrow>
   ('v, (u8 list \<times> u8 list) list \<times> bool) vfs_run" where
  \<comment> \<open>one pass over the links that are pending\<close>
  "link_pass ops [] unresolved progress v = Some (Inr (unresolved, progress), v)"
| "link_pass ops ((target, path) # pending) unresolved progress v =
     (case fs_link ops target path v of
        (Inr _, v) \<Rightarrow> link_pass ops pending unresolved True v
      | (Inl e, v) \<Rightarrow>
          if e = NotFound then link_pass ops pending (unresolved @ [(target, path)]) progress v
          else Some (Inl (Filesystem e), v))"

partial_function (option) resolve_hard_links ::
  "('v, 'a, 'n) vfs_ops \<Rightarrow> (u8 list \<times> u8 list) list \<Rightarrow> 'v \<Rightarrow> ('v, unit) vfs_run" where
  "resolve_hard_links ops pending v =
     (if pending = [] then Some (Inr (), v)
      else Option.bind (link_pass ops pending [] False v) (\<lambda>r. case r of
        (Inl e, v) \<Rightarrow> Some (Inl e, v)
      | (Inr (unresolved, progress), v) \<Rightarrow>
          if \<not> progress \<and> unresolved \<noteq> [] then Some (Inl UnresolvedHardLink, v)
          else resolve_hard_links ops unresolved v))"

declare resolve_hard_links.simps [code]

record 'a import_state =
  im_imported :: "u8 list set"
  im_cache :: "u8 list \<rightharpoonup> 'a"
  im_pending :: "(u8 list \<times> u8 list) list"
  im_count :: nat

definition import_entry ::
  "('v, 'a, 'n) vfs_ops \<Rightarrow> 'a \<Rightarrow> tar_entry \<Rightarrow> 'a import_state \<Rightarrow> 'v \<Rightarrow> ('v, 'a import_state) vfs_run" where
  \<comment> \<open>the match on the kind of an entry; the cache and the links that are pending may change\<close>
  "import_entry ops root entry im v =
     (let absolute = absolute_path (te_path entry) in
      case te_kind entry of
        Regular data \<Rightarrow> do {
          r \<leftarrow> cached_parent ops root (im_cache im) absolute v;
          (case r of (Inl e, v) \<Rightarrow> Some (Inl e, v)
           | (Inr (dir, name, cache), v) \<Rightarrow>
               fs_call (vo_create_file_at ops dir name (te_mode entry) v) (\<lambda>vnode v. do {
                 w \<leftarrow> write_all ops vnode data 0 v;
                 (case w of (Inl e, v) \<Rightarrow> Some (Inl e, v)
                  | (Inr _, v) \<Rightarrow> Some (Inr (im\<lparr>im_cache := cache\<rparr>), v))
               }))
        }
      | Directory \<Rightarrow> do {
          r \<leftarrow> cached_parent ops root (im_cache im) absolute v;
          (case r of (Inl e, v) \<Rightarrow> Some (Inl e, v)
           | (Inr (dir, name, cache), v) \<Rightarrow>
               (case vo_create_dir_at ops dir name (te_mode entry) v of (res, v) \<Rightarrow>
                  (case (if res = Inl AlreadyExists then Inr () else res) of
                     Inl e \<Rightarrow> Some (Inl (Filesystem e), v)
                   | Inr _ \<Rightarrow>
                       fs_call (vo_resolve_at ops root absolute True v) (\<lambda>anchor v.
                         Some (Inr (im\<lparr>im_cache := cache(absolute \<mapsto> anchor)\<rparr>), v)))))
        }
      | Symlink target \<Rightarrow> do {
          r \<leftarrow> cached_parent ops root (im_cache im) absolute v;
          (case r of (Inl e, v) \<Rightarrow> Some (Inl e, v)
           | (Inr (dir, name, cache), v) \<Rightarrow>
               fs_call (vo_symlink_at ops target dir name v) (\<lambda>_ v.
                 Some (Inr (im\<lparr>im_cache := cache\<rparr>), v)))
        }
      | HardLink target \<Rightarrow>
          Some (Inr (im\<lparr>im_pending := im_pending im @ [(absolute_path target, absolute)]\<rparr>), v))"

partial_function (option) import_loop ::
  "('v, 'a, 'n) vfs_ops \<Rightarrow> 'a \<Rightarrow> tar_archive \<Rightarrow> 'a import_state \<Rightarrow> 'v \<Rightarrow> ('v, 'a import_state) vfs_run" where
  "import_loop ops root archive im v =
     Option.bind (tar_next archive) (\<lambda>n. case n of
       Inl e \<Rightarrow> Some (Inl e, v)
     | Inr (None, archive) \<Rightarrow> Some (Inr im, v)
     | Inr (Some entry, archive) \<Rightarrow>
         if te_path entry \<in> im_imported im then Some (Inl DuplicatePath, v)
         else Option.bind
           (import_entry ops root entry
             (im\<lparr>im_imported := insert (te_path entry) (im_imported im)\<rparr>) v) (\<lambda>r. case r of
             (Inl e, v) \<Rightarrow> Some (Inl e, v)
           | (Inr im, v) \<Rightarrow>
               (case checked_add (im_count im) 1 of
                  None \<Rightarrow> Some (Inl InvalidNumber, v)
                | Some n \<Rightarrow> import_loop ops root archive (im\<lparr>im_count := n\<rparr>) v)))"

declare import_loop.simps [code]

definition populate :: "('v, 'a, 'n) vfs_ops \<Rightarrow> u8 list option \<Rightarrow> 'v \<Rightarrow> ('v, nat) vfs_run" where
  "populate ops archive v =
     (case archive of
        None \<Rightarrow> Some (Inr 0, v)
      | Some bytes \<Rightarrow>
          fs_call (vo_root_anchor ops v, v) (\<lambda>root v. do {
            r \<leftarrow> import_loop ops root (tar_new bytes)
              \<lparr>im_imported = {}, im_cache = [[slash] \<mapsto> root], im_pending = [], im_count = 0\<rparr> v;
            (case r of
               (Inl e, v) \<Rightarrow> Some (Inl e, v)
             | (Inr im, v) \<Rightarrow> do {
                 l \<leftarrow> resolve_hard_links ops (im_pending im) v;
                 (case l of (Inl e, v) \<Rightarrow> Some (Inl e, v) | (Inr _, v) \<Rightarrow> Some (Inr (im_count im), v))
               })
          }))"

section \<open>Clean paths\<close>

definition good_component :: "u8 list \<Rightarrow> bool" where
  "good_component c \<longleftrightarrow> c \<noteq> [] \<and> c \<noteq> [46] \<and> c \<noteq> [46, 46]"

definition clean_path :: "u8 list \<Rightarrow> bool" where
  \<comment> \<open>relative, no empty component, no dot components, no NUL\<close>
  "clean_path p \<longleftrightarrow> p \<noteq> [] \<and> 0 \<notin> set p \<and> (\<forall>c \<in> set (split_at slash p). good_component c)"

lemma push_components_more:
  "n \<noteq> [] \<Longrightarrow> push_components cs n =
     (if \<forall>c \<in> set cs. good_component c then Inr (n @ concat (map (\<lambda>c. slash # c) cs)) else Inl InvalidPath)"
  by (induction cs arbitrary: n) (auto simp: good_component_def)

lemma join_with_concat: "join_with sep (c # cs) = c @ concat (map (\<lambda>c. sep # c) cs)"
  by (induction cs arbitrary: c) (auto simp: join_with_Cons)

lemma push_components_join:
  "cs \<noteq> [] \<Longrightarrow> push_components cs [] =
     (if \<forall>c \<in> set cs. good_component c then Inr (join_with slash cs) else Inl InvalidPath)"
  by (cases cs) (auto simp: push_components_more join_with_concat good_component_def)

lemma trim_end_decompose: "\<exists>n. path = trim_end_slashes path @ replicate n slash"
proof -
  let ?t = "takeWhile (\<lambda>b. b = slash) (rev path)"
  have "replicate (length ?t) slash = ?t"
    by (rule replicate_length_same) (auto dest: set_takeWhileD)
  then have "rev ?t = replicate (length ?t) slash" by (metis rev_replicate)
  moreover have "path = trim_end_slashes path @ rev ?t"
    by (simp add: trim_end_slashes_def flip: rev_append)
  ultimately show ?thesis by metis
qed

lemma trim_end_unique:
  assumes "p \<noteq> []" "last p \<noteq> slash"
  shows "trim_end_slashes (p @ replicate n slash) = p"
proof -
  have "dropWhile (\<lambda>b. b = slash) (replicate n slash @ rev p) = rev p"
    using assms by (subst dropWhile_append2) (simp_all add: dropWhile_eq_self_iff hd_rev)
  then show ?thesis by (simp add: trim_end_slashes_def)
qed

lemma split_at_snoc: "split_at sep (q @ [sep]) = split_at sep q @ [[]]"
  by (induction q) (auto split: list.split)

lemma clean_path_last: "clean_path p \<Longrightarrow> last p \<noteq> slash"
proof
  assume c: "clean_path p" "last p = slash"
  then have "p = butlast p @ [slash]" by (metis append_butlast_last_id clean_path_def)
  then have "split_at slash p = split_at slash (butlast p) @ [[]]"
    using split_at_snoc [of slash "butlast p"] by simp
  with c(1) show False by (simp add: clean_path_def good_component_def)
qed

lemma clean_path_hd: "clean_path p \<Longrightarrow> hd p \<noteq> slash"
  by (cases p) (auto simp: clean_path_def good_component_def split: if_splits)

lemma normalize_path_iff:
  "normalize_path path = Inr p \<longleftrightarrow> clean_path p \<and> (\<exists>n. path = p @ replicate n slash)"
proof
  assume n: "normalize_path path = Inr p"
  then have "trim_end_slashes path \<noteq> []" "0 \<notin> set path" and
    p: "push_components (split_at slash (trim_end_slashes path)) [] = Inr p"
    by (auto simp: normalize_path_def Let_def split: if_splits)
  from p have "p = trim_end_slashes path" "\<forall>c \<in> set (split_at slash (trim_end_slashes path)). good_component c"
    by (simp_all add: push_components_join split: if_splits)
  moreover have "set (trim_end_slashes path) \<subseteq> set path"
    by (auto simp: trim_end_slashes_def dest: set_dropWhileD)
  ultimately show "clean_path p \<and> (\<exists>n. path = p @ replicate n slash)"
    using \<open>trim_end_slashes path \<noteq> []\<close> \<open>0 \<notin> set path\<close> trim_end_decompose [of path]
    by (auto simp: clean_path_def)
next
  assume "clean_path p \<and> (\<exists>n. path = p @ replicate n slash)"
  then obtain n where c: "clean_path p" and path: "path = p @ replicate n slash" by blast
  have "p \<noteq> []" using c by (simp add: clean_path_def)
  then have "trim_end_slashes path = p" "hd path = hd p" "path \<noteq> []"
    using trim_end_unique clean_path_last [OF c] path by auto
  moreover have "0 \<notin> set path" using c path by (auto simp: clean_path_def)
  ultimately show "normalize_path path = Inr p"
    using c clean_path_hd [OF c] \<open>p \<noteq> []\<close>
    by (simp add: normalize_path_def push_components_join clean_path_def)
qed

section \<open>Octal fields\<close>

fun octal_digits :: "nat \<Rightarrow> nat \<Rightarrow> u8 list" where
  "octal_digits 0 n = []"
| "octal_digits (Suc k) n = octal_digits k (n div 8) @ [48 + word_of_nat (n mod 8)]"

lemma octal_digit: "n < 8 \<Longrightarrow> 48 \<le> (48 + word_of_nat n :: u8) \<and> (48 + word_of_nat n :: u8) \<le> 55 \<and>
    unat (word_of_nat n :: u8) = n \<and> (48 + word_of_nat n :: u8) \<noteq> 0 \<and> (48 + word_of_nat n :: u8) \<noteq> 32"
proof -
  assume "n < 8"
  then have "n = 0 \<or> n = 1 \<or> n = 2 \<or> n = 3 \<or> n = 4 \<or> n = 5 \<or> n = 6 \<or> n = 7" by arith
  then show ?thesis by (elim disjE) simp_all
qed

lemma octal_loop_digit:
  "x * 8 + d < u64_limit \<Longrightarrow> d < 8 \<Longrightarrow>
    octal_loop ((48 + word_of_nat d) # rest) x saw False = octal_loop rest (x * 8 + d) True False"
  using octal_digit [of d] by (simp add: checked_mul8_def checked_add_def)

lemma octal_loop_digits:
  "n < 8 ^ k \<Longrightarrow> v * 8 ^ k + n < u64_limit \<Longrightarrow>
    octal_loop (octal_digits k n @ rest) v saw False = octal_loop rest (v * 8 ^ k + n) (saw \<or> 0 < k) False"
proof (induction k arbitrary: n rest)
  case (Suc k)
  have small: "n div 8 < 8 ^ k" using Suc.prems(1) by (simp add: less_mult_imp_div_less mult.commute)
  have part: "x < u64_limit" if "x * 8 + m < u64_limit" for x m :: nat using that by simp
  have eq: "(v * 8 ^ k + n div 8) * 8 + n mod 8 = v * 8 ^ Suc k + n"
    by (simp add: algebra_simps)
  then have le: "(v * 8 ^ k + n div 8) * 8 + n mod 8 < u64_limit" using Suc.prems(2) by simp
  have "octal_loop (octal_digits k (n div 8) @ (48 + word_of_nat (n mod 8)) # rest) v saw False =
      octal_loop ((48 + word_of_nat (n mod 8)) # rest) (v * 8 ^ k + n div 8) (saw \<or> 0 < k) False"
    by (rule Suc.IH [OF small]) (rule part [OF le])
  also have "\<dots> = octal_loop rest (v * 8 ^ Suc k + n) True False"
    by (subst octal_loop_digit [OF le]) (simp, simp only: eq)
  finally show ?case by simp
qed simp

lemma octal_loop_leading: "octal_loop (replicate j 32 @ bs) v False False = octal_loop bs v False False"
  by (induction j) auto

lemma octal_loop_trailing:
  "\<forall>b \<in> set bs. b = 0 \<or> b = 32 \<Longrightarrow> octal_loop bs v saw fin = Inr v"
  by (induction bs arbitrary: saw fin) auto

section \<open>The parser advances and never panics\<close>

definition entry_ok :: "u8 list \<Rightarrow> tar_entry \<Rightarrow> bool" where
  \<comment> \<open>a clean path, permission bits only, and a payload that lies inside the archive\<close>
  "entry_ok bytes e \<longleftrightarrow> clean_path (te_path e) \<and> te_mode e < 4096 \<and>
     (case te_kind e of
        Regular d \<Rightarrow> \<exists>i. slice bytes i (i + length d) = Some d
      | Directory \<Rightarrow> True
      | Symlink t \<Rightarrow> t \<noteq> [] \<and> 0 \<notin> set t
      | HardLink p \<Rightarrow> clean_path p)"

definition advanced :: "tar_archive \<Rightarrow> tar_entry option \<times> tar_archive \<Rightarrow> bool" where
  "advanced a r \<longleftrightarrow> ta_bytes (snd r) = ta_bytes a \<and>
     (case fst r of
        None \<Rightarrow> ta_finished (snd r)
      | Some e \<Rightarrow> entry_ok (ta_bytes a) e \<and> ta_finished (snd r) = ta_finished a \<and>
          ta_offset a + TAR_BLOCK_SIZE \<le> ta_offset (snd r) \<and> ta_offset (snd r) \<le> length (ta_bytes a))"

lemma total_sum [total_steps]:
  "(\<And>x. m = Inr x \<Longrightarrow> total_res (f x) Q) \<Longrightarrow> total_res (res_bind (Some m) f) Q"
  by (cases m) (simp_all add: res_bind_def total_res_def)

lemma entry_kind_total:
  assumes "length header = 512" "slice bytes i (i + length data) = Some data"
  shows "total_res (entry_kind_of header data) (\<lambda>k. case k of
     Regular d \<Rightarrow> \<exists>i. slice bytes i (i + length d) = Some d | Directory \<Rightarrow> True
   | Symlink t \<Rightarrow> t \<noteq> [] \<and> 0 \<notin> set t | HardLink p \<Rightarrow> clean_path p)"
  using assms
  by (auto simp: entry_kind_of_def parse_link_path_def normalize_path_iff parse_symlink_target_def
    intro!: total_steps total_ok split: if_splits)

lemma tar_file_total:
  assumes "length header = 512" "header_end = ta_offset a + TAR_BLOCK_SIZE"
  shows "total_res (tar_file a header_end header) (advanced a)"
proof -
  have data: "slice (ta_bytes a) header_end (header_end + length d) = Some d"
    if "slice (ta_bytes a) header_end stop = Some d" for stop d
    using that slice_length [OF that] by (auto simp: slice_def split: if_splits)
  have path: "clean_path p" if "parse_entry_path x y = Inr p" for x y p
    using that by (auto simp: parse_entry_path_def normalize_path_iff split: if_splits)
  have mode: "m AND 4095 < (4096 :: nat)" for m
    using take_bit_nat_less_exp [of 12 m] by (simp add: take_bit_eq_mask mask_eq_exp_minus_1)
  note kind = total_bind [OF entry_kind_total [OF assms(1) data]]
  show ?thesis
    unfolding tar_file_def
    by (intro total_steps kind total_ok)
      (use assms path mode in \<open>auto simp: advanced_def entry_ok_def ok_or_def\<close>)
qed

lemma tar_next_total: "total_res (tar_next a) (advanced a)"
proof -
  have "total_res (tar_end a header_end) (advanced a)" for header_end
    by (auto simp: tar_end_def advanced_def slice_def intro!: total_steps total_ok split: if_splits)
  moreover have "length header = 512" if "slice bs i (i + TAR_BLOCK_SIZE) = Some header" for bs i header
    using slice_length [OF that] by (simp add: TAR_BLOCK_SIZE_def)
  ultimately show ?thesis
    unfolding tar_next_def
    by (auto intro!: total_steps total_ok tar_file_total simp: advanced_def)
qed

lemma regular_loop_returns:
  "\<exists>item it'. regular_loop a = Some (item, it') \<and> ta_bytes (ri_archive it') = ta_bytes a \<and>
    (case item of
       None \<Rightarrow> ta_finished (ri_archive it') \<and> \<not> ri_failed it'
     | Some (Inl e) \<Rightarrow> ri_failed it'
     | Some (Inr (p, d)) \<Rightarrow> clean_path p \<and> (\<exists>i. slice (ta_bytes a) i (i + length d) = Some d) \<and>
         ta_offset a < ta_offset (ri_archive it') \<and> \<not> ri_failed it')"
proof (induction "length (ta_bytes a) - ta_offset a" arbitrary: a rule: less_induct)
  case less
  from tar_next_total [of a] consider e where "tar_next a = Some (Inl e)"
    | x a' where "tar_next a = Some (Inr (x, a'))" "advanced a (x, a')"
    by (auto simp: total_res_def split: option.splits sum.splits)
  then show ?case
  proof cases
    case 1
    then show ?thesis by (subst regular_loop.simps) simp
  next
    case (2 x a')
    show ?thesis
    proof (cases "\<exists>e. x = Some e \<and> (\<nexists>d. te_kind e = Regular d)")
      case True
      then obtain e where e: "x = Some e" "\<nexists>d. te_kind e = Regular d" by blast
      have same: "ta_bytes a' = ta_bytes a" and more: "ta_offset a < ta_offset a'"
        and "ta_offset a' \<le> length (ta_bytes a)"
        using 2(2) e(1) by (auto simp: advanced_def TAR_BLOCK_SIZE_def)
      then have "length (ta_bytes a') - ta_offset a' < length (ta_bytes a) - ta_offset a" by simp
      from less [OF this] obtain item it' where r: "regular_loop a' = Some (item, it')"
        "ta_bytes (ri_archive it') = ta_bytes a'"
        "case item of None \<Rightarrow> ta_finished (ri_archive it') \<and> \<not> ri_failed it'
         | Some (Inl e) \<Rightarrow> ri_failed it'
         | Some (Inr (p, d)) \<Rightarrow> clean_path p \<and> (\<exists>i. slice (ta_bytes a') i (i + length d) = Some d) \<and>
             ta_offset a' < ta_offset (ri_archive it') \<and> \<not> ri_failed it'"
        by blast
      have "regular_loop a = regular_loop a'"
        using 2(1) e by (subst regular_loop.simps) (auto split: entry_kind.split)
      with r same more show ?thesis by (auto split: option.splits sum.splits)
    next
      case False
      then consider "x = None" | e d where "x = Some e" "te_kind e = Regular d" by (cases x) auto
      then show ?thesis
      proof cases
        case 1
        then show ?thesis using 2 by (subst regular_loop.simps) (simp add: advanced_def)
      next
        case (2 e d)
        with \<open>tar_next a = _\<close> \<open>advanced a _\<close> show ?thesis
          by (subst regular_loop.simps) (simp add: advanced_def entry_ok_def TAR_BLOCK_SIZE_def)
      qed
    qed
  qed
qed

section \<open>The import returns\<close>

definition writes_at_most :: "('v, 'a, 'n) vfs_ops \<Rightarrow> bool" where
  \<comment> \<open>the contract of a write: it does not report more bytes than it was given\<close>
  "writes_at_most ops \<longleftrightarrow> (\<forall>node offset data v n v'.
     vo_write_at ops node offset data v = (Inr n, v') \<longrightarrow> n \<le> length data)"

lemma fs_call_returns: "(\<And>x v. r = (Inr x, v) \<Longrightarrow> \<exists>y. f x v = Some y) \<Longrightarrow> \<exists>y. fs_call r f = Some y"
  by (auto simp: fs_call_def split: prod.split sum.split)

lemma walk_prefixes_returns: "\<exists>y. walk_prefixes ops root cs current cache v = Some y"
proof (induction cs arbitrary: current cache v)
  case (Cons c cs)
  show ?case by (simp add: Let_def Cons.IH del: split_paired_Ex) (intro impI fs_call_returns Cons.IH)
qed simp

lemma cached_parent_returns: "\<exists>y. cached_parent ops root cache path v = Some y"
proof -
  obtain y where "walk_prefixes ops root (split_at slash (parent_of path)) [] cache v = Some y"
    using walk_prefixes_returns [of ops root "split_at slash (parent_of path)" "[]" cache v] by (elim exE)
  then show ?thesis
    by (cases y; cases "fst y") (auto simp: cached_parent_def Let_def split: option.splits)
qed

lemma write_all_returns: "writes_at_most ops \<Longrightarrow> \<exists>y. write_all ops vnode data offset v = Some y"
proof (induction ops vnode data offset v rule: write_all.induct)
  case (1 ops vnode data offset v)
  show ?case
  proof (cases "data = []")
    case False
    obtain r v' where w: "vo_write_at ops vnode offset data v = (r, v')" by fastforce
    show ?thesis
    proof (cases r)
      case (Inr n)
      then have "n \<le> length data" using "1.prems" w unfolding writes_at_most_def by blast
      then show ?thesis
        using 1(1) [OF False w [symmetric] Inr] "1.prems" False w Inr
        by (subst write_all.simps) (auto split: option.split)
    qed (use w False in \<open>subst write_all.simps, simp\<close>)
  qed (simp add: write_all.simps)
qed

lemma import_entry_returns:
  "writes_at_most ops \<Longrightarrow> \<exists>y. import_entry ops root entry im v = Some y"
proof -
  assume w: "writes_at_most ops"
  obtain y where "cached_parent ops root (im_cache im) (absolute_path (te_path entry)) v = Some y"
    using cached_parent_returns [of ops root "im_cache im" "absolute_path (te_path entry)" v] by (elim exE)
  moreover have "\<exists>z. do {
      w \<leftarrow> write_all ops vnode data 0 v;
      (case w of (Inl e, v) \<Rightarrow> Some (Inl e, v) | (Inr _, v) \<Rightarrow> Some (Inr (im\<lparr>im_cache := cache\<rparr>), v))
    } = Some z" for vnode data v cache
    using write_all_returns [OF w, of vnode data 0 v] by (auto split: sum.split prod.split)
  ultimately show ?thesis
    by (auto simp: import_entry_def Let_def simp del: split_paired_Ex
      split: entry_kind.split sum.split prod.split intro!: fs_call_returns)
qed

lemma import_loop_returns:
  assumes "writes_at_most ops"
  shows "\<exists>y. import_loop ops root a im v = Some y"
proof (induction "length (ta_bytes a) - ta_offset a" arbitrary: a im v rule: less_induct)
  case less
  from tar_next_total [of a] consider e where "tar_next a = Some (Inl e)"
    | a' where "tar_next a = Some (Inr (None, a'))"
    | e a' where "tar_next a = Some (Inr (Some e, a'))" "advanced a (Some e, a')"
    by (auto simp: total_res_def split: option.splits sum.splits) (metis option.exhaust)
  then show ?case
  proof cases
    case (3 e a')
    then have "length (ta_bytes a') - ta_offset a' < length (ta_bytes a) - ta_offset a"
      by (auto simp: advanced_def TAR_BLOCK_SIZE_def)
    from less [OF this] have rest: "\<exists>y. import_loop ops root a' im' v' = Some y" for im' v' .
    obtain y where "import_entry ops root e (im\<lparr>im_imported := insert (te_path e) (im_imported im)\<rparr>) v = Some y"
      using import_entry_returns [OF assms] by blast
    with 3(1) rest show ?thesis
      by (subst import_loop.simps) (auto split: prod.split sum.split option.split)
  qed (subst import_loop.simps, simp)+
qed

section \<open>Hard links\<close>

fun link_all :: "('v, 'a, 'n) vfs_ops \<Rightarrow> (u8 list \<times> u8 list) list \<Rightarrow> 'v \<Rightarrow> 'v option" where
  \<comment> \<open>the state after making every link in turn, if each of them succeeds\<close>
  "link_all ops [] v = Some v"
| "link_all ops ((t, p) # ls) v =
     (case fs_link ops t p v of (Inr _, v') \<Rightarrow> link_all ops ls v' | (Inl _, _) \<Rightarrow> None)"

definition quiet_links :: "('v, 'a, 'n) vfs_ops \<Rightarrow> bool" where
  \<comment> \<open>a lookup changes nothing, and neither does a directory that refuses a link as not found\<close>
  "quiet_links ops \<longleftrightarrow> (\<forall>a p f v. snd (vo_resolve_at ops a p f v) = v) \<and>
     (\<forall>d n t v v'. vo_vnode_link ops d n t v = (Inl NotFound, v') \<longrightarrow> v' = v)"

definition link_missing :: "('v, 'a, 'n) vfs_ops \<Rightarrow> u8 list \<Rightarrow> u8 list \<Rightarrow> 'v \<Rightarrow> bool" where
  \<comment> \<open>what is not found when a link is: the root, the target, the directory of the new name, or
     something that directory needs\<close>
  "link_missing ops t p v \<longleftrightarrow> (case vo_root_anchor ops v of
      Inl e \<Rightarrow> e = NotFound
    | Inr root \<Rightarrow>
        (case fst (vo_resolve_at ops root t True v) of
           Inl e \<Rightarrow> e = NotFound
         | Inr target \<Rightarrow>
             (case split_parent p of
                Inl _ \<Rightarrow> False
              | Inr parent \<Rightarrow>
                  (case fst (vo_resolve_at ops root (pn_parent parent) True v) of
                     Inl e \<Rightarrow> e = NotFound
                   | Inr directory \<Rightarrow> fst (vo_vnode_link ops directory (pn_name parent) target v) = Inl NotFound))))"

lemma split_parent_errors: "split_parent p \<noteq> Inl NotFound"
  by (auto simp: split_parent_def validate_path_def validate_leaf_name_def validate_name_def Let_def
      split: sum.split prod.split if_splits)

lemma fs_link_not_found:
  assumes "quiet_links ops" "fs_link ops t p v = (Inl NotFound, v')"
  shows "v' = v" "link_missing ops t p v"
proof -
  have q: "vo_resolve_at ops a x f w = (fst (vo_resolve_at ops a x f w), w)" for a x f w
    using assms(1) by (metis prod.collapse quiet_links_def)
  have l: "vo_vnode_link ops d n x w = (Inl NotFound, w') \<Longrightarrow> w' = w" for d n x w w'
    using assms(1) by (simp add: quiet_links_def)
  have "v' = v \<and> link_missing ops t p v"
  proof (cases "vo_root_anchor ops v")
    case (Inr root)
    show ?thesis
    proof (cases "fst (vo_resolve_at ops root t True v)")
      case target: (Inr target)
      show ?thesis
      proof (cases "split_parent p")
        case parent: (Inr parent)
        show ?thesis
          using assms(2) Inr target parent q [of root t True v] q [of root "pn_parent parent" True v] l
          by (auto simp: fs_link_def link_at_def link_missing_def split: if_splits sum.splits prod.splits)
      qed (use assms(2) Inr target q [of root t True v] split_parent_errors in
          \<open>auto simp: fs_link_def link_at_def split: if_splits prod.splits\<close>)
    qed (use assms(2) Inr q [of root t True v] in \<open>auto simp: fs_link_def link_at_def link_missing_def split: prod.splits\<close>)
  qed (use assms(2) in \<open>auto simp: fs_link_def link_missing_def\<close>)
  then show "v' = v" "link_missing ops t p v" by blast+
qed

lemma link_all_append: "link_all ops (xs @ ys) v = Option.bind (link_all ops xs v) (link_all ops ys)"
  by (induction ops xs v rule: link_all.induct) (auto split: prod.split sum.split)

definition pass_ok ::
  "('v, 'a, 'n) vfs_ops \<Rightarrow> (u8 list \<times> u8 list) list \<Rightarrow> (u8 list \<times> u8 list) list \<Rightarrow> bool \<Rightarrow> 'v \<Rightarrow>
   (init_error + (u8 list \<times> u8 list) list \<times> bool) \<times> 'v \<Rightarrow> bool" where
  \<comment> \<open>a pass makes some of the links, in order, and keeps the others\<close>
  "pass_ok ops pending un pr v r \<longleftrightarrow> (case fst r of
      Inl e \<Rightarrow> \<exists>f. e = Filesystem f
    | Inr (un', pr') \<Rightarrow> \<exists>made rest. un' = un @ rest \<and> mset pending = mset made + mset rest \<and>
        link_all ops made v = Some (snd r) \<and> (pr' \<longleftrightarrow> pr \<or> made \<noteq> []) \<and>
        (made = [] \<longrightarrow> (\<forall>(t, p) \<in> set pending. fs_link ops t p v = (Inl NotFound, v))))"

lemma pass_okI:
  "fst r = Inr y \<Longrightarrow> fst y = un @ rest \<Longrightarrow> mset pending = mset made + mset rest \<Longrightarrow>
    link_all ops made v = Some (snd r) \<Longrightarrow> (snd y \<longleftrightarrow> pr \<or> made \<noteq> []) \<Longrightarrow>
    (made = [] \<Longrightarrow> \<forall>(t, p) \<in> set pending. fs_link ops t p v = (Inl NotFound, v)) \<Longrightarrow>
    pass_ok ops pending un pr v r"
  unfolding pass_ok_def by (cases y) auto

lemma pass_ok_made:
  assumes "fs_link ops t p v = (Inr u, w)" "pass_ok ops pending un True w r"
  shows "pass_ok ops ((t, p) # pending) un pr v r"
proof (cases "fst r")
  case (Inr y)
  with assms(2) obtain made rest where "fst y = un @ rest" "mset pending = mset made + mset rest"
    "link_all ops made w = Some (snd r)" "snd y"
    by (auto simp: pass_ok_def split: prod.splits)
  with Inr assms(1) show ?thesis
    by (intro pass_okI [where y = y and made = "(t, p) # made" and rest = rest]) auto
qed (use assms(2) in \<open>simp add: pass_ok_def\<close>)

lemma pass_ok_kept:
  assumes "fs_link ops t p v = (Inl NotFound, v)" "pass_ok ops pending (un @ [(t, p)]) pr v r"
  shows "pass_ok ops ((t, p) # pending) un pr v r"
proof (cases "fst r")
  case (Inr y)
  with assms(2) obtain made rest where "fst y = un @ (t, p) # rest" "mset pending = mset made + mset rest"
    "link_all ops made v = Some (snd r)" "snd y \<longleftrightarrow> pr \<or> made \<noteq> []"
    "made = [] \<longrightarrow> (\<forall>(t, p) \<in> set pending. fs_link ops t p v = (Inl NotFound, v))"
    by (auto simp: pass_ok_def split: prod.splits)
  with Inr assms(1) show ?thesis
    by (intro pass_okI [where y = y and made = made and rest = "(t, p) # rest"]) auto
qed (use assms(2) in \<open>simp add: pass_ok_def\<close>)

lemma link_pass_spec:
  assumes "quiet_links ops"
  shows "\<exists>r. link_pass ops pending un pr v = Some r \<and> pass_ok ops pending un pr v r"
proof (induction pending arbitrary: un pr v)
  case Nil
  then show ?case by (simp add: pass_ok_def)
next
  case (Cons x pending)
  obtain t p where x: "x = (t, p)" by fastforce
  obtain r w where l: "fs_link ops t p v = (r, w)" by fastforce
  consider u where "r = Inr u" | "r = Inl NotFound" "w = v" | e where "r = Inl e" "e \<noteq> NotFound"
    using l fs_link_not_found(1) [OF assms] by (cases r) auto
  then show ?case
  proof cases
    case 1
    then show ?thesis
      using Cons.IH [of un True w] l x pass_ok_made by (fastforce simp del: split_paired_Ex)
  next
    case 2
    then show ?thesis
      using Cons.IH [of "un @ [x]" pr v] l x pass_ok_kept by (fastforce simp del: split_paired_Ex)
  next
    case 3
    then show ?thesis using x l by (simp add: pass_ok_def)
  qed
qed

definition links_ok ::
  "('v, 'a, 'n) vfs_ops \<Rightarrow> (u8 list \<times> u8 list) list \<Rightarrow> 'v \<Rightarrow> (init_error + unit) \<times> 'v \<Rightarrow> bool" where
  \<comment> \<open>on success every link was made once; for a link that stays unresolved something is missing\<close>
  "links_ok ops pending v r \<longleftrightarrow> (case fst r of
      Inr _ \<Rightarrow> \<exists>order. mset order = mset pending \<and> link_all ops order v = Some (snd r)
    | Inl e \<Rightarrow> (\<exists>f. e = Filesystem f) \<or> e = UnresolvedHardLink \<and>
        (\<exists>made rest. mset made + mset rest = mset pending \<and> link_all ops made v = Some (snd r) \<and> rest \<noteq> [] \<and>
          (\<forall>(t, p) \<in> set rest. link_missing ops t p (snd r))))"

lemma links_ok_unresolved:
  "fst r = Inl UnresolvedHardLink \<Longrightarrow> mset made + mset rest = mset pending \<Longrightarrow>
    link_all ops made v = Some (snd r) \<Longrightarrow> rest \<noteq> [] \<Longrightarrow>
    \<forall>(t, p) \<in> set rest. link_missing ops t p (snd r) \<Longrightarrow> links_ok ops pending v r"
  unfolding links_ok_def by auto

lemma links_ok_step:
  assumes "link_all ops made v = Some w" "mset pending = mset made + mset rest" "links_ok ops rest w r"
  shows "links_ok ops pending v r"
proof (cases "fst r")
  case (Inl e)
  show ?thesis
  proof (cases "\<exists>f. e = Filesystem f")
    case False
    with Inl assms(3) obtain made' rest' where "e = UnresolvedHardLink"
      "mset made' + mset rest' = mset rest" "link_all ops made' w = Some (snd r)" "rest' \<noteq> []"
      "\<forall>(t, p) \<in> set rest'. link_missing ops t p (snd r)"
      by (auto simp: links_ok_def)
    moreover from this have "link_all ops (made @ made') v = Some (snd r)"
      "mset (made @ made') + mset rest' = mset pending"
      using assms(1,2) by (auto simp: link_all_append ac_simps)
    ultimately show ?thesis using Inl by (intro links_ok_unresolved) auto
  qed (use Inl in \<open>simp add: links_ok_def\<close>)
next
  case (Inr u)
  with assms(3) obtain order where "mset order = mset rest" "link_all ops order w = Some (snd r)"
    by (auto simp: links_ok_def)
  then have "mset (made @ order) = mset pending" "link_all ops (made @ order) v = Some (snd r)"
    using assms(1,2) by (auto simp: link_all_append)
  then have "\<exists>order. mset order = mset pending \<and> link_all ops order v = Some (snd r)" by blast
  then show ?thesis using Inr by (simp add: links_ok_def)
qed

lemma resolve_hard_links_spec:
  assumes "quiet_links ops"
  shows "\<exists>r. resolve_hard_links ops pending v = Some r \<and> links_ok ops pending v r"
proof (induction "length pending" arbitrary: pending v rule: less_induct)
  case less
  show ?case
  proof (cases "pending = []")
    case True
    then show ?thesis by (subst resolve_hard_links.simps) (simp add: links_ok_def)
  next
    case False
    obtain r w where pass: "link_pass ops pending [] False v = Some (r, w)"
      and ok: "pass_ok ops pending [] False v (r, w)"
      using link_pass_spec [OF assms, of pending "[]" False v] by auto
    show ?thesis
    proof (cases r)
      case (Inl e)
      then show ?thesis
        using pass ok False by (subst resolve_hard_links.simps) (simp add: pass_ok_def links_ok_def)
    next
      case (Inr y)
      with ok obtain made where made: "mset pending = mset made + mset (fst y)" "link_all ops made v = Some w"
        "snd y \<longleftrightarrow> made \<noteq> []"
        "made = [] \<longrightarrow> (\<forall>(t, p) \<in> set pending. fs_link ops t p v = (Inl NotFound, v))"
        by (auto simp: pass_ok_def split: prod.splits)
      have len: "length pending = length made + length (fst y)"
        using arg_cong [OF made(1), of size] by simp
      show ?thesis
      proof (cases "made = []")
        case True
        then have "\<forall>(t, p) \<in> set pending. link_missing ops t p w"
          using made(2,4) fs_link_not_found(2) [OF assms] by fastforce
        then have "links_ok ops pending v (Inl UnresolvedHardLink, w)"
          using made False True by (intro links_ok_unresolved [where made = "[]" and rest = pending]) auto
        moreover have "fst y \<noteq> []" using True len False by auto
        ultimately show ?thesis
          using pass Inr made(3) True False by (subst resolve_hard_links.simps) (simp add: split_beta)
      next
        case made_some: False
        then have "length (fst y) < length pending" using len by simp
        then obtain r' where "resolve_hard_links ops (fst y) w = Some r'" "links_ok ops (fst y) w r'"
          using less by blast
        then show ?thesis
          using links_ok_step [OF made(2,1)] pass Inr made(3) made_some False
          by (subst resolve_hard_links.simps) (auto simp: split_beta)
      qed
    qed
  qed
qed

section \<open>Parents\<close>

lemma walk_prefixes_keys:
  assumes "walk_prefixes ops root cs current cache v = Some (Inr cache', v')"
    and "take 2 (current @ [slash]) = [slash, slash]" "take 2 k \<noteq> [slash, slash]"
  shows "cache' k = cache k"
  using assms(1,2)
proof (induction cs arbitrary: current cache v)
  case (Cons c cs)
  let ?current = "current @ [slash] @ c"
  have two: "take 2 (?current @ [slash]) = [slash, slash]" "take 2 ?current = [slash, slash]"
    using Cons.prems(2) by (cases current, simp, cases "tl current", auto simp: take_Cons')
  then have k: "k \<noteq> ?current" using assms(3) by blast
  show ?case
  proof (cases "cache ?current")
    case None
    then obtain a w where "walk_prefixes ops root cs ?current (cache(?current \<mapsto> a)) w = Some (Inr cache', v')"
      using Cons.prems(1) by (auto simp: Let_def fs_call_def split: prod.splits sum.splits)
    from Cons.IH [OF this two(1)] k show ?thesis by simp
  next
    case (Some a)
    then show ?thesis using Cons.IH [OF _ two(1)] Cons.prems(1) by (simp add: Let_def)
  qed
qed simp

lemma split_at_last: "slash \<notin> set c \<Longrightarrow> last (split_at slash (q @ slash # c)) = c"
proof -
  assume "slash \<notin> set c"
  moreover have "split_at slash (q @ slash # c) = split_at slash q @ split_at slash c"
    by (induction q) (auto split: list.split)
  ultimately show ?thesis by (simp add: split_single)
qed

lemma clean_path_cases:
  assumes "clean_path p"
  obtains "slash \<notin> set p" "parent_of (absolute_path p) = [slash]" "name_of (absolute_path p) = last (split_at slash p)"
  | q where "parent_of (absolute_path p) = slash # q" "q \<noteq> []" "hd q \<noteq> slash"
      "name_of (absolute_path p) = last (split_at slash p)"
proof (cases "slash \<in> set p")
  case False
  then have "rsplit_once slash (absolute_path p) = Some ([], p)"
    using rsplit_once_append [of slash p "[]"] by (simp add: absolute_path_def)
  with False that(1) show ?thesis
    by (simp add: parent_of_def name_of_def split_single absolute_path_def)
next
  case True
  then obtain q c where p: "p = q @ slash # c" "slash \<notin> set c" using split_list_last by metis
  then have "rsplit_once slash (absolute_path p) = Some (slash # q, c)"
    using rsplit_once_append [of slash c "slash # q"] by (simp add: absolute_path_def)
  moreover have "q \<noteq> []" "hd q \<noteq> slash"
    using clean_path_hd [OF assms] p(1) by (auto simp: hd_append split: if_splits)
  ultimately show ?thesis
    using that(2) [of q] p split_at_last by (simp add: parent_of_def name_of_def absolute_path_def)
qed

section \<open>Writing\<close>

definition patch :: "'b list \<Rightarrow> nat \<Rightarrow> 'b list \<Rightarrow> 'b list" where
  "patch c off d = take off c @ d @ drop (off + length d) c"

definition writes_prefix :: "('v, 'a, 'n) vfs_ops \<Rightarrow> 'n \<Rightarrow> ('v \<Rightarrow> u8 list) \<Rightarrow> bool" where
  \<comment> \<open>the contract of a write: some prefix of the data is stored at the offset\<close>
  "writes_prefix ops node content \<longleftrightarrow> (\<forall>off data v n v'.
     vo_write_at ops node off data v = (Inr n, v') \<longrightarrow>
     n \<le> length data \<and> content v' = patch (content v) off (take n data))"

lemma patch_patch:
  "off \<le> length c \<Longrightarrow> patch (patch c off d) (off + length d) e = patch c off (d @ e)"
  by (simp add: patch_def ac_simps)

lemma write_all_patches:
  assumes "writes_prefix ops node content"
  shows "write_all ops node data off v = Some (Inr (), v') \<Longrightarrow> off \<le> length (content v) \<Longrightarrow>
    content v' = patch (content v) off data"
proof (induction data arbitrary: off v rule: length_induct)
  case (1 data)
  show ?case
  proof (cases "data = []")
    case True
    with 1 show ?thesis by (simp add: write_all.simps patch_def)
  next
    case False
    then obtain n w where w: "vo_write_at ops node off data v = (Inr n, w)" "0 < n"
      "write_all ops node (drop n data) (off + n) w = Some (Inr (), v')"
      using "1.prems"(1) by (subst (asm) write_all.simps) (auto split: prod.splits sum.splits option.splits if_splits)
    have n: "n \<le> length data" and c: "content w = patch (content v) off (take n data)"
      using w(1) assms unfolding writes_prefix_def by blast+
    have len: "off + n \<le> length (content w)" using c n "1.prems"(2) by (simp add: patch_def)
    have "length (drop n data) < length data" using w(2) False by simp
    then have "content v' = patch (content w) (off + n) (drop n data)"
      using "1.IH" w(3) len by blast
    also have "\<dots> = patch (content v) off (take n data @ drop n data)"
      using patch_patch [OF "1.prems"(2), of "take n data" "drop n data"] c n by simp
    finally show ?thesis by simp
  qed
qed

section \<open>Properties\<close>

text \<open>
  C12. The archive parser accepts any bytes without panicking. When it returns an entry, the
  path of the entry is clean (relative, without empty, dot or dot-dot components, without
  NUL), so that an archive cannot name anything outside its root; the payload of a regular
  file is a slice of the archive; and the parser has advanced by at least one block without
  leaving the archive, so that every traversal ends.
\<close>
theorem tar_next_correct:
  "case tar_next a of None \<Rightarrow> False | Some (Inl e) \<Rightarrow> True | Some (Inr r) \<Rightarrow> advanced a r"
  using tar_next_total by (simp add: total_res_def)

text \<open>
  The iterator over the regular files always returns. An item is a clean path with a
  payload inside the archive, or an error, after which the iterator yields nothing more.
\<close>
theorem regular_next_correct:
  "\<exists>item it'. regular_next it = Some (item, it') \<and>
    (case item of
       None \<Rightarrow> ri_failed it' = ri_failed it
     | Some (Inl e) \<Rightarrow> regular_next it' = Some (None, it')
     | Some (Inr (p, d)) \<Rightarrow> clean_path p \<and>
         (\<exists>i. slice (ta_bytes (ri_archive it)) i (i + length d) = Some d))"
proof (cases "ri_failed it")
  case False
  obtain item it' where "regular_loop (ri_archive it) = Some (item, it')"
    "case item of
       None \<Rightarrow> ta_finished (ri_archive it') \<and> \<not> ri_failed it'
     | Some (Inl e) \<Rightarrow> ri_failed it'
     | Some (Inr (p, d)) \<Rightarrow> clean_path p \<and>
         (\<exists>i. slice (ta_bytes (ri_archive it)) i (i + length d) = Some d) \<and>
         ta_offset (ri_archive it) < ta_offset (ri_archive it') \<and> \<not> ri_failed it'"
    using regular_loop_returns [of "ri_archive it"] by blast
  with False show ?thesis
    by (intro exI [of _ item] exI [of _ it'])
      (auto simp: regular_next_def split: option.splits sum.splits prod.splits)
qed (simp add: regular_next_def)

text \<open>
  Path normalisation accepts exactly a clean path followed by any number of slashes, and
  returns the clean path.
\<close>
theorem normalize_path_correct:
  "normalize_path path = Inr p \<longleftrightarrow> clean_path p \<and> (\<exists>n. path = p @ replicate n slash)"
  by (rule normalize_path_iff)

text \<open>
  Octal fields round-trip: a 64-bit number written with any number of leading
  blanks, enough octal digits and trailing blanks or NULs is read back.
\<close>
theorem parse_octal_roundtrip:
  assumes "n < 8 ^ k" "n < u64_limit" "\<forall>b \<in> set trail. b = 0 \<or> b = 32" "0 < k"
  shows "parse_octal (replicate j 32 @ octal_digits k n @ trail) = Inr n"
proof -
  have "hd (octal_digits k n @ trail) AND 0x80 = 0"
  proof -
    have low: "(48 + word_of_nat d :: u8) AND 0x80 = 0" if "d < 8" for d
    proof -
      from that have "d = 0 \<or> d = 1 \<or> d = 2 \<or> d = 3 \<or> d = 4 \<or> d = 5 \<or> d = 6 \<or> d = 7" by arith
      then show ?thesis by (elim disjE) simp_all
    qed
    have "\<forall>b \<in> set (octal_digits k n). b AND 0x80 = 0"
      by (induction k n rule: octal_digits.induct) (auto intro: low)
    moreover have "octal_digits k n \<noteq> []" using assms(4) by (cases k) auto
    ultimately show ?thesis by simp
  qed
  then have "hd (replicate j 32 @ octal_digits k n @ trail) AND 0x80 = 0" by (cases j) auto
  then have "parse_octal (replicate j 32 @ octal_digits k n @ trail) =
      octal_loop (replicate j 32 @ octal_digits k n @ trail) 0 False False"
    by (simp add: parse_octal_def)
  also have "\<dots> = octal_loop trail n True False"
    using octal_loop_digits [OF assms(1), of 0 trail False] assms(2,4) by (simp add: octal_loop_leading)
  also have "\<dots> = Inr n" by (rule octal_loop_trailing [OF assms(3)])
  finally show ?thesis .
qed

theorem parse_octal_witness: "parse_octal [32, 48, 55, 55, 53, 0, 32] = Inr 509"
  using parse_octal_roundtrip [of 509 "Suc (Suc (Suc (Suc 0)))" "[0, 32]" 1] by simp

text \<open>
  When every write stores a prefix of its data at the given offset, a completed
  run of the writing loop has stored all the data, whatever the sizes of the single writes.
\<close>
theorem write_all_correct:
  assumes "writes_prefix ops node content"
    and "write_all ops node data off v = Some (Inr (), v')" "off \<le> length (content v)"
  shows "content v' = patch (content v) off data"
  using write_all_patches [OF assms] .

definition demo_vfs :: "(u8 list set \<times> u8 list, u8 list, unit) vfs_ops" where
  \<comment> \<open>the paths that exist, besides the root, and the content of one file, written two bytes at a time;
     a path is its own anchor\<close>
  "demo_vfs = \<lparr>vo_root_anchor = (\<lambda>v. Inr [slash]),
     vo_resolve_at = (\<lambda>a p b v. (if p \<in> insert [slash] (fst v) then Inr p else Inl NotFound, v)),
     vo_create_dir_at = (\<lambda>a n m v. (Inr (), v)), vo_create_file_at = (\<lambda>a n m v. (Inr (), v)),
     vo_symlink_at = (\<lambda>t a n v. (Inr (), v)),
     vo_write_at = (\<lambda>node off data v. (Inr (min 2 (length data)), (fst v, patch (snd v) off (take 2 data)))),
     vo_is_directory = (\<lambda>a v. a = [slash]), vo_mount_id = (\<lambda>a. 0),
     vo_vnode_link = (\<lambda>d n t v. (Inr (), (insert (if d = [slash] then slash # n else d @ slash # n) (fst v), snd v)))\<rparr>"

theorem write_all_witness:
  "write_all demo_vfs () [1, 2, 3] 0 ({}, []) = Some (Inr (), ({}, [1, 2, 3])) \<and> patch [] 0 [1, 2, 3] = [1, 2, 3 :: u8]"
proof -
  have c: "writes_prefix demo_vfs () snd"
    by (auto simp: writes_prefix_def demo_vfs_def min_def)
  have run: "write_all demo_vfs () [1, 2, 3] 0 ({}, []) = Some (Inr (), ({}, [1, 2, 3]))"
    by (simp add: write_all.simps demo_vfs_def patch_def checked_add_def)
  show ?thesis using write_all_correct [OF c run] run by simp
qed

text \<open>
  C13. Hard links that are met before their targets are still made: resolution always returns. On
  success every pending link has been made exactly once, in some order. When it gives up, some
  links are left, and for each of them the target, the directory of the new name, or what that
  directory needs does not exist; all the others have been made. Lookups change nothing, and
  neither does a directory that answers that something is not found.
\<close>
theorem resolve_hard_links_correct:
  assumes "quiet_links ops"
  shows "\<exists>r. resolve_hard_links ops pending v = Some r \<and> links_ok ops pending v r"
  by (rule resolve_hard_links_spec [OF assms])

lemma demo_link:
  "fs_link demo_vfs [47, 98] [47, 97] v =
     (if [47, 98] \<in> fst v then (Inr (), (insert [47, 97] (fst v), snd v)) else (Inl NotFound, v))"
  "fs_link demo_vfs [47, 99] [47, 98] v =
     (if [47, 99] \<in> fst v then (Inr (), (insert [47, 98] (fst v), snd v)) else (Inl NotFound, v))"
proof -
  have "split_parent [47, x] = Inr \<lparr>pn_parent = [47], pn_name = [x], pn_trailing_slash = False\<rparr>" if "x \<in> {97, 98}" for x
    using that by (elim insertE emptyE; hypsubst) code_simp+
  then show "fs_link demo_vfs [47, 98] [47, 97] v =
     (if [47, 98] \<in> fst v then (Inr (), (insert [47, 97] (fst v), snd v)) else (Inl NotFound, v))"
    "fs_link demo_vfs [47, 99] [47, 98] v =
     (if [47, 99] \<in> fst v then (Inr (), (insert [47, 98] (fst v), snd v)) else (Inl NotFound, v))"
    by (simp_all add: fs_link_def link_at_def demo_vfs_def)
qed

lemma demo_quiet: "quiet_links demo_vfs"
  by (simp add: quiet_links_def demo_vfs_def)

theorem resolve_hard_links_witness:
  "resolve_hard_links demo_vfs [([47, 98], [47, 97]), ([47, 99], [47, 98])] ({[47, 99]}, []) =
     Some (Inr (), ({[47, 97], [47, 98], [47, 99]}, [])) \<and>
   links_ok demo_vfs [([47, 98], [47, 97]), ([47, 99], [47, 98])] ({[47, 99]}, [])
     (Inr (), ({[47, 97], [47, 98], [47, 99]}, []))"
proof -
  have "resolve_hard_links demo_vfs [([47, 98], [47, 97]), ([47, 99], [47, 98])] ({[47, 99]}, []) =
      Some (Inr (), ({[47, 97], [47, 98], [47, 99]}, []))"
    by (simp add: resolve_hard_links.simps demo_link insert_commute)
  with resolve_hard_links_correct [OF demo_quiet, of "[([47, 98], [47, 97]), ([47, 99], [47, 98])]" "({[47, 99]}, [])"]
  show ?thesis by simp
qed

lemma hard_link_needs_directory:
  \<comment> \<open>a link to an existing file in a directory that has no entry of its own is not made\<close>
  "resolve_hard_links demo_vfs [([47, 98], [47, 100, 47, 97])] ({[47, 98]}, []) =
     Some (Inl UnresolvedHardLink, ({[47, 98]}, []))"
proof -
  have "split_parent [47, 100, 47, 97] = Inr \<lparr>pn_parent = [47, 100], pn_name = [97], pn_trailing_slash = False\<rparr>"
    by code_simp
  then have "fs_link demo_vfs [47, 98] [47, 100, 47, 97] ({[47, 98]}, []) = (Inl NotFound, ({[47, 98]}, []))"
    by (simp add: fs_link_def link_at_def demo_vfs_def)
  then show ?thesis by (subst resolve_hard_links.simps) simp
qed

text \<open>
  C14. Finding the parent directory of an entry succeeds exactly when the parent is in the
  cache, and then yields its anchor and the last component of the path. An uncached parent is
  always refused, although the code is meant to create it: its components are looked up and
  cached under keys that begin with two slashes, never under the parent's own path.
\<close>
theorem cached_parent_correct:
  assumes "clean_path p" "cache [slash] = Some a"
  shows "case cache (parent_of (absolute_path p)) of
      Some anchor \<Rightarrow> cached_parent ops root cache (absolute_path p) v =
        Some (Inr (anchor, last (split_at slash p), cache), v)
    | None \<Rightarrow> \<exists>e v'. cached_parent ops root cache (absolute_path p) v = Some (Inl e, v')"
  using assms(1)
proof (cases rule: clean_path_cases)
  case 1
  then show ?thesis using assms(2) by (simp add: cached_parent_def)
next
  case (2 q)
  show ?thesis
  proof (cases "cache (slash # q)")
    case None
    obtain r w where walk: "walk_prefixes ops root (split_at slash (slash # q)) [] cache v = Some (r, w)"
      using walk_prefixes_returns [of ops root "split_at slash (slash # q)" "[]" cache v] by auto
    then have tail: "walk_prefixes ops root (split_at slash q) [slash] cache v = Some (r, w)"
      using assms(2) by (simp add: Let_def)
    have "take 2 (slash # q) \<noteq> [slash, slash]" using 2 by (cases q) auto
    then have "cache' (slash # q) = None" if "r = Inr cache'" for cache'
      using walk_prefixes_keys [of ops root _ "[slash]" cache v cache' w "slash # q"] tail that None by simp
    with walk None 2 show ?thesis by (cases r) (auto simp: cached_parent_def Let_def)
  qed (use 2 in \<open>simp add: cached_parent_def\<close>)
qed

theorem cached_parent_witness:
  "\<exists>e v'. cached_parent demo_vfs [slash] [[slash] \<mapsto> [slash]] (absolute_path [97, 47, 98]) ({}, []) = Some (Inl e, v')"
proof -
  have "clean_path [97, 47, 98]" "parent_of (absolute_path [97, 47, 98]) = [47, 97]"
    by code_simp+
  then show ?thesis
    using cached_parent_correct [of "[97, 47, 98]" "[[slash] \<mapsto> [slash]]" "[slash]" demo_vfs "[slash]" "({}, [])"] by simp
qed

text \<open>
  The import of an archive always returns, provided a write never reports more bytes than
  it was given, and lookups and links that find nothing change nothing.
\<close>
theorem populate_returns:
  assumes "writes_at_most ops" "quiet_links ops"
  shows "\<exists>r v'. populate ops archive v = Some (r, v')"
proof (cases archive)
  case (Some bytes)
  have "\<exists>y. do {
      r \<leftarrow> import_loop ops root (tar_new bytes) im v;
      (case r of (Inl e, v) \<Rightarrow> Some (Inl e, v)
       | (Inr im, v) \<Rightarrow> do {
           l \<leftarrow> resolve_hard_links ops (im_pending im) v;
           (case l of (Inl e, v) \<Rightarrow> Some (Inl e, v) | (Inr _, v) \<Rightarrow> Some (Inr (im_count im), v))
         })
    } = Some y" for root im v
  proof -
    obtain r w where "import_loop ops root (tar_new bytes) im v = Some (r, w)"
      using import_loop_returns [OF assms(1), of root "tar_new bytes" im v] by auto
    moreover obtain l u where "resolve_hard_links ops (im_pending (projr r)) w = Some (l, u)"
      using resolve_hard_links_spec [OF assms(2), of "im_pending (projr r)" w] by auto
    ultimately show ?thesis by (cases r; cases l) auto
  qed
  then have "\<exists>y. populate ops archive v = Some y"
    unfolding populate_def Some option.case by (intro fs_call_returns) blast
  then show ?thesis by auto
qed (simp add: populate_def)

theorem populate_witness: "\<exists>r v'. populate demo_vfs (Some (replicate 1024 0)) ({}, []) = Some (r, v')"
  using populate_returns [of demo_vfs "Some (replicate 1024 0)" "({}, [])"]
  by (simp add: writes_at_most_def quiet_links_def demo_vfs_def)

end
