(* ===== verification/Device_Tables.thy ===== *)
theory Device_Tables
  imports Errors "HOL-Library.List_Lexorder"
begin

text \<open>
  Model of the tables a device carries and of the matching of drivers to devices:
  \<open>kernel/src/driver/core/resource.rs\<close>, \<open>property.rs\<close> and \<open>match_table.rs\<close>. Strings are byte
  strings, compared as Rust compares them. The lemmas show that resource ranges are handled
  without wrap-around (and the one place where they are not), that a built property table
  answers like a finite map, and that matching selects the first entry of maximal score.
\<close>

unbundle bit_operations_syntax

type_synonym bytes = "u8 list"

section \<open>Resources\<close>

definition KIND_MEM :: u32 where "KIND_MEM = 1"
definition KIND_IO :: u32 where "KIND_IO = 2"
definition KIND_IRQ :: u32 where "KIND_IRQ = 3"
definition KIND_DMA :: u32 where "KIND_DMA = 4"
definition KIND_BUS :: u32 where "KIND_BUS = 5"
definition MAX_RESOURCES :: nat where "MAX_RESOURCES = 64"

record resource =
  rs_kind :: u32
  rs_flags :: u32
  rs_start :: u64
  rs_size :: u64
  rs_bus_start :: u64
  rs_name :: "bytes option"

definition resource_new :: "u32 \<Rightarrow> u32 \<Rightarrow> u64 \<Rightarrow> u64 \<Rightarrow> drv_error + resource" where
  "resource_new kind flags start size' =
     (if \<not> (KIND_MEM \<le> kind \<and> kind \<le> KIND_BUS) then Inl DrvInvalidArgument
      else if size' = 0 \<or> word_checked_add start (size' - 1) = None then Inl DrvInvalidArgument
      else Inr \<lparr>rs_kind = kind, rs_flags = flags, rs_start = start, rs_size = size',
        rs_bus_start = start, rs_name = None\<rparr>)"

definition resource_validate :: "resource \<Rightarrow> drv_error + unit" where
  "resource_validate r =
     (if \<not> (KIND_MEM \<le> rs_kind r \<and> rs_kind r \<le> KIND_BUS) then Inl DrvInvalidArgument
      else if rs_size r = 0 \<or> word_checked_add (rs_start r) (rs_size r - 1) = None
      then Inl DrvInvalidArgument
      else Inr ())"

definition resource_end :: "resource \<Rightarrow> u64 panics" where
  \<comment> \<open>\<open>start + size - 1\<close>, evaluated from the left\<close>
  "resource_end r = do {
     s \<leftarrow> word_checked_add (rs_start r) (rs_size r);
     if s = 0 then None else Some (s - 1)
   }"

definition resource_covers :: "resource \<Rightarrow> u64 \<Rightarrow> u64 \<Rightarrow> bool" where
  "resource_covers r offset len \<longleftrightarrow> len \<noteq> 0 \<and>
     (case word_checked_add offset len of None \<Rightarrow> False | Some stop \<Rightarrow> stop \<le> rs_size r)"

definition with_name :: "resource \<Rightarrow> bytes \<Rightarrow> resource" where
  "with_name r name = (if name \<noteq> [] then r\<lparr>rs_name := Some name\<rparr> else r)"

definition with_bus_start :: "resource \<Rightarrow> u64 \<Rightarrow> resource" where
  "with_bus_start r bus_start = r\<lparr>rs_bus_start := bus_start\<rparr>"

definition resources_push :: "resource list \<Rightarrow> resource \<Rightarrow> drv_error + (nat \<times> resource list)" where
  "resources_push entries r =
     (if MAX_RESOURCES \<le> length entries then Inl DrvNoSpace
      else Inr (length entries, entries @ [r]))"

definition resource_find :: "resource list \<Rightarrow> u32 \<Rightarrow> nat \<Rightarrow> resource option" where
  "resource_find rs kind index =
     (let matching = filter (\<lambda>r. rs_kind r = kind) rs in
      if index < length matching then Some (matching ! index) else None)"

definition resource_find_named :: "resource list \<Rightarrow> u32 \<Rightarrow> bytes \<Rightarrow> resource option" where
  "resource_find_named rs kind name = find (\<lambda>r. rs_kind r = kind \<and> rs_name r = Some name) rs"

section \<open>Properties of a device\<close>

datatype prop_value =
    PropEmpty | PropU32 u32 | PropU64 u64 | PropStr bytes | PropStrList "bytes list"
  | PropU32List "u32 list" | PropU64List "u64 list" | PropBytes bytes

fun prop_kind :: "prop_value \<Rightarrow> nat" where
  "prop_kind PropEmpty = 0"
| "prop_kind (PropU32 _) = 1"
| "prop_kind (PropU64 _) = 2"
| "prop_kind (PropStr _) = 3"
| "prop_kind (PropStrList _) = 4"
| "prop_kind (PropU32List _) = 5"
| "prop_kind (PropU64List _) = 6"
| "prop_kind (PropBytes _) = 7"

definition get_at :: "'a list \<Rightarrow> nat \<Rightarrow> 'a option" where
  "get_at xs i = (if i < length xs then Some (xs ! i) else None)"

fun prop_as_u64 :: "prop_value \<Rightarrow> u64 option" where
  "prop_as_u64 (PropU32 v) = Some (ucast v)"
| "prop_as_u64 (PropU64 v) = Some v"
| "prop_as_u64 (PropU32List vs) = map_option ucast (get_at vs 0)"
| "prop_as_u64 (PropU64List vs) = get_at vs 0"
| "prop_as_u64 _ = None"

fun prop_string_at :: "prop_value \<Rightarrow> nat \<Rightarrow> bytes option" where
  "prop_string_at (PropStr v) index = (if index = 0 then Some v else None)"
| "prop_string_at (PropStrList vs) index = get_at vs index"
| "prop_string_at _ index = None"

fun prop_len :: "prop_value \<Rightarrow> nat" where
  "prop_len PropEmpty = 0"
| "prop_len (PropU32 _) = 1"
| "prop_len (PropU64 _) = 1"
| "prop_len (PropStr _) = 1"
| "prop_len (PropStrList vs) = length vs"
| "prop_len (PropU32List vs) = length vs"
| "prop_len (PropU64List vs) = length vs"
| "prop_len (PropBytes vs) = length vs"

definition prop_is_empty :: "prop_value \<Rightarrow> bool" where
  "prop_is_empty v \<longleftrightarrow> prop_len v = 0"

fun prop_contains_string :: "prop_value \<Rightarrow> bytes \<Rightarrow> bool" where
  "prop_contains_string (PropStr v) text = (v = text)"
| "prop_contains_string (PropStrList vs) text = (\<exists>v \<in> set vs. v = text)"
| "prop_contains_string _ text = False"

fun prop_cell_at :: "prop_value \<Rightarrow> nat \<Rightarrow> u64 option" where
  "prop_cell_at (PropU32 v) index = (if index = 0 then Some (ucast v) else None)"
| "prop_cell_at (PropU64 v) index = (if index = 0 then Some v else None)"
| "prop_cell_at (PropU32List vs) index = map_option ucast (get_at vs index)"
| "prop_cell_at (PropU64List vs) index = get_at vs index"
| "prop_cell_at _ index = None"

fun prop_bytes :: "prop_value \<Rightarrow> bytes option" where
  "prop_bytes (PropBytes v) = Some v"
| "prop_bytes _ = None"

definition MAX_PROPERTIES :: nat where "MAX_PROPERTIES = 256"
definition MAX_NAME :: nat where "MAX_NAME = 128"

type_synonym properties = "(bytes \<times> prop_value) list"

fun replace_first :: "bytes \<Rightarrow> prop_value \<Rightarrow> properties \<Rightarrow> properties option" where
  \<comment> \<open>the search for the entry to be assigned; no value when there is none\<close>
  "replace_first name value [] = None"
| "replace_first name value ((k, v) # es) =
     (if k = name then Some ((k, value) # es)
      else map_option (Cons (k, v)) (replace_first name value es))"

definition builder_set :: "properties \<Rightarrow> bytes \<Rightarrow> prop_value \<Rightarrow> drv_error + properties" where
  "builder_set entries name value =
     (if name = [] \<or> length name > MAX_NAME then Inl DrvInvalidArgument
      else case replace_first name value entries of
        Some entries' \<Rightarrow> Inr entries'
      | None \<Rightarrow>
          if MAX_PROPERTIES \<le> length entries then Inl DrvNoSpace
          else Inr (entries @ [(name, value)]))"

definition builder_remove :: "properties \<Rightarrow> bytes \<Rightarrow> properties" where
  "builder_remove entries name = filter (\<lambda>(k, v). k \<noteq> name) entries"

definition builder_build :: "properties \<Rightarrow> properties" where
  \<comment> \<open>an unstable sort: the keys of a builder are distinct\<close>
  "builder_build entries = sort_key fst entries"

function bsearch_base :: "('a \<Rightarrow> bool) \<Rightarrow> 'a list \<Rightarrow> nat \<Rightarrow> nat \<Rightarrow> nat" where
  \<comment> \<open>the halving loop of the standard library's binary search; \<open>too_big\<close> tells whether an
     element is above the one searched for\<close>
  "bsearch_base too_big xs base n =
     (if n \<le> 1 then base
      else bsearch_base too_big xs (if too_big (xs ! (base + n div 2)) then base else base + n div 2)
             (n - n div 2))"
  by pat_completeness auto
termination by (relation "measure (\<lambda>(too_big, xs, base, n). n)") auto

declare bsearch_base.simps [simp del]

definition properties_get :: "properties \<Rightarrow> bytes \<Rightarrow> prop_value option" where
  "properties_get entries name =
     (if entries = [] then None
      else let i = bsearch_base (\<lambda>e. name < fst e) entries 0 (length entries) in
           if fst (entries ! i) = name then Some (snd (entries ! i)) else None)"

definition properties_contains :: "properties \<Rightarrow> bytes \<Rightarrow> bool" where
  "properties_contains entries name \<longleftrightarrow> properties_get entries name \<noteq> None"

definition properties_entry :: "properties \<Rightarrow> nat \<Rightarrow> (bytes \<times> prop_value) option" where
  "properties_entry entries index = get_at entries index"

definition properties_has_string :: "properties \<Rightarrow> bytes \<Rightarrow> bytes \<Rightarrow> bool" where
  "properties_has_string entries name text =
     (case properties_get entries name of None \<Rightarrow> False | Some v \<Rightarrow> prop_contains_string v text)"

section \<open>Matching\<close>

definition MATCH_COMPATIBLE :: u32 where "MATCH_COMPATIBLE = 1"
definition MATCH_NAME :: u32 where "MATCH_NAME = 2"
definition MATCH_ACPI_ID :: u32 where "MATCH_ACPI_ID = 3"
definition MATCH_PROPERTY :: u32 where "MATCH_PROPERTY = 4"
definition MATCH_ID :: u32 where "MATCH_ID = 5"
definition MATCH_ANY :: u32 where "MATCH_ANY = 6"
definition NO_BONUS :: u32 where "NO_BONUS = 1"

definition ascii :: "string \<Rightarrow> bytes" where
  "ascii s = map of_char s"

definition PROP_ID :: bytes where "PROP_ID = ascii ''id''"
definition PROP_ID_CLASS :: bytes where "PROP_ID_CLASS = ascii ''class''"
definition PROP_COMPATIBLE :: bytes where "PROP_COMPATIBLE = ascii ''compatible''"
definition PROP_ACPI_HID :: bytes where "PROP_ACPI_HID = ascii ''acpi.hid''"
definition PROP_ACPI_CID :: bytes where "PROP_ACPI_CID = ascii ''acpi.cid''"
definition COMPATIBLE_BONUS :: int where "COMPATIBLE_BONUS = 1024"

record device =
  dev_name :: bytes
  dev_properties :: properties

record match_entry =
  me_kind :: u32
  me_flags :: u32
  me_key :: "bytes option"
  me_value :: "bytes option"
  me_id0 :: u64
  me_mask0 :: u64
  me_id1 :: u64
  me_mask1 :: u64
  me_data :: nat
  me_score :: int

definition match_empty :: match_entry where
  "match_empty = \<lparr>me_kind = MATCH_ANY, me_flags = 0, me_key = None, me_value = None, me_id0 = 0,
     me_mask0 = 0, me_id1 = 0, me_mask1 = 0, me_data = 0, me_score = 0\<rparr>"

definition match_compatible :: "bytes \<Rightarrow> match_entry" where
  "match_compatible text = match_empty\<lparr>me_kind := MATCH_COMPATIBLE, me_key := Some text\<rparr>"

definition match_any :: match_entry where
  "match_any = match_empty\<lparr>me_kind := MATCH_ANY\<rparr>"

definition entry_validate :: "match_entry \<Rightarrow> drv_error + unit" where
  "entry_validate e =
     (let keyless = (me_key e = None \<or> me_key e = Some []) in
      if me_kind e = MATCH_COMPATIBLE \<or> me_kind e = MATCH_NAME \<or> me_kind e = MATCH_ACPI_ID
      then if keyless then Inl DrvInvalidArgument else Inr ()
      else if me_kind e = MATCH_PROPERTY then if keyless then Inl DrvInvalidArgument else Inr ()
      else if me_kind e = MATCH_ID
      then if me_mask0 e = 0 \<and> me_mask1 e = 0 then Inl DrvInvalidArgument else Inr ()
      else if me_kind e = MATCH_ANY then Inr ()
      else Inl DrvInvalidArgument)"

definition position :: "bytes \<Rightarrow> bytes list \<Rightarrow> nat option" where
  "position wanted list =
     (let n = length (takeWhile (\<lambda>text. text \<noteq> wanted) list) in
      if n < length list then Some n else None)"

definition i32_MAX :: int where "i32_MAX = 2 ^ 31 - 1"

definition bonus_at :: "nat \<Rightarrow> int" where
  "bonus_at p = COMPATIBLE_BONUS - min (if int p \<le> i32_MAX then int p else i32_MAX) COMPATIBLE_BONUS"

definition evaluate_compatible :: "match_entry \<Rightarrow> device \<Rightarrow> int option" where
  "evaluate_compatible e d = do {
     wanted \<leftarrow> me_key e;
     value \<leftarrow> properties_get (dev_properties d) PROP_COMPATIBLE;
     p \<leftarrow> (case value of
       PropStr text \<Rightarrow> if text = wanted then Some 0 else None
     | PropStrList list \<Rightarrow> position wanted list
     | _ \<Rightarrow> None);
     if me_flags e AND NO_BONUS \<noteq> 0 then Some 0 else Some (bonus_at p)
   }"

definition evaluate_name :: "match_entry \<Rightarrow> device \<Rightarrow> int option" where
  "evaluate_name e d = do {
     wanted \<leftarrow> me_key e;
     if dev_name d = wanted then Some 0
     else do {
       value \<leftarrow> properties_get (dev_properties d) (ascii ''name'');
       if prop_contains_string value wanted then Some 0 else None
     }
   }"

definition evaluate_acpi :: "match_entry \<Rightarrow> device \<Rightarrow> int option" where
  "evaluate_acpi e d = do {
     wanted \<leftarrow> me_key e;
     if properties_has_string (dev_properties d) PROP_ACPI_HID wanted
     then Some (if me_flags e AND NO_BONUS \<noteq> 0 then 0 else COMPATIBLE_BONUS)
     else if properties_has_string (dev_properties d) PROP_ACPI_CID wanted then Some 0 else None
   }"

definition evaluate_property :: "match_entry \<Rightarrow> device \<Rightarrow> int option" where
  "evaluate_property e d = do {
     name \<leftarrow> me_key e;
     value \<leftarrow> properties_get (dev_properties d) name;
     (case me_value e of
        Some expected \<Rightarrow> if prop_contains_string value expected then Some 0 else None
      | None \<Rightarrow>
          if me_mask0 e = 0 then Some 0
          else do {
            actual \<leftarrow> prop_as_u64 value;
            if actual AND me_mask0 e = me_id0 e AND me_mask0 e then Some 0 else None
          })
   }"

definition masked_ok :: "properties \<Rightarrow> bytes \<Rightarrow> u64 \<Rightarrow> u64 \<Rightarrow> unit option" where
  \<comment> \<open>one of the two masked comparisons; no value when the entry does not apply\<close>
  "masked_ok props name expected m =
     (if m = 0 then Some ()
      else do {
        value \<leftarrow> properties_get props name;
        actual \<leftarrow> prop_as_u64 value;
        if actual AND m \<noteq> expected AND m then None else Some ()
      })"

definition count_ones :: "u64 \<Rightarrow> nat" where
  "count_ones w = length (filter (bit w) [0..<64])"

definition evaluate_id :: "match_entry \<Rightarrow> device \<Rightarrow> int option" where
  "evaluate_id e d = do {
     masked_ok (dev_properties d) (case me_key e of None \<Rightarrow> PROP_ID | Some k \<Rightarrow> k) (me_id0 e) (me_mask0 e);
     masked_ok (dev_properties d) PROP_ID_CLASS (me_id1 e) (me_mask1 e);
     if me_flags e AND NO_BONUS \<noteq> 0 then Some 0
     else Some (int (count_ones (me_mask0 e) + count_ones (me_mask1 e)))
   }"

definition entry_base :: "match_entry \<Rightarrow> device \<Rightarrow> int option" where
  \<comment> \<open>the match on the kind\<close>
  "entry_base e d =
     (if me_kind e = MATCH_COMPATIBLE then evaluate_compatible e d
      else if me_kind e = MATCH_NAME then evaluate_name e d
      else if me_kind e = MATCH_ACPI_ID then evaluate_acpi e d
      else if me_kind e = MATCH_PROPERTY then evaluate_property e d
      else if me_kind e = MATCH_ID then evaluate_id e d
      else if me_kind e = MATCH_ANY then Some 0
      else None)"

definition evaluate :: "match_entry \<Rightarrow> device \<Rightarrow> int option panics" where
  \<comment> \<open>the final addition of 32-bit integers panics when it overflows\<close>
  "evaluate e d =
     (case entry_base e d of
        None \<Rightarrow> Some None
      | Some base \<Rightarrow>
          if - i32_MAX - 1 \<le> base + me_score e \<and> base + me_score e \<le> i32_MAX
          then Some (Some (base + me_score e)) else None)"

record match_result =
  mr_data :: nat
  mr_score :: int

fun best_from :: "match_result option \<Rightarrow> match_entry list \<Rightarrow> device \<Rightarrow> match_result option panics" where
  \<comment> \<open>the loop over the table\<close>
  "best_from current [] d = Some current"
| "best_from current (e # es) d = do {
     r \<leftarrow> evaluate e d;
     (case r of
        None \<Rightarrow> best_from current es d
      | Some score \<Rightarrow>
          best_from
            (if (case current of None \<Rightarrow> True | Some c \<Rightarrow> score > mr_score c)
             then Some \<lparr>mr_data = me_data e, mr_score = score\<rparr> else current) es d)
   }"

definition best :: "match_entry list \<Rightarrow> device \<Rightarrow> match_result option panics" where
  "best table d = best_from None table d"

fun entries_validate :: "match_entry list \<Rightarrow> drv_error + unit" where
  "entries_validate [] = Inr ()"
| "entries_validate (e # es) = (case entry_validate e of Inl err \<Rightarrow> Inl err | Inr _ \<Rightarrow> entries_validate es)"

definition table_validate :: "match_entry list \<Rightarrow> drv_error + unit" where
  "table_validate table = (if table = [] then Inl DrvInvalidArgument else entries_validate table)"

definition table_build :: "match_entry list \<Rightarrow> drv_error + match_entry list" where
  "table_build entries = (case table_validate entries of Inl e \<Rightarrow> Inl e | Inr _ \<Rightarrow> Inr entries)"

section \<open>Ranges of resources\<close>

lemma word_checked_add_None:
  "word_checked_add a b = None \<longleftrightarrow> 2 ^ LENGTH('a) \<le> unat a + unat b" for a b :: "'a::len word"
  by (auto simp: word_checked_add_def)

lemma resource_valid_iff:
  "resource_validate r = Inr () \<longleftrightarrow>
     KIND_MEM \<le> rs_kind r \<and> rs_kind r \<le> KIND_BUS \<and> 0 < unat (rs_size r) \<and>
     unat (rs_start r) + unat (rs_size r) \<le> u64_limit"
proof (cases "rs_size r = 0")
  case False
  then have "unat (rs_size r - 1) + 1 = unat (rs_size r)" "0 < unat (rs_size r)"
    by (simp_all add: unat_minus_one unat_gt_0)
  then have "unat (rs_start r) + unat (rs_size r - 1) < u64_limit \<longleftrightarrow>
      unat (rs_start r) + unat (rs_size r) \<le> u64_limit"
    by linarith
  with False \<open>0 < unat (rs_size r)\<close> show ?thesis
    by (auto simp: resource_validate_def word_checked_add_None)
qed (simp add: resource_validate_def)

lemma resource_new_valid: "resource_new k f s n = Inr r \<Longrightarrow> resource_validate r = Inr ()"
  by (auto simp: resource_new_def resource_validate_def split: if_splits)

section \<open>Property tables\<close>

lemma bsearch_bounds:
  "0 < n \<Longrightarrow> base \<le> bsearch_base p xs base n \<and> bsearch_base p xs base n < base + n"
proof (induction p xs base n rule: bsearch_base.induct)
  case (1 p xs base n)
  then show ?case
    by (subst (1 2) bsearch_base.simps) (fastforce split: if_splits)
qed

lemma bsearch_finds:
  fixes es :: "('k::linorder \<times> 'v) list"
  assumes "sorted_wrt (<) (map fst es)" "k < length es" "base \<le> k" "k < base + n" "base + n \<le> length es"
  shows "bsearch_base (\<lambda>e. fst (es ! k) < fst e) es base n = k"
  using assms(3-)
proof (induction n arbitrary: base rule: less_induct)
  case (less n)
  show ?case
  proof (cases "n \<le> 1")
    case True
    then show ?thesis using less.prems by (subst bsearch_base.simps) auto
  next
    case False
    let ?mid = "base + n div 2"
    have mid: "?mid < length es" using less.prems False by linarith
    have order: "fst (es ! i) < fst (es ! j)" if "i < j" "j < length es" for i j
      using sorted_wrt_nth_less [OF assms(1), of i j] that by simp
    have half: "n div 2 \<le> n - n div 2" "0 < n div 2" using False by auto
    show ?thesis
    proof (cases "fst (es ! k) < fst (es ! ?mid)")
      case True
      then have "k < ?mid" using order [of ?mid k] assms(2) by (cases k ?mid rule: linorder_cases) auto
      then show ?thesis
        using less.IH [of "n - n div 2" base] less.prems half True False
        by (subst bsearch_base.simps) auto
    next
      case nb: False
      then have "?mid \<le> k" using order [OF _ mid, of k] by (cases k ?mid rule: linorder_cases) auto
      then show ?thesis
        using less.IH [of "n - n div 2" ?mid] less.prems half nb False
        by (subst bsearch_base.simps) auto
    qed
  qed
qed

lemma properties_get_map_of:
  assumes "sorted_wrt (<) (map fst es)"
  shows "properties_get es name = map_of es name"
proof (cases "name \<in> fst ` set es")
  case True
  then obtain k where k: "k < length es" "fst (es ! k) = name" by (auto simp: in_set_conv_nth)
  then have "bsearch_base (\<lambda>e. name < fst e) es 0 (length es) = k"
    using bsearch_finds [OF assms k(1), of 0 "length es"] by simp
  moreover have "distinct (map fst es)"
    using assms by (simp add: strict_sorted_iff)
  moreover have "es ! k = (name, snd (es ! k))" "es ! k \<in> set es" using k by auto
  ultimately show ?thesis
    using k by (auto simp: properties_get_def Let_def intro!: map_of_is_SomeI [symmetric])
next
  case False
  have "fst (es ! i) \<noteq> name" if "i < length es" for i using False that by auto
  then show ?thesis
    using False bsearch_bounds [of "length es" 0 "\<lambda>e. name < fst e" es]
    by (auto simp: properties_get_def Let_def map_of_eq_None_iff [symmetric])
qed

lemma builder_build_get:
  assumes "distinct (map fst es)"
  shows "properties_get (builder_build es) name = map_of es name"
proof -
  have d: "distinct (map fst (builder_build es))"
    using assms by (simp add: builder_build_def distinct_map)
  moreover have "sorted (map fst (builder_build es))" by (simp add: builder_build_def)
  ultimately have "properties_get (builder_build es) name = map_of (builder_build es) name"
    by (intro properties_get_map_of) (simp add: strict_sorted_iff)
  also have "\<dots> = map_of es name"
    using d assms map_of_inject_set [of "builder_build es" es] by (simp add: builder_build_def)
  finally show ?thesis .
qed

lemma replace_first_None: "replace_first name v es = None \<longleftrightarrow> name \<notin> fst ` set es"
  by (induction es) (auto split: if_splits)

lemma replace_first_Some:
  "replace_first name v es = Some es' \<Longrightarrow>
    map fst es' = map fst es \<and> map_of es' = (map_of es)(name \<mapsto> v)"
  by (induction es arbitrary: es') (auto simp: fun_upd_twist split: if_splits)

text \<open>
  The builder as a sequence of requests, and the finite map it stands for.
\<close>

datatype prop_op = PropSet bytes prop_value | PropRemove bytes

fun prop_step :: "prop_op \<Rightarrow> properties \<Rightarrow> properties" where
  \<comment> \<open>a refused request leaves the builder as it is\<close>
  "prop_step (PropSet name v) es = (case builder_set es name v of Inl _ \<Rightarrow> es | Inr es' \<Rightarrow> es')"
| "prop_step (PropRemove name) es = builder_remove es name"

fun map_step :: "prop_op \<Rightarrow> (bytes \<rightharpoonup> prop_value) \<Rightarrow> (bytes \<rightharpoonup> prop_value)" where
  "map_step (PropSet name v) m =
     (if name = [] \<or> MAX_NAME < length name \<or> (name \<notin> dom m \<and> MAX_PROPERTIES \<le> card (dom m))
      then m else m(name \<mapsto> v))"
| "map_step (PropRemove name) m = m(name := None)"

lemma map_of_filter_key: "map_of (filter (\<lambda>(k, v). k \<noteq> name) es) = (map_of es)(name := None)"
  by (induction es) (auto simp: fun_upd_twist)

lemma card_dom_map_of: "distinct (map fst es) \<Longrightarrow> card (dom (map_of es)) = length es"
  by (simp add: dom_map_of_conv_image_fst distinct_card [of "map fst es", simplified])

lemma builder_set_refines:
  assumes "distinct (map fst es)"
  shows "distinct (map fst (prop_step op es)) \<and> map_of (prop_step op es) = map_step op (map_of es)"
proof (cases op)
  case (PropSet name v)
  show ?thesis
  proof (cases "replace_first name v es")
    case None
    then have "name \<notin> fst ` set es" by (simp add: replace_first_None)
    then have n: "map_of es name = None" by (simp add: map_of_eq_None_iff)
    then have "map_of (es @ [(name, v)]) = (map_of es)(name \<mapsto> v)"
      by (auto simp: map_add_def fun_eq_iff split: option.split)
    moreover have "name \<notin> dom (map_of es)" using n by (simp add: domIff)
    ultimately show ?thesis
      using None \<open>name \<notin> fst ` set es\<close> assms PropSet by (auto simp: builder_set_def card_dom_map_of)
  next
    case (Some es')
    then have "name \<in> dom (map_of es)"
      using replace_first_None [of name v es] by (simp add: dom_map_of_conv_image_fst)
    with Some assms PropSet replace_first_Some [OF Some] show ?thesis
      by (auto simp: builder_set_def)
  qed
next
  case (PropRemove name)
  then show ?thesis
    using assms by (auto simp: builder_remove_def map_of_filter_key distinct_map_filter)
qed

lemma builder_refines:
  "distinct (map fst es) \<Longrightarrow>
    distinct (map fst (fold prop_step ops es)) \<and>
    map_of (fold prop_step ops es) = fold map_step ops (map_of es)"
  by (induction ops arbitrary: es) (use builder_set_refines in auto)

section \<open>Selection of the best entry\<close>

lemma bonus_bounds: "0 \<le> bonus_at p \<and> bonus_at p \<le> COMPATIBLE_BONUS"
  by (auto simp: bonus_at_def COMPATIBLE_BONUS_def i32_MAX_def)

lemma count_ones_bound: "count_ones w \<le> 64"
  by (metis count_ones_def diff_zero length_filter_le length_upt)

lemma entry_base_bounds: "entry_base e d = Some b \<Longrightarrow> 0 \<le> b \<and> b \<le> COMPATIBLE_BONUS"
proof -
  have "evaluate_compatible e d = Some b \<Longrightarrow> 0 \<le> b \<and> b \<le> COMPATIBLE_BONUS"
    using bonus_bounds
    by (auto simp: evaluate_compatible_def COMPATIBLE_BONUS_def split: Option.bind_splits if_splits)
  moreover have "evaluate_id e d = Some b \<Longrightarrow> 0 \<le> b \<and> b \<le> COMPATIBLE_BONUS"
    using count_ones_bound [of "me_mask0 e"] count_ones_bound [of "me_mask1 e"]
    by (auto simp: evaluate_id_def COMPATIBLE_BONUS_def split: Option.bind_splits if_splits)
  moreover assume "entry_base e d = Some b"
  ultimately show ?thesis
    by (auto simp: entry_base_def evaluate_name_def evaluate_acpi_def evaluate_property_def
      COMPATIBLE_BONUS_def split: Option.bind_splits if_splits option.splits)
qed

definition score_of :: "match_entry \<Rightarrow> device \<Rightarrow> int option" where
  "score_of e d = map_option (\<lambda>b. b + me_score e) (entry_base e d)"

definition safe_score :: "match_entry \<Rightarrow> bool" where
  \<comment> \<open>the score of the entry leaves room for the bonus\<close>
  "safe_score e \<longleftrightarrow> - i32_MAX - 1 \<le> me_score e \<and> me_score e \<le> i32_MAX - COMPATIBLE_BONUS"

lemma evaluate_score: "safe_score e \<Longrightarrow> evaluate e d = Some (score_of e d)"
  using entry_base_bounds [of e d]
  by (auto simp: evaluate_def score_of_def safe_score_def split: option.split)

definition selects :: "match_entry list \<Rightarrow> device \<Rightarrow> match_result option \<Rightarrow> bool" where
  \<comment> \<open>nothing matches, or the result is the first entry of maximal score\<close>
  "selects table d r \<longleftrightarrow> (case r of
     None \<Rightarrow> \<forall>e \<in> set table. score_of e d = None
   | Some m \<Rightarrow> \<exists>before e after. table = before @ e # after \<and> me_data e = mr_data m \<and>
       score_of e d = Some (mr_score m) \<and>
       (\<forall>f \<in> set before. \<forall>s. score_of f d = Some s \<longrightarrow> s < mr_score m) \<and>
       (\<forall>f \<in> set after. \<forall>s. score_of f d = Some s \<longrightarrow> s \<le> mr_score m))"

lemma selectsI:
  "table = before @ e # after \<Longrightarrow> me_data e = mr_data m \<Longrightarrow> score_of e d = Some (mr_score m) \<Longrightarrow>
    \<forall>f \<in> set before. \<forall>s. score_of f d = Some s \<longrightarrow> s < mr_score m \<Longrightarrow>
    \<forall>f \<in> set after. \<forall>s. score_of f d = Some s \<longrightarrow> s \<le> mr_score m \<Longrightarrow> selects table d (Some m)"
  unfolding selects_def by auto

lemma selects_skip:
  assumes "selects pre d r" "score_of e d = None \<or> (\<exists>m s. r = Some m \<and> score_of e d = Some s \<and> s \<le> mr_score m)"
  shows "selects (pre @ [e]) d r"
proof (cases r)
  case None
  with assms show ?thesis by (auto simp: selects_def)
next
  case (Some m)
  with assms(1) obtain before e0 after where t: "pre = before @ e0 # after" "me_data e0 = mr_data m"
    "score_of e0 d = Some (mr_score m)" "\<forall>f \<in> set before. \<forall>s. score_of f d = Some s \<longrightarrow> s < mr_score m"
    "\<forall>f \<in> set after. \<forall>s. score_of f d = Some s \<longrightarrow> s \<le> mr_score m"
    by (auto simp: selects_def)
  have "pre @ [e] = before @ e0 # (after @ [e])"
    "\<forall>f \<in> set (after @ [e]). \<forall>s. score_of f d = Some s \<longrightarrow> s \<le> mr_score m"
    using t assms(2) Some by auto
  with t(2-4) Some show ?thesis by (auto intro!: selectsI)
qed

lemma selects_take:
  assumes "selects pre d r" "score_of e d = Some s" "\<forall>m. r = Some m \<longrightarrow> mr_score m < s"
  shows "selects (pre @ [e]) d (Some \<lparr>mr_data = me_data e, mr_score = s\<rparr>)"
proof -
  have "\<forall>f \<in> set pre. \<forall>x. score_of f d = Some x \<longrightarrow> x < s"
    using assms(1,3) by (fastforce simp: selects_def assms(2) split: option.splits)
  then show ?thesis using assms(2) by (intro selectsI [of _ pre e "[]"]) auto
qed

lemma best_from_selects:
  assumes "\<forall>e \<in> set es. safe_score e" "selects pre d r"
  shows "\<exists>r'. best_from r es d = Some r' \<and> selects (pre @ es) d r'"
  using assms
proof (induction es arbitrary: pre r)
  case Nil
  then show ?case by simp
next
  case (Cons e es)
  have ev: "evaluate e d = Some (score_of e d)" using Cons.prems(1) evaluate_score by simp
  have tail: "\<forall>e \<in> set es. safe_score e" using Cons.prems(1) by simp
  show ?case
  proof (cases "score_of e d")
    case None
    then show ?thesis using Cons.IH [OF tail selects_skip [OF Cons.prems(2), of e]] ev by simp
  next
    case (Some s)
    show ?thesis
    proof (cases "\<forall>m. r = Some m \<longrightarrow> mr_score m < s")
      case True
      then have "(case r of None \<Rightarrow> True | Some c \<Rightarrow> s > mr_score c)" by (auto split: option.split)
      then show ?thesis
        using Cons.IH [OF tail selects_take [OF Cons.prems(2) Some True]] ev Some by simp
    next
      case False
      then have "\<not> (case r of None \<Rightarrow> True | Some c \<Rightarrow> s > mr_score c)" by (auto split: option.split)
      then show ?thesis
        using Cons.IH [OF tail selects_skip [OF Cons.prems(2), of e]] ev Some False by auto
    qed
  qed
qed

section \<open>Properties\<close>

text \<open>
  C15. A validated resource has a 64-bit last address, and the query for it returns it, with
  one exception: a resource that reaches the very top of the address space passes validation,
  but its start plus its size overflows before the subtraction of one, so that the query
  panics when overflow is checked. Building a resource validates it.
\<close>
theorem resource_end_correct:
  assumes "resource_validate r = Inr () \<or> resource_new k f s n = Inr r"
  shows "resource_end r = (if unat (rs_start r) + unat (rs_size r) = u64_limit then None
           else Some (rs_start r + rs_size r - 1)) \<and>
         unat (rs_start r + rs_size r - 1) + 1 = unat (rs_start r) + unat (rs_size r)"
proof -
  have v: "0 < unat (rs_size r)" "unat (rs_start r) + unat (rs_size r) \<le> u64_limit"
    using assms resource_new_valid resource_valid_iff by blast+
  show ?thesis
  proof (cases "unat (rs_start r) + unat (rs_size r) = u64_limit")
    case True
    then have "unat (rs_start r + rs_size r) = 0" by (simp add: unat_word_ariths)
    then have "rs_start r + rs_size r = 0" by (simp add: unat_eq_0)
    moreover have "unat (- 1 :: u64) = 18446744073709551615" by (simp add: unsigned_minus_1_eq_mask mask_eq_exp_minus_1)
    ultimately show ?thesis using True by (simp add: resource_end_def word_checked_add_def)
  next
    case False
    then have lim: "unat (rs_start r) + unat (rs_size r) < u64_limit" using v by linarith
    then have sum: "unat (rs_start r + rs_size r) = unat (rs_start r) + unat (rs_size r)"
      by (simp add: unat_word_ariths)
    then have "rs_start r + rs_size r \<noteq> 0" using v by (metis add_is_0 less_irrefl unat_0)
    then show ?thesis
      using sum lim v(1) by (simp add: resource_end_def word_checked_add_def unat_minus_one)
  qed
qed

theorem resource_end_witness:
  "resource_validate \<lparr>rs_kind = 1, rs_flags = 0, rs_start = 0xFFFFFFFFFFFFF000, rs_size = 0x1000,
     rs_bus_start = 0, rs_name = None\<rparr> = Inr () \<and>
   resource_end \<lparr>rs_kind = 1, rs_flags = 0, rs_start = 0xFFFFFFFFFFFFF000, rs_size = 0x1000,
     rs_bus_start = 0, rs_name = None\<rparr> = None"
proof -
  let ?r = "\<lparr>rs_kind = 1, rs_flags = 0, rs_start = 0xFFFFFFFFFFFFF000, rs_size = 0x1000,
     rs_bus_start = 0, rs_name = None\<rparr>"
  have "resource_validate ?r = Inr ()"
    by (simp add: resource_valid_iff KIND_MEM_def KIND_BUS_def)
  moreover from this have "resource_end ?r = None"
    using resource_end_correct [of ?r 0 0 0 0] by simp
  ultimately show ?thesis by blast
qed

text \<open>
  An access that a resource covers lies inside its range: no address of the access wraps
  around, and the access ends no later than the resource does.
\<close>
theorem resource_covers_inside:
  assumes "resource_validate r = Inr ()" "resource_covers r offset len" "i < unat len"
  shows "unat (rs_start r + offset + of_nat i) = unat (rs_start r) + unat offset + i \<and>
         unat offset + i < unat (rs_size r)"
proof -
  have v: "unat (rs_start r) + unat (rs_size r) \<le> u64_limit"
    using assms(1) by (simp add: resource_valid_iff)
  obtain e where e: "word_checked_add offset len = Some e" "e \<le> rs_size r"
    using assms(2) by (auto simp: resource_covers_def split: option.splits)
  then have le: "unat offset + unat len \<le> unat (rs_size r)"
    using word_checked_add_SomeD [OF e(1)] by (simp add: word_le_nat_alt)
  then have lim: "unat (rs_start r) + unat offset + i < u64_limit" using v assms(3) by linarith
  moreover have "i < u64_limit" using lim by linarith
  ultimately have "unat (rs_start r + offset + of_nat i) = unat (rs_start r) + unat offset + i"
    by (simp add: unat_word_ariths unat_of_nat)
  with le assms(3) show ?thesis by linarith
qed

theorem resource_covers_witness:
  "resource_covers \<lparr>rs_kind = 1, rs_flags = 0, rs_start = 0x1000, rs_size = 0x100,
     rs_bus_start = 0, rs_name = None\<rparr> 0xF8 8 \<and> unat (0x1000 + 0xF8 + of_nat 7 :: u64) = 0x10FF"
proof -
  let ?r = "\<lparr>rs_kind = 1, rs_flags = 0, rs_start = 0x1000, rs_size = 0x100, rs_bus_start = 0, rs_name = None\<rparr>"
  have "resource_covers ?r 0xF8 8" by (simp add: resource_covers_def word_checked_add_def)
  with resource_covers_inside [of ?r "0xF8" 8 7] show ?thesis
    by (simp add: resource_valid_iff KIND_MEM_def KIND_BUS_def)
qed

text \<open>
  C16. A property table behaves like a finite map with at most 256 keys of 1 to 128 bytes:
  after any sequence of insertions and removals, the binary search in the table that is built
  returns for every name what the map holds.
\<close>
theorem property_table_correct:
  "properties_get (builder_build (fold prop_step ops [])) name = fold map_step ops Map.empty name"
  using builder_refines [of "[]" ops] builder_build_get by simp

text \<open>
  Matching a driver's table against a device selects the first entry with the highest
  score and returns its cookie, and nothing when no entry applies. Scores that leave room for
  the largest bonus never overflow.
\<close>
theorem best_correct:
  assumes "\<forall>e \<in> set table. safe_score e"
  shows "\<exists>r. best table d = Some r \<and> selects table d r"
  using best_from_selects [OF assms, of "[]" d None] by (simp add: best_def selects_def)

definition demo_device :: device where
  "demo_device = \<lparr>dev_name = ascii ''uart0'', dev_properties =
     [(PROP_COMPATIBLE, PropStrList [ascii ''acme,uart'', ascii ''ns16550a''])]\<rparr>"

definition demo_table :: "match_entry list" where
  "demo_table = [match_any, (match_compatible (ascii ''ns16550a''))\<lparr>me_data := 7\<rparr>]"

theorem best_witness: "best demo_table demo_device = Some (Some \<lparr>mr_data = 7, mr_score = 1023\<rparr>)"
proof -
  have s: "score_of match_any demo_device = Some 0"
    "score_of ((match_compatible (ascii ''ns16550a''))\<lparr>me_data := 7\<rparr>) demo_device = Some 1023"
    by code_simp+
  have "\<forall>e \<in> set demo_table. safe_score e"
    by (simp add: demo_table_def safe_score_def match_any_def match_compatible_def match_empty_def
      i32_MAX_def COMPATIBLE_BONUS_def)
  from best_correct [OF this, of demo_device] obtain r where
    r: "best demo_table demo_device = Some r" "selects demo_table demo_device r" by blast
  then show ?thesis
    using s by (auto simp: selects_def demo_table_def Cons_eq_append_conv split: option.splits)
qed

end
