(* ===== verification/Clock.thy ===== *)
theory Clock
  imports Prelude "HOL-Library.Product_Lexorder"
begin

text \<open>
  Model of the timekeeping core of \<open>kernel/src/sys/clock.rs\<close>: the fixed-point conversion
  between counter cycles and nanoseconds, the calendar queue of callouts with its tournament
  of bucket heads, the arbitration of deadlines, and the local timer interrupt. The
  red-black tree of a bucket (a third-party crate) is taken as a sequence ordered by key. The
  links of a timer are its membership in the queue; what a callout wakes is an abstract target.
\<close>

section \<open>Conversion of cycles and nanoseconds\<close>

definition CLOCK_SCALE_MAX_SHIFT :: nat where "CLOCK_SCALE_MAX_SHIFT = 48"
definition NSEC_PER_SEC :: nat where "NSEC_PER_SEC = 1000000000"

record clock_scale =
  cs_ns_mult :: nat
  cs_ns_shift :: nat
  cs_cycles_mult :: nat
  cs_cycles_shift :: nat

definition ns_multiplier :: "nat \<Rightarrow> nat \<Rightarrow> nat" where
  "ns_multiplier frequency shift = (NSEC_PER_SEC * 2 ^ shift + frequency div 2) div frequency"

definition div_ceil :: "nat \<Rightarrow> nat \<Rightarrow> nat" where
  "div_ceil a b = (a + b - 1) div b"

definition cycles_multiplier :: "nat \<Rightarrow> nat \<Rightarrow> nat" where
  "cycles_multiplier frequency shift = div_ceil (frequency * 2 ^ shift) NSEC_PER_SEC"

fun find_shift :: "(nat \<Rightarrow> nat) \<Rightarrow> nat \<Rightarrow> (nat \<times> nat) panics" where
  \<comment> \<open>the loops of \<open>new\<close>: the largest shift whose multiplier is a 64-bit number\<close>
  "find_shift multiplier shift =
     (if 1 \<le> multiplier shift \<and> multiplier shift \<le> U64_MAX then Some (multiplier shift, shift)
      else if shift = 0 then None
      else find_shift multiplier (shift - 1))"

declare find_shift.simps [simp del]

definition scale_new :: "nat \<Rightarrow> clock_scale panics" where
  "scale_new frequency_hz = do {
     assert_that (frequency_hz \<noteq> 0);
     (ns_mult, ns_shift) \<leftarrow> find_shift (ns_multiplier frequency_hz) CLOCK_SCALE_MAX_SHIFT;
     (cycles_mult, cycles_shift) \<leftarrow> find_shift (cycles_multiplier frequency_hz) CLOCK_SCALE_MAX_SHIFT;
     Some \<lparr>cs_ns_mult = ns_mult, cs_ns_shift = ns_shift, cs_cycles_mult = cycles_mult,
       cs_cycles_shift = cycles_shift\<rparr>
   }"

definition cycles_to_ns :: "clock_scale \<Rightarrow> nat \<Rightarrow> nat" where
  "cycles_to_ns s cycles = min (cycles * cs_ns_mult s div 2 ^ cs_ns_shift s) U64_MAX"

definition ns_to_cycles :: "clock_scale \<Rightarrow> nat \<Rightarrow> nat" where
  "ns_to_cycles s ns =
     (if ns = 0 then 0
      else let product = ns * cs_cycles_mult s; round = 2 ^ cs_cycles_shift s - 1 in
        min (max ((product + round) div 2 ^ cs_cycles_shift s) 1) U64_MAX)"

section \<open>The calendar queue\<close>

definition BUCKETS :: nat where "BUCKETS = 256"
definition BUCKET_WIDTH_NS :: nat where "BUCKET_WIDTH_NS = 1000000"
definition EMPTY :: nat where "EMPTY = BUCKETS"

record 't callout =
  co_deadline :: nat
  co_order :: nat
  co_target :: 't

definition co_key :: "'t callout \<Rightarrow> nat \<times> nat" where
  "co_key t = (co_deadline t, co_order t)"

record 't calendar =
  cq_buckets :: "'t callout list list"
  cq_winners :: "nat list"
  cq_heads :: "(nat \<times> nat) list"
  cq_next_order :: nat

definition calendar_new :: "'t calendar" where
  "calendar_new = \<lparr>cq_buckets = replicate BUCKETS [], cq_winners = replicate (BUCKETS * 2) EMPTY,
     cq_heads = replicate BUCKETS (0, 0), cq_next_order = 0\<rparr>"

definition at :: "'a list \<Rightarrow> nat \<Rightarrow> 'a panics" where
  \<comment> \<open>indexing; out of range it panics\<close>
  "at xs i = (if i < length xs then Some (xs ! i) else None)"

definition put :: "'a list \<Rightarrow> nat \<Rightarrow> 'a \<Rightarrow> 'a list panics" where
  "put xs i x = (if i < length xs then Some (xs[i := x]) else None)"

definition bucket_of :: "nat \<Rightarrow> nat" where
  \<comment> \<open>the mask keeps the remainder by the number of buckets, a power of two\<close>
  "bucket_of deadline_ns = (deadline_ns div BUCKET_WIDTH_NS) mod BUCKETS"

definition bucket_key :: "(nat \<times> nat) list \<Rightarrow> nat \<Rightarrow> (nat \<times> nat) option panics" where
  "bucket_key heads bucket =
     (if bucket = EMPTY then Some None else map_option Some (at heads bucket))"

definition winner_of :: "nat \<Rightarrow> (nat \<times> nat) option \<Rightarrow> nat \<Rightarrow> (nat \<times> nat) option \<Rightarrow> nat" where
  "winner_of a ka b kb =
     (case (ka, kb) of
        (None, _) \<Rightarrow> b
      | (_, None) \<Rightarrow> a
      | (Some ka, Some kb) \<Rightarrow> if ka \<le> kb then a else b)"

fun climb :: "(nat \<times> nat) list \<Rightarrow> nat list \<Rightarrow> nat \<Rightarrow> nat list panics" where
  \<comment> \<open>the loop that plays the matches again from a leaf up to the root\<close>
  "climb heads winners node =
     (if node \<le> 1 then Some winners
      else do {
        let node = node div 2;
        a \<leftarrow> at winners (node * 2);
        b \<leftarrow> at winners (node * 2 + 1);
        ka \<leftarrow> bucket_key heads a;
        kb \<leftarrow> bucket_key heads b;
        winners \<leftarrow> put winners node (winner_of a ka b kb);
        climb heads winners node
      })"

declare climb.simps [simp del]

definition calendar_update :: "'t calendar \<Rightarrow> nat \<Rightarrow> 't calendar panics" where
  "calendar_update q bucket = do {
     let node = BUCKETS + bucket;
     entries \<leftarrow> at (cq_buckets q) bucket;
     let head = (case entries of [] \<Rightarrow> None | e # _ \<Rightarrow> Some (co_key e));
     leaf \<leftarrow> at (cq_winners q) node;
     recorded \<leftarrow> bucket_key (cq_heads q) leaf;
     if head = recorded then Some q
     else do {
       heads \<leftarrow> (case head of Some key \<Rightarrow> put (cq_heads q) bucket key | None \<Rightarrow> Some (cq_heads q));
       winners \<leftarrow> put (cq_winners q) node (if head \<noteq> None then bucket else EMPTY);
       winners \<leftarrow> climb heads winners node;
       Some (q\<lparr>cq_heads := heads, cq_winners := winners\<rparr>)
     }
   }"

definition next_deadline :: "'t calendar \<Rightarrow> nat option panics" where
  "next_deadline q = do {
     root \<leftarrow> at (cq_winners q) 1;
     key \<leftarrow> bucket_key (cq_heads q) root;
     Some (map_option fst key)
   }"

definition calendar_insert :: "'t calendar \<Rightarrow> nat \<Rightarrow> 't \<Rightarrow> ('t callout \<times> 't calendar) panics" where
  \<comment> \<open>a timer that is not linked, given by its deadline and target; the timer with its order
     is returned\<close>
  "calendar_insert q deadline_ns target = do {
     let timer = \<lparr>co_deadline = deadline_ns, co_order = cq_next_order q, co_target = target\<rparr>;
     order \<leftarrow> checked_add (cq_next_order q) 1;
     let bucket = bucket_of deadline_ns;
     leaf \<leftarrow> at (cq_winners q) (BUCKETS + bucket);
     key \<leftarrow> bucket_key (cq_heads q) leaf;
     entries \<leftarrow> at (cq_buckets q) bucket;
     let changes_head = (case key of None \<Rightarrow> True | Some key \<Rightarrow> co_key timer < key);
     let q = q\<lparr>cq_next_order := order, cq_buckets := (cq_buckets q)[bucket := insort_key co_key timer entries]\<rparr>;
     q \<leftarrow> (if changes_head then calendar_update q bucket else Some q);
     Some (timer, q)
   }"

definition calendar_remove :: "'t calendar \<Rightarrow> bool \<Rightarrow> 't callout \<Rightarrow> 't calendar panics" where
  \<comment> \<open>the flag tells whether the timer is linked\<close>
  "calendar_remove q linked timer =
     (if \<not> linked then Some q
      else do {
        let bucket = bucket_of (co_deadline timer);
        leaf \<leftarrow> at (cq_winners q) (BUCKETS + bucket);
        key \<leftarrow> bucket_key (cq_heads q) leaf;
        let changes_head = (key = Some (co_key timer));
        entries \<leftarrow> at (cq_buckets q) bucket;
        assert_that (timer \<in> set entries);
        let q = q\<lparr>cq_buckets := (cq_buckets q)[bucket := remove1 timer entries]\<rparr>;
        if changes_head then calendar_update q bucket else Some q
      })"

definition pop_expired :: "'t calendar \<Rightarrow> nat \<Rightarrow> ('t callout option \<times> 't calendar) panics" where
  \<comment> \<open>the timer itself is returned; the source returns its target\<close>
  "pop_expired q now_ns = do {
     deadline \<leftarrow> next_deadline q;
     (case deadline of
        None \<Rightarrow> Some (None, q)
      | Some d \<Rightarrow>
          if d > now_ns then Some (None, q)
          else do {
            bucket \<leftarrow> at (cq_winners q) 1;
            entries \<leftarrow> at (cq_buckets q) bucket;
            (case entries of
               [] \<Rightarrow> None
             | timer # rest \<Rightarrow> do {
                 q \<leftarrow> calendar_update (q\<lparr>cq_buckets := (cq_buckets q)[bucket := rest]\<rparr>) bucket;
                 Some (Some timer, q)
               })
          })
   }"

section \<open>Deadlines\<close>

datatype timer_update = Unchanged | Program "nat option"

record deadlines =
  dl_scheduler :: "nat option"
  dl_callout :: "nat option"
  dl_armed :: "nat option"

definition deadlines_next :: "deadlines \<Rightarrow> nat option" where
  "deadlines_next d =
     (case (dl_scheduler d, dl_callout d) of
        (Some a, Some b) \<Rightarrow> Some (min a b)
      | (None, b) \<Rightarrow> b
      | (a, None) \<Rightarrow> a)"

definition deadlines_changed :: "deadlines \<Rightarrow> timer_update \<times> deadlines" where
  "deadlines_changed d =
     (let nxt = deadlines_next d in
      if nxt = dl_armed d then (Unchanged, d) else (Program nxt, d\<lparr>dl_armed := nxt\<rparr>))"

definition set_scheduler :: "deadlines \<Rightarrow> nat \<Rightarrow> timer_update \<times> deadlines" where
  "set_scheduler d deadline =
     deadlines_changed (d\<lparr>dl_scheduler := (if deadline \<noteq> 0 then Some deadline else None)\<rparr>)"

definition set_callout :: "deadlines \<Rightarrow> nat option \<Rightarrow> timer_update \<times> deadlines" where
  "set_callout d deadline = deadlines_changed (d\<lparr>dl_callout := deadline\<rparr>)"

definition finish_interrupt :: "deadlines \<Rightarrow> nat \<Rightarrow> nat option \<Rightarrow> nat option \<times> deadlines" where
  "finish_interrupt d now callout =
     (let d = d\<lparr>dl_callout := callout\<rparr>;
          d = (case dl_scheduler d of
                 Some deadline \<Rightarrow> if deadline \<le> now then d\<lparr>dl_scheduler := None\<rparr> else d
               | None \<Rightarrow> d);
          d = d\<lparr>dl_armed := deadlines_next d\<rparr>
      in (dl_armed d, d))"

definition saturating_sub :: "nat \<Rightarrow> nat \<Rightarrow> nat" where
  "saturating_sub a b = a - b"

definition scheduler_deadline :: "nat \<Rightarrow> nat \<Rightarrow> nat \<Rightarrow> nat \<Rightarrow> nat \<Rightarrow> nat" where
  "scheduler_deadline now last_run consumed quantum statclock =
     (let slice = saturating_add last_run (saturating_sub quantum consumed) in
      min (max slice (saturating_add now 1)) statclock)"

section \<open>The local clock\<close>

record 't local_clock =
  lc_deadlines :: deadlines
  lc_timers :: "'t calendar"

definition insert_timer ::
  "'t local_clock \<Rightarrow> nat \<Rightarrow> 't \<Rightarrow> ('t callout \<times> timer_update \<times> 't local_clock) panics" where
  "insert_timer l deadline_ns target = do {
     (timer, q) \<leftarrow> calendar_insert (lc_timers l) deadline_ns target;
     d \<leftarrow> next_deadline q;
     let (u, ds) = set_callout (lc_deadlines l) d;
     Some (timer, u, l\<lparr>lc_timers := q, lc_deadlines := ds\<rparr>)
   }"

definition remove_timer ::
  "'t local_clock \<Rightarrow> bool \<Rightarrow> 't callout \<Rightarrow> (timer_update \<times> 't local_clock) panics" where
  "remove_timer l linked timer = do {
     q \<leftarrow> calendar_remove (lc_timers l) linked timer;
     d \<leftarrow> next_deadline q;
     let (u, ds) = set_callout (lc_deadlines l) d;
     Some (u, l\<lparr>lc_timers := q, lc_deadlines := ds\<rparr>)
   }"

definition DISPATCH_BUDGET :: nat where "DISPATCH_BUDGET = 64"

fun dispatch_with ::
  "('q \<Rightarrow> nat \<Rightarrow> ('t callout option \<times> 'q) panics) \<Rightarrow> nat \<Rightarrow> nat \<Rightarrow> 'q \<Rightarrow> ('t callout list \<times> 'q) panics" where
  \<comment> \<open>the loop of the interrupt handler over the queue operation; the callouts it delivers, in order\<close>
  "dispatch_with pop 0 now q = Some ([], q)"
| "dispatch_with pop (Suc budget) now q = do {
     (r, q) \<leftarrow> pop q now;
     (case r of
        None \<Rightarrow> Some ([], q)
      | Some timer \<Rightarrow> do {
          (ts, q) \<leftarrow> dispatch_with pop budget now q;
          Some (timer # ts, q)
        })
   }"

definition handle_local_timer_interrupt ::
  "'t local_clock \<Rightarrow> nat \<Rightarrow> ('t callout list \<times> nat option \<times> 't local_clock) panics" where
  \<comment> \<open>the callouts that are woken and the deadline the hardware is programmed with\<close>
  "handle_local_timer_interrupt l now_ns = do {
     (fired, q) \<leftarrow> dispatch_with pop_expired DISPATCH_BUDGET now_ns (lc_timers l);
     d \<leftarrow> next_deadline q;
     let (armed, ds) = finish_interrupt (lc_deadlines l) now_ns d;
     Some (fired, armed, l\<lparr>lc_timers := q, lc_deadlines := ds\<rparr>)
   }"

end
