(* ===== verification/Calendar.thy ===== *)
theory Calendar
  imports Clock
begin

text \<open>
  Correctness of the calendar queue of \<open>kernel/src/sys/clock.rs\<close>. The invariant says that every
  bucket is ordered, that every leaf of the tournament names its bucket when it is not empty,
  and that every inner node names the winner of its two children. Every operation keeps it
  and never panics, the root is the earliest callout, and the queue refines a priority queue
  ordered by deadline and, among equal deadlines, by insertion.
\<close>

section \<open>The tournament\<close>

lemmas calendar_sizes = BUCKETS_def EMPTY_def

definition keyw :: "(nat \<times> nat) list \<Rightarrow> nat \<Rightarrow> (nat \<times> nat) option" where
  "keyw H a = (if a = EMPTY then None else Some (H ! a))"

definition earlier :: "(nat \<times> nat) option \<Rightarrow> (nat \<times> nat) option \<Rightarrow> bool" where
  \<comment> \<open>no key is later than every key\<close>
  "earlier a b \<longleftrightarrow> (case b of None \<Rightarrow> True | Some y \<Rightarrow> (case a of None \<Rightarrow> False | Some x \<Rightarrow> x \<le> y))"

definition pick :: "(nat \<times> nat) list \<Rightarrow> nat \<Rightarrow> nat \<Rightarrow> nat" where
  "pick H a b = winner_of a (keyw H a) b (keyw H b)"

definition node_ok :: "(nat \<times> nat) list \<Rightarrow> nat list \<Rightarrow> nat \<Rightarrow> bool" where
  "node_ok H W n \<longleftrightarrow> W ! n = pick H (W ! (n * 2)) (W ! (n * 2 + 1))"

definition shape :: "(nat \<times> nat) list \<Rightarrow> nat list \<Rightarrow> bool" where
  "shape H W \<longleftrightarrow> length H = BUCKETS \<and> length W = BUCKETS * 2 \<and> (\<forall>w \<in> set W. w \<le> EMPTY)"

lemma earlier_refl [simp]: "earlier a a"
  by (simp add: earlier_def split: option.split)

lemma earlier_trans: "earlier a b \<Longrightarrow> earlier b c \<Longrightarrow> earlier a c"
  by (auto simp: earlier_def split: option.splits)

lemma pick_cases: "pick H a b = a \<or> pick H a b = b"
  by (simp add: pick_def winner_of_def split: option.split)

lemma pick_earlier: "earlier (keyw H (pick H a b)) (keyw H a)" "earlier (keyw H (pick H a b)) (keyw H b)"
  by (auto simp: pick_def winner_of_def earlier_def split: option.split)

lemma bucket_key_eq: "length H = BUCKETS \<Longrightarrow> a \<le> EMPTY \<Longrightarrow> bucket_key H a = Some (keyw H a)"
  by (auto simp: bucket_key_def keyw_def at_def EMPTY_def)

lemma shape_le: "shape H W \<Longrightarrow> i < BUCKETS * 2 \<Longrightarrow> W ! i \<le> EMPTY"
  by (simp add: shape_def)

lemma pick_le: "a \<le> EMPTY \<Longrightarrow> b \<le> EMPTY \<Longrightarrow> pick H a b \<le> EMPTY"
  using pick_cases [of H a b] by auto

lemma shape_update: "shape H W \<Longrightarrow> w \<le> EMPTY \<Longrightarrow> shape H (W[n := w])"
  by (auto simp: shape_def dest: set_update_subset_insert [THEN subsetD])

definition ancestor :: "nat \<Rightarrow> nat \<Rightarrow> bool" where
  "ancestor n node \<longleftrightarrow> (\<exists>k. 0 < k \<and> n = node div 2 ^ k)"

lemma ancestor_parent: "ancestor n node \<Longrightarrow> n \<noteq> node div 2 \<Longrightarrow> ancestor n (node div 2)"
proof -
  assume "ancestor n node" "n \<noteq> node div 2"
  then obtain k where k: "0 < k" "n = node div 2 ^ k" by (auto simp: ancestor_def)
  then obtain j where j: "k = Suc j" by (cases k) auto
  then have n: "n = node div 2 div 2 ^ j" using k by (simp add: div_mult2_eq)
  moreover have "0 < j" using \<open>n \<noteq> node div 2\<close> n by (cases j) auto
  ultimately show ?thesis by (auto simp: ancestor_def)
qed

lemma ancestor_root: "node \<le> 1 \<Longrightarrow> 1 \<le> n \<Longrightarrow> \<not> ancestor n node"
proof
  assume "node \<le> 1" "1 \<le> n" "ancestor n node"
  then obtain k where k: "0 < k" "n = node div 2 ^ k" by (auto simp: ancestor_def)
  then have "node < 2 ^ k" using \<open>node \<le> 1\<close> one_less_power [of "2 :: nat" k] by linarith
  then show False using k(2) \<open>1 \<le> n\<close> by simp
qed

lemma climb_ok:
  assumes "shape H W" "node < BUCKETS * 2"
    and "\<And>n. 1 \<le> n \<Longrightarrow> n < BUCKETS \<Longrightarrow> ancestor n node \<or> node_ok H W n"
  shows "\<exists>W'. climb H W node = Some W' \<and> shape H W' \<and> (\<forall>n. 1 \<le> n \<and> n < BUCKETS \<longrightarrow> node_ok H W' n) \<and>
    (\<forall>m. BUCKETS \<le> m \<longrightarrow> W' ! m = W ! m)"
  using assms
proof (induction H W node rule: climb.induct)
  case (1 H W node)
  show ?case
  proof (cases "node \<le> 1")
    case True
    have "node_ok H W n" if "1 \<le> n" "n < BUCKETS" for n
      using "1.prems"(3) [OF that] ancestor_root [OF True that(1)] by blast
    then show ?thesis using True "1.prems"(1) by (simp add: climb.simps)
  next
    case False
    let ?p = "node div 2"
    let ?a = "W ! (?p * 2)" and ?b = "W ! (?p * 2 + 1)"
    have len: "length H = BUCKETS" "length W = BUCKETS * 2" using "1.prems"(1) by (simp_all add: shape_def)
    have p: "?p < BUCKETS" "1 \<le> ?p" using "1.prems"(2) False by auto
    then have p2: "?p * 2 + 1 < BUCKETS * 2" by linarith
    have ab: "?a \<le> EMPTY" "?b \<le> EMPTY" using shape_le [OF "1.prems"(1)] p2 by auto
    let ?W = "W[?p := pick H ?a ?b]"
    have unfold: "climb H W node = climb H ?W ?p"
      using False len p p2 ab
      by (subst climb.simps) (simp add: at_def put_def bucket_key_eq pick_def Let_def)
    have shape': "shape H ?W" using shape_update [OF "1.prems"(1) pick_le [OF ab]] .
    have nodes: "ancestor n ?p \<or> node_ok H ?W n" if n: "1 \<le> n" "n < BUCKETS" for n
    proof (cases "n = ?p")
      case True
      have "?p \<noteq> ?p * 2" "?p \<noteq> ?p * 2 + 1" "?p < length W" using p len by auto
      then show ?thesis unfolding True by (simp add: node_ok_def)
    next
      case other: False
      show ?thesis
      proof (cases "n * 2 = ?p \<or> n * 2 + 1 = ?p")
        case True
        then have "n = ?p div 2 ^ 1" by auto
        then have "ancestor n ?p" unfolding ancestor_def by blast
        then show ?thesis ..
      next
        case False
        then have "node_ok H W n \<Longrightarrow> node_ok H ?W n" using other by (simp add: node_ok_def)
        then show ?thesis using "1.prems"(3) [OF n] ancestor_parent [of n node] other by blast
      qed
    qed
    have "\<exists>W'. climb H ?W ?p = Some W' \<and> shape H W' \<and>
        (\<forall>n. 1 \<le> n \<and> n < BUCKETS \<longrightarrow> node_ok H W' n) \<and> (\<forall>m. BUCKETS \<le> m \<longrightarrow> W' ! m = ?W ! m)"
      by (rule "1.IH" [OF _ refl]) (use False shape' p p2 nodes len ab in \<open>simp_all add: at_def put_def bucket_key_eq pick_def\<close>)
    then show ?thesis using unfold p by auto
  qed
qed

section \<open>The invariant\<close>

definition bucket_ok :: "nat \<Rightarrow> nat \<Rightarrow> 't callout list \<Rightarrow> bool" where
  \<comment> \<open>ordered by key, each callout in the bucket of its deadline and older than the next order\<close>
  "bucket_ok order b es \<longleftrightarrow> sorted_wrt (<) (map co_key es) \<and>
     (\<forall>t \<in> set es. bucket_of (co_deadline t) = b \<and> co_order t < order)"

definition leaf_ok :: "'t calendar \<Rightarrow> nat \<Rightarrow> bool" where
  "leaf_ok q b \<longleftrightarrow> (case cq_buckets q ! b of
     [] \<Rightarrow> cq_winners q ! (BUCKETS + b) = EMPTY
   | e # _ \<Rightarrow> cq_winners q ! (BUCKETS + b) = b \<and> cq_heads q ! b = co_key e)"

definition tree_ok :: "'t calendar \<Rightarrow> bool" where
  "tree_ok q \<longleftrightarrow> shape (cq_heads q) (cq_winners q) \<and>
     (\<forall>n. 1 \<le> n \<and> n < BUCKETS \<longrightarrow> node_ok (cq_heads q) (cq_winners q) n)"

definition buckets_ok :: "'t calendar \<Rightarrow> bool" where
  "buckets_ok q \<longleftrightarrow> length (cq_buckets q) = BUCKETS \<and>
     (\<forall>b < BUCKETS. bucket_ok (cq_next_order q) b (cq_buckets q ! b))"

definition calendar_inv :: "'t calendar \<Rightarrow> bool" where
  "calendar_inv q \<longleftrightarrow> buckets_ok q \<and> tree_ok q \<and> (\<forall>b < BUCKETS. leaf_ok q b)"

lemma child_ancestor: "(c = n * 2 \<or> c = n * 2 + 1) \<Longrightarrow> c = m \<or> ancestor c m \<Longrightarrow> ancestor n m"
proof -
  assume c: "c = n * 2 \<or> c = n * 2 + 1" and "c = m \<or> ancestor c m"
  then obtain k where k: "c = m div 2 ^ k"
    unfolding ancestor_def by (metis div_by_1 power_0)
  have "n = c div 2" using c by auto
  then have "n = m div 2 ^ Suc k" using k by (metis div_mult2_eq power_Suc2)
  then show ?thesis unfolding ancestor_def by blast
qed

lemma winner_is_descendant:
  assumes "\<forall>n. 1 \<le> n \<and> n < BUCKETS \<longrightarrow> node_ok H W n"
    and "\<forall>b < BUCKETS. W ! (BUCKETS + b) = EMPTY \<or> W ! (BUCKETS + b) = b"
    and "1 \<le> m" "m < BUCKETS * 2" "W ! m \<noteq> EMPTY"
  shows "(m = BUCKETS + W ! m \<or> ancestor m (BUCKETS + W ! m)) \<and> W ! m < BUCKETS \<and>
    W ! (BUCKETS + W ! m) = W ! m"
  using assms(3-)
proof (induction "BUCKETS * 2 - m" arbitrary: m rule: less_induct)
  case less
  show ?case
  proof (cases "m < BUCKETS")
    case True
    then have "node_ok H W m" using assms(1) less.prems by simp
    then obtain c where c: "c = m * 2 \<or> c = m * 2 + 1" "W ! m = W ! c"
      using pick_cases unfolding node_ok_def by metis
    then have "(c = BUCKETS + W ! c \<or> ancestor c (BUCKETS + W ! c)) \<and> W ! c < BUCKETS \<and>
        W ! (BUCKETS + W ! c) = W ! c"
      using less.hyps [of c] less.prems True by auto
    then show ?thesis using child_ancestor [OF c(1)] c(2) by auto
  next
    case False
    then obtain b where "m = BUCKETS + b" "b < BUCKETS"
      using less.prems by (metis add_less_cancel_left le_add_diff_inverse mult_2_right not_le)
    then show ?thesis using assms(2) less.prems by auto
  qed
qed

lemma stale_node_ok:
  assumes "\<forall>n. 1 \<le> n \<and> n < BUCKETS \<longrightarrow> node_ok H W n"
    and "\<forall>b < BUCKETS. W ! (BUCKETS + b) = EMPTY \<or> W ! (BUCKETS + b) = b"
    and b: "b < BUCKETS" and n: "1 \<le> n" "n < BUCKETS" "\<not> ancestor n (BUCKETS + b)"
  shows "node_ok (H[b := k]) (W[BUCKETS + b := w]) n"
proof -
  have far: "c \<noteq> BUCKETS + b \<and> W ! c \<noteq> b" if c: "c = n * 2 \<or> c = n * 2 + 1" for c
  proof
    show "c \<noteq> BUCKETS + b" using child_ancestor [OF c] n(3) by blast
    have "1 \<le> c" "c < BUCKETS * 2" using c n by auto
    then show "W ! c \<noteq> b"
      using winner_is_descendant [OF assms(1,2), of c] child_ancestor [OF c, of "BUCKETS + b"] n(3) b
      by (auto simp: EMPTY_def)
  qed
  have "keyw (H[b := k]) (W ! c) = keyw H (W ! c)" if "c = n * 2 \<or> c = n * 2 + 1" for c
    using far [OF that] by (simp add: keyw_def)
  moreover have "W[BUCKETS + b := w] ! c = W ! c" if "c = n * 2 \<or> c = n * 2 + 1 \<or> c = n" for c
  proof -
    have "c \<noteq> BUCKETS + b" using that far [of c] n(2) by auto
    then show ?thesis by simp
  qed
  ultimately show ?thesis using assms(1) n(1,2) unfolding node_ok_def pick_def by simp
qed

lemma leaf_values:
  "leaf_ok q b \<Longrightarrow> cq_winners q ! (BUCKETS + b) = EMPTY \<or> cq_winners q ! (BUCKETS + b) = b"
  by (auto simp: leaf_ok_def split: list.splits)

lemma calendar_update_ok:
  assumes "buckets_ok q" "tree_ok q" "b < BUCKETS" "\<forall>c < BUCKETS. c \<noteq> b \<longrightarrow> leaf_ok q c"
    and "cq_winners q ! (BUCKETS + b) = EMPTY \<or> cq_winners q ! (BUCKETS + b) = b"
  shows "\<exists>q'. calendar_update q b = Some q' \<and> calendar_inv q' \<and>
    cq_buckets q' = cq_buckets q \<and> cq_next_order q' = cq_next_order q"
proof -
  let ?H = "cq_heads q" and ?W = "cq_winners q" and ?node = "BUCKETS + b"
  let ?head = "case cq_buckets q ! b of [] \<Rightarrow> None | e # _ \<Rightarrow> Some (co_key e)"
  have len: "length ?H = BUCKETS" "length ?W = BUCKETS * 2" "length (cq_buckets q) = BUCKETS"
    and sh: "shape ?H ?W" and nodes: "\<forall>n. 1 \<le> n \<and> n < BUCKETS \<longrightarrow> node_ok ?H ?W n"
    using assms(1,2) by (auto simp: tree_ok_def shape_def buckets_ok_def)
  have vals: "\<forall>c < BUCKETS. ?W ! (BUCKETS + c) = EMPTY \<or> ?W ! (BUCKETS + c) = c"
    using assms(4,5) leaf_values by metis
  have le: "?W ! ?node \<le> EMPTY" using shape_le [OF sh] assms(3) by simp
  show ?thesis
  proof (cases "?head = keyw ?H (?W ! ?node)")
    case True
    then have "leaf_ok q b"
      using assms(3,5) by (auto simp: leaf_ok_def keyw_def EMPTY_def split: list.splits if_splits)
    then have "calendar_inv q" using assms(1,2,4) unfolding calendar_inv_def by metis
    then show ?thesis
      using True len assms(3) le by (simp add: calendar_update_def Let_def at_def bucket_key_eq)
  next
    case False
    define H' where "H' = (case ?head of Some k \<Rightarrow> ?H[b := k] | None \<Rightarrow> ?H)"
    define w where "w = (if ?head \<noteq> None then b else EMPTY)"
    have H': "\<exists>k. H' = ?H[b := k]"
    proof (cases ?head)
      case None
      then have "H' = ?H[b := ?H ! b]" by (simp add: H'_def)
      then show ?thesis ..
    next
      case (Some k)
      then have "H' = ?H[b := k]" by (simp add: H'_def)
      then show ?thesis ..
    qed
    have len': "length H' = BUCKETS" using H' len by auto
    have wle: "w \<le> EMPTY" using assms(3) by (simp add: w_def EMPTY_def)
    have sh': "shape H' (?W[?node := w])"
      using shape_update [OF sh wle] len' by (simp add: shape_def)
    have "ancestor n ?node \<or> node_ok H' (?W[?node := w]) n" if "1 \<le> n" "n < BUCKETS" for n
      using stale_node_ok [OF nodes vals assms(3) that] H' by blast
    then obtain W' where W': "climb H' (?W[?node := w]) ?node = Some W'" "shape H' W'"
      "\<forall>n. 1 \<le> n \<and> n < BUCKETS \<longrightarrow> node_ok H' W' n" "\<forall>m. BUCKETS \<le> m \<longrightarrow> W' ! m = ?W[?node := w] ! m"
      using climb_ok [OF sh', of ?node] assms(3) by auto
    let ?q = "q\<lparr>cq_heads := H', cq_winners := W'\<rparr>"
    have step: "calendar_update q b = Some ?q"
      using False len assms(3) le W'(1)
      by (cases "cq_buckets q ! b")
        (simp_all add: calendar_update_def Let_def at_def put_def bucket_key_eq H'_def w_def)
    have "leaf_ok ?q b"
      using W'(4) assms(3) len by (auto simp: leaf_ok_def H'_def w_def split: list.split)
    moreover have "leaf_ok ?q c" if "c < BUCKETS" "c \<noteq> b" for c
    proof -
      have "H' ! c = ?H ! c" using H' that by auto
      moreover have "W' ! (BUCKETS + c) = ?W ! (BUCKETS + c)" using W'(4) that by simp
      moreover have "leaf_ok q c" using assms(4) that by simp
      ultimately show ?thesis by (cases "cq_buckets q ! c") (simp_all add: leaf_ok_def)
    qed
    moreover have "buckets_ok ?q" using assms(1) by (simp add: buckets_ok_def)
    ultimately have "calendar_inv ?q" using W'(2,3) unfolding calendar_inv_def tree_ok_def by auto
    then show ?thesis using step by simp
  qed
qed

section \<open>The root\<close>

definition callouts :: "'t calendar \<Rightarrow> 't callout set" where
  "callouts q = (\<Union>b < BUCKETS. set (cq_buckets q ! b))"

lemma root_earliest:
  assumes "\<forall>n. 1 \<le> n \<and> n < BUCKETS \<longrightarrow> node_ok H W n" "1 \<le> m" "m < BUCKETS * 2"
  shows "earlier (keyw H (W ! 1)) (keyw H (W ! m))"
  using assms(2,3)
proof (induction m rule: less_induct)
  case (less m)
  show ?case
  proof (cases "m = 1")
    case False
    let ?p = "m div 2"
    have p: "1 \<le> ?p" "?p < m" "?p < BUCKETS" using less.prems False by auto
    then have "earlier (keyw H (W ! 1)) (keyw H (W ! ?p))" using less by auto
    moreover have "earlier (keyw H (W ! ?p)) (keyw H (W ! m))"
    proof -
      have "W ! ?p = pick H (W ! (?p * 2)) (W ! (?p * 2 + 1))"
        using assms(1) p by (simp add: node_ok_def)
      moreover have "m = ?p * 2 \<or> m = ?p * 2 + 1" by auto
      ultimately show ?thesis using pick_earlier by metis
    qed
    ultimately show ?thesis by (rule earlier_trans)
  qed simp
qed

lemma bucket_head_first:
  "bucket_ok n b (e # es) \<Longrightarrow> t \<in> set (e # es) \<Longrightarrow> co_key e \<le> co_key t"
  by (auto simp: bucket_ok_def intro: less_imp_le)

lemma root_cases:
  assumes "calendar_inv q"
  obtains "callouts q = {}" "cq_winners q ! 1 = EMPTY"
  | b t rest where "cq_winners q ! 1 = b" "b < BUCKETS" "cq_buckets q ! b = t # rest"
      "keyw (cq_heads q) b = Some (co_key t)" "t \<in> callouts q" "\<forall>u \<in> callouts q. co_key t \<le> co_key u"
proof -
  let ?H = "cq_heads q" and ?W = "cq_winners q"
  have nodes: "\<forall>n. 1 \<le> n \<and> n < BUCKETS \<longrightarrow> node_ok ?H ?W n" and leaf: "\<And>b. b < BUCKETS \<Longrightarrow> leaf_ok q b"
    and bo: "\<And>b. b < BUCKETS \<Longrightarrow> bucket_ok (cq_next_order q) b (cq_buckets q ! b)"
    using assms by (auto simp: calendar_inv_def tree_ok_def buckets_ok_def)
  have vals: "\<forall>b < BUCKETS. ?W ! (BUCKETS + b) = EMPTY \<or> ?W ! (BUCKETS + b) = b"
    using leaf leaf_values by metis
  have below: "earlier (keyw ?H (?W ! 1)) (Some (co_key u))" if u: "u \<in> callouts q" for u
  proof -
    obtain b where b: "b < BUCKETS" "u \<in> set (cq_buckets q ! b)" using u by (auto simp: callouts_def)
    then obtain e es where es: "cq_buckets q ! b = e # es" by (cases "cq_buckets q ! b") auto
    then have "?W ! (BUCKETS + b) = b" "?H ! b = co_key e" using leaf [OF b(1)] by (auto simp: leaf_ok_def)
    then have "keyw ?H (?W ! (BUCKETS + b)) = Some (co_key e)" using b by (simp add: keyw_def EMPTY_def)
    moreover have "earlier (keyw ?H (?W ! 1)) (keyw ?H (?W ! (BUCKETS + b)))"
      by (rule root_earliest [OF nodes]) (use b in \<open>auto simp: BUCKETS_def\<close>)
    moreover have "co_key e \<le> co_key u" using bucket_head_first [of _ b e es u] bo [OF b(1)] b(2) es by simp
    ultimately show ?thesis by (auto simp: earlier_def split: option.splits)
  qed
  show thesis
  proof (cases "?W ! 1 = EMPTY")
    case True
    then have "callouts q = {}" using below by (fastforce simp: keyw_def earlier_def)
    then show thesis using that(1) True by blast
  next
    case False
    let ?b = "?W ! 1"
    have b: "?b < BUCKETS" "?W ! (BUCKETS + ?b) = ?b"
      using winner_is_descendant [OF nodes vals _ _ False] by (simp_all add: BUCKETS_def)
    then obtain t rest where t: "cq_buckets q ! ?b = t # rest" "?H ! ?b = co_key t"
      using leaf [OF b(1)] by (auto simp: leaf_ok_def EMPTY_def split: list.splits)
    then have key: "keyw ?H ?b = Some (co_key t)" using b by (simp add: keyw_def EMPTY_def)
    have "t \<in> callouts q" using t(1) b(1) by (auto simp: callouts_def intro!: bexI [of _ ?b])
    then show thesis using that(2) [OF refl b(1) t(1) key] below key by (simp add: earlier_def)
  qed
qed

section \<open>Operations\<close>

lemma bucket_of_less: "bucket_of d < BUCKETS"
  by (simp add: bucket_of_def BUCKETS_def)

lemma bucket_ok_insort:
  assumes "bucket_ok order b es" "bucket_of (co_deadline t) = b" "co_order t = order"
  shows "bucket_ok (order + 1) b (insort_key co_key t es)"
proof -
  have "co_key u \<noteq> co_key t" if "u \<in> set es" for u
  proof -
    have "co_order u < order" using assms(1) that by (simp add: bucket_ok_def)
    then show ?thesis using assms(3) by (simp add: co_key_def)
  qed
  then have "co_key t \<notin> co_key ` set es" by (metis imageE)
  then have "distinct (map co_key (insort_key co_key t es))"
    using assms(1) by (simp add: bucket_ok_def strict_sorted_iff distinct_insort_key)
  moreover have "sorted (map co_key (insort_key co_key t es))"
    using assms(1) by (simp add: sorted_insort_key bucket_ok_def strict_sorted_iff)
  moreover have "bucket_of (co_deadline u) = b \<and> co_order u < order + 1" if "u \<in> set es" for u
    using assms(1) that by (simp add: bucket_ok_def less_SucI)
  ultimately show ?thesis
    using assms(2,3) unfolding bucket_ok_def strict_sorted_iff set_insort_key by simp
qed

lemma bucket_ok_subset:
  assumes "bucket_ok order b es" "set fs \<subseteq> set es" "sorted (map co_key fs)" "distinct fs"
  shows "bucket_ok order b fs"
proof -
  have "inj_on co_key (set es)" using assms(1) by (simp add: bucket_ok_def strict_sorted_iff distinct_map)
  then have "distinct (map co_key fs)" using assms(2,4) by (simp add: distinct_map inj_on_subset)
  then show ?thesis using assms by (auto simp: bucket_ok_def strict_sorted_iff)
qed

lemma bucket_ok_distinct: "bucket_ok order b es \<Longrightarrow> distinct es \<and> sorted (map co_key es)"
  by (auto simp: bucket_ok_def strict_sorted_iff distinct_map)

lemma bucket_ok_remove1: "bucket_ok order b es \<Longrightarrow> bucket_ok order b (remove1 t es)"
  using bucket_ok_distinct [of order b es]
  by (auto intro!: bucket_ok_subset [of order b es] sorted_map_remove1 dest: set_remove1_subset [THEN subsetD])

definition set_bucket :: "'t calendar \<Rightarrow> nat \<Rightarrow> 't callout list \<Rightarrow> nat \<Rightarrow> 't calendar" where
  "set_bucket q b es order = q\<lparr>cq_next_order := order, cq_buckets := (cq_buckets q)[b := es]\<rparr>"

lemma bucket_ok_mono: "bucket_ok order b es \<Longrightarrow> order \<le> order' \<Longrightarrow> bucket_ok order' b es"
  by (auto simp: bucket_ok_def intro: less_le_trans)

lemma set_bucket_ok:
  assumes "calendar_inv q" "b < BUCKETS" "bucket_ok order b es" "cq_next_order q \<le> order"
  shows "buckets_ok (set_bucket q b es order)" "tree_ok (set_bucket q b es order)"
    "\<forall>c < BUCKETS. c \<noteq> b \<longrightarrow> leaf_ok (set_bucket q b es order) c"
proof -
  have len: "length (cq_buckets q) = BUCKETS" using assms(1) by (simp add: calendar_inv_def buckets_ok_def)
  have "bucket_ok order c (cq_buckets q ! c)" if "c < BUCKETS" for c
    by (rule bucket_ok_mono [of "cq_next_order q"]) (use assms(1,4) that in \<open>simp_all add: calendar_inv_def buckets_ok_def\<close>)
  then have "bucket_ok order c ((cq_buckets q)[b := es] ! c)" if "c < BUCKETS" for c
    using that assms(3) len by (cases "c = b") simp_all
  then show "buckets_ok (set_bucket q b es order)"
    using len by (simp add: buckets_ok_def set_bucket_def)
  show "tree_ok (set_bucket q b es order)"
    using assms(1) by (simp add: calendar_inv_def tree_ok_def set_bucket_def)
  have "leaf_ok (set_bucket q b es order) c" if "c < BUCKETS" "c \<noteq> b" for c
  proof -
    have "leaf_ok q c" using assms(1) that by (simp add: calendar_inv_def)
    then show ?thesis using that by (cases "cq_buckets q ! c") (simp_all add: leaf_ok_def set_bucket_def)
  qed
  then show "\<forall>c < BUCKETS. c \<noteq> b \<longrightarrow> leaf_ok (set_bucket q b es order) c" by blast
qed

definition outside :: "'t calendar \<Rightarrow> nat \<Rightarrow> 't callout set" where
  "outside q b = (\<Union>c \<in> {..<BUCKETS} - {b}. set (cq_buckets q ! c))"

lemma callouts_split: "b < BUCKETS \<Longrightarrow> callouts q = set (cq_buckets q ! b) \<union> outside q b"
  by (auto simp: callouts_def outside_def)

lemma callouts_set_bucket:
  assumes "length (cq_buckets q) = BUCKETS" "b < BUCKETS" "cq_buckets q' = (cq_buckets q)[b := es]"
  shows "callouts q' = set es \<union> outside q b"
proof -
  have "outside q' b = outside q b" using assms by (auto simp: outside_def)
  then show ?thesis using callouts_split [OF assms(2), of q'] assms by simp
qed

lemma outside_disjoint:
  assumes "calendar_inv q" "b < BUCKETS" "bucket_of (co_deadline t) = b"
  shows "t \<notin> outside q b"
proof
  assume "t \<in> outside q b"
  then obtain c where c: "c < BUCKETS" "c \<noteq> b" "t \<in> set (cq_buckets q ! c)" by (auto simp: outside_def)
  then have "bucket_ok (cq_next_order q) c (cq_buckets q ! c)"
    using assms(1) by (simp add: calendar_inv_def buckets_ok_def)
  then show False using c assms(3) by (simp add: bucket_ok_def)
qed

lemma calendar_inv_reads:
  assumes "calendar_inv q" "b < BUCKETS"
  shows "at (cq_buckets q) b = Some (cq_buckets q ! b)"
    "at (cq_winners q) (BUCKETS + b) = Some (cq_winners q ! (BUCKETS + b))"
    "at (cq_winners q) 1 = Some (cq_winners q ! 1)"
    "bucket_key (cq_heads q) (cq_winners q ! (BUCKETS + b)) = Some (keyw (cq_heads q) (cq_winners q ! (BUCKETS + b)))"
    "bucket_key (cq_heads q) (cq_winners q ! 1) = Some (keyw (cq_heads q) (cq_winners q ! 1))"
    "cq_winners q ! (BUCKETS + b) = EMPTY \<or> cq_winners q ! (BUCKETS + b) = b"
    "bucket_ok (cq_next_order q) b (cq_buckets q ! b)" "leaf_ok q b"
    "length (cq_buckets q) = BUCKETS"
proof -
  have sh: "shape (cq_heads q) (cq_winners q)" using assms(1) by (simp add: calendar_inv_def tree_ok_def)
  then have len: "length (cq_heads q) = BUCKETS" "length (cq_winners q) = BUCKETS * 2" by (auto simp: shape_def)
  show "length (cq_buckets q) = BUCKETS" "at (cq_buckets q) b = Some (cq_buckets q ! b)"
    "bucket_ok (cq_next_order q) b (cq_buckets q ! b)" and l: "leaf_ok q b"
    using assms by (auto simp: calendar_inv_def buckets_ok_def at_def)
  show "at (cq_winners q) (BUCKETS + b) = Some (cq_winners q ! (BUCKETS + b))"
    "at (cq_winners q) 1 = Some (cq_winners q ! 1)"
    using len assms(2) by (auto simp: at_def)
  show "bucket_key (cq_heads q) (cq_winners q ! (BUCKETS + b)) = Some (keyw (cq_heads q) (cq_winners q ! (BUCKETS + b)))"
    "bucket_key (cq_heads q) (cq_winners q ! 1) = Some (keyw (cq_heads q) (cq_winners q ! 1))"
    using shape_le [OF sh] assms(2) len by (auto intro!: bucket_key_eq)
  show "cq_winners q ! (BUCKETS + b) = EMPTY \<or> cq_winners q ! (BUCKETS + b) = b"
    using leaf_values [OF l] .
qed

lemma replace_bucket:
  assumes "calendar_inv q" "b < BUCKETS" "bucket_ok order b es" "cq_next_order q \<le> order"
    and "cq_buckets q ! b \<noteq> [] \<Longrightarrow> es \<noteq> [] \<Longrightarrow> \<not> upd \<Longrightarrow> hd es = hd (cq_buckets q ! b)"
    and "\<not> upd \<Longrightarrow> es \<noteq> [] \<and> cq_buckets q ! b \<noteq> []"
  shows "\<exists>q'. (if upd then calendar_update (set_bucket q b es order) b else Some (set_bucket q b es order)) = Some q' \<and>
    calendar_inv q' \<and> callouts q' = set es \<union> outside q b \<and> cq_next_order q' = order"
proof -
  let ?q = "set_bucket q b es order"
  note r = calendar_inv_reads [OF assms(1,2)]
  note ok = set_bucket_ok [OF assms(1-4)]
  have call: "callouts q' = set es \<union> outside q b" if "cq_buckets q' = cq_buckets ?q" for q'
    using callouts_set_bucket [OF r(9) assms(2)] that by (simp add: set_bucket_def)
  show ?thesis
  proof (cases upd)
    case True
    have "cq_winners ?q ! (BUCKETS + b) = EMPTY \<or> cq_winners ?q ! (BUCKETS + b) = b"
      using r(6) by (simp add: set_bucket_def)
    from calendar_update_ok [OF ok(1,2) assms(2) ok(3) this] obtain q' where
      "calendar_update ?q b = Some q'" "calendar_inv q'" "cq_buckets q' = cq_buckets ?q"
      "cq_next_order q' = cq_next_order ?q" by blast
    then show ?thesis using True call by (simp add: set_bucket_def)
  next
    case False
    have len: "b < length (cq_buckets q)" using r(9) assms(2) by simp
    have "leaf_ok ?q b"
      using r(8) assms(5,6) False len
      by (cases "cq_buckets q ! b"; cases es) (auto simp: leaf_ok_def set_bucket_def)
    then have "\<forall>c < BUCKETS. leaf_ok ?q c" using ok(3) by (metis (full_types))
    then have "calendar_inv ?q" using ok(1,2) by (simp add: calendar_inv_def)
    then show ?thesis using False call [of ?q] by (simp add: set_bucket_def)
  qed
qed

lemma calendar_insert_correct:
  assumes "calendar_inv q" "cq_next_order q + 1 < u64_limit"
  shows "\<exists>t q'. calendar_insert q deadline target = Some (t, q') \<and> calendar_inv q' \<and>
    t = \<lparr>co_deadline = deadline, co_order = cq_next_order q, co_target = target\<rparr> \<and>
    callouts q' = insert t (callouts q) \<and> cq_next_order q' = cq_next_order q + 1"
proof -
  let ?b = "bucket_of deadline"
  let ?es = "cq_buckets q ! ?b"
  define t where "t = \<lparr>co_deadline = deadline, co_order = cq_next_order q, co_target = target\<rparr>"
  let ?key = "keyw (cq_heads q) (cq_winners q ! (BUCKETS + ?b))"
  define upd where "upd = (case ?key of None \<Rightarrow> True | Some key \<Rightarrow> co_key t < key)"
  note b = bucket_of_less [of deadline]
  note r = calendar_inv_reads [OF assms(1) b]
  have tb: "bucket_ok (cq_next_order q + 1) ?b (insort_key co_key t ?es)"
    by (rule bucket_ok_insort [OF r(7)]) (simp_all add: t_def)
  have keep: "?es \<noteq> [] \<and> hd (insort_key co_key t ?es) = hd ?es" if "\<not> upd"
  proof (cases ?es)
    case Nil
    then have "?key = None" using r(8) by (simp add: leaf_ok_def keyw_def)
    then show ?thesis using that by (simp add: upd_def)
  next
    case (Cons e es)
    then have "?key = Some (co_key e)" using r(8) b by (simp add: leaf_ok_def keyw_def EMPTY_def)
    then have "co_key e \<le> co_key t" using that by (simp add: upd_def not_less)
    moreover have "co_key e \<noteq> co_key t" using r(7) Cons by (auto simp: bucket_ok_def co_key_def t_def)
    ultimately show ?thesis using Cons by (simp add: not_le)
  qed
  have ne: "insort_key co_key t ?es \<noteq> []" by (metis insert_not_empty set_empty set_insort_key)
  have "\<exists>q'. (if upd then calendar_update (set_bucket q ?b (insort_key co_key t ?es) (cq_next_order q + 1)) ?b
      else Some (set_bucket q ?b (insort_key co_key t ?es) (cq_next_order q + 1))) = Some q' \<and> calendar_inv q' \<and>
      callouts q' = set (insort_key co_key t ?es) \<union> outside q ?b \<and> cq_next_order q' = cq_next_order q + 1"
    by (rule replace_bucket [OF assms(1) b tb]) (use keep ne in auto)
  then obtain q' where q': "(if upd then calendar_update (set_bucket q ?b (insort_key co_key t ?es) (cq_next_order q + 1)) ?b
      else Some (set_bucket q ?b (insort_key co_key t ?es) (cq_next_order q + 1))) = Some q'" "calendar_inv q'"
      "callouts q' = insert t (set ?es) \<union> outside q ?b" "cq_next_order q' = cq_next_order q + 1"
    by (auto simp: set_insort_key)
  have "calendar_insert q deadline target = Some (t, q')"
    using q'(1) r assms(2)
    by (simp add: calendar_insert_def Let_def checked_add_def flip: t_def upd_def set_bucket_def split: if_splits)
  then show ?thesis using q' callouts_split [OF b, of q] t_def by auto
qed

lemma set_bucket_same: "set_bucket q b es (cq_next_order q) = q\<lparr>cq_buckets := (cq_buckets q)[b := es]\<rparr>"
  by (simp add: set_bucket_def)

lemma callouts_bucket:
  assumes "calendar_inv q" "t \<in> callouts q"
  shows "t \<in> set (cq_buckets q ! bucket_of (co_deadline t))"
proof -
  obtain b where "b < BUCKETS" "t \<in> set (cq_buckets q ! b)" using assms(2) by (auto simp: callouts_def)
  moreover from this have "bucket_of (co_deadline t) = b"
    using calendar_inv_reads(7) [OF assms(1), of b] by (simp add: bucket_ok_def)
  ultimately show ?thesis by simp
qed

lemma calendar_remove_correct:
  assumes "calendar_inv q" "t \<in> callouts q"
  shows "\<exists>q'. calendar_remove q True t = Some q' \<and> calendar_inv q' \<and> callouts q' = callouts q - {t} \<and>
    cq_next_order q' = cq_next_order q"
proof -
  let ?b = "bucket_of (co_deadline t)"
  let ?es = "cq_buckets q ! ?b"
  note b = bucket_of_less [of "co_deadline t"]
  note r = calendar_inv_reads [OF assms(1) b]
  have t: "t \<in> set ?es" using callouts_bucket [OF assms] .
  define upd where "upd = (keyw (cq_heads q) (cq_winners q ! (BUCKETS + ?b)) = Some (co_key t))"
  obtain e es where es: "?es = e # es" using t by (cases ?es) auto
  then have key: "keyw (cq_heads q) (cq_winners q ! (BUCKETS + ?b)) = Some (co_key e)"
    using r(8) b by (simp add: leaf_ok_def keyw_def EMPTY_def)
  have keep: "remove1 t ?es \<noteq> [] \<and> hd (remove1 t ?es) = hd ?es" if "\<not> upd"
    using that key es by (auto simp: upd_def)
  have "\<exists>q'. (if upd then calendar_update (set_bucket q ?b (remove1 t ?es) (cq_next_order q)) ?b
      else Some (set_bucket q ?b (remove1 t ?es) (cq_next_order q))) = Some q' \<and> calendar_inv q' \<and>
      callouts q' = set (remove1 t ?es) \<union> outside q ?b \<and> cq_next_order q' = cq_next_order q"
    by (rule replace_bucket [OF assms(1) b bucket_ok_remove1 [OF r(7)]]) (use keep es in auto)
  then obtain q' where q': "(if upd then calendar_update (set_bucket q ?b (remove1 t ?es) (cq_next_order q)) ?b
      else Some (set_bucket q ?b (remove1 t ?es) (cq_next_order q))) = Some q'" "calendar_inv q'"
      "callouts q' = set (remove1 t ?es) \<union> outside q ?b" "cq_next_order q' = cq_next_order q"
    by blast
  have "calendar_remove q True t = Some q'"
    using q'(1) r t unfolding set_bucket_same upd_def
    by (simp add: calendar_remove_def Let_def)
  moreover have "set (remove1 t ?es) = set ?es - {t}"
    using bucket_ok_distinct [OF r(7)] by simp
  ultimately show ?thesis
    using q' callouts_split [OF b, of q] outside_disjoint [OF assms(1) b refl] by auto
qed

lemma next_deadline_correct:
  assumes "calendar_inv q"
  shows "next_deadline q = Some (if callouts q = {} then None else Some (Min (co_deadline ` callouts q)))"
proof -
  note r = calendar_inv_reads [OF assms, of 0]
  have fin: "finite (callouts q)" by (simp add: callouts_def)
  show ?thesis
    using assms
  proof (cases rule: root_cases)
    case 1
    then show ?thesis using r by (simp add: next_deadline_def keyw_def BUCKETS_def)
  next
    case (2 b t rest)
    have "co_deadline t \<le> co_deadline u" if "u \<in> callouts q" for u
      using 2(6) that by (auto simp: co_key_def)
    then have "Min (co_deadline ` callouts q) = co_deadline t"
      using 2(5) fin by (intro Min_eqI) auto
    then show ?thesis using 2 r by (auto simp: next_deadline_def co_key_def BUCKETS_def)
  qed
qed

lemma pop_expired_correct:
  assumes "calendar_inv q"
  shows "\<exists>r q'. pop_expired q now = Some (r, q') \<and> calendar_inv q' \<and> (case r of
      None \<Rightarrow> q' = q \<and> (\<forall>u \<in> callouts q. now < co_deadline u)
    | Some t \<Rightarrow> t \<in> callouts q \<and> co_deadline t \<le> now \<and> (\<forall>u \<in> callouts q. co_key t \<le> co_key u) \<and>
        callouts q' = callouts q - {t})"
  using assms
proof (cases rule: root_cases)
  case 1
  then show ?thesis using next_deadline_correct [OF assms] assms by (simp add: pop_expired_def)
next
  case (2 b t rest)
  note r = calendar_inv_reads [OF assms 2(2)]
  have min: "co_deadline t \<le> co_deadline u" if "u \<in> callouts q" for u
    using 2(6) that by (auto simp: co_key_def)
  have nd: "next_deadline q = Some (Some (co_deadline t))"
    using 2 r by (simp add: next_deadline_def co_key_def)
  show ?thesis
  proof (cases "now < co_deadline t")
    case True
    then show ?thesis using nd assms min by (fastforce simp: pop_expired_def)
  next
    case False
    have rest: "bucket_ok (cq_next_order q) b rest"
      using r(7) 2(3) bucket_ok_remove1 [of _ b "t # rest" t] by simp
    obtain q' where q': "calendar_update (set_bucket q b rest (cq_next_order q)) b = Some q'" "calendar_inv q'"
      "callouts q' = set rest \<union> outside q b"
      using replace_bucket [OF assms 2(2) rest, of True] by auto
    have "pop_expired q now = Some (Some t, q')"
      using False nd 2 r q'(1) unfolding set_bucket_same by (simp add: pop_expired_def)
    moreover have "t \<notin> set rest" "bucket_of (co_deadline t) = b"
      using bucket_ok_distinct [OF r(7)] r(7) 2(3) by (auto simp: bucket_ok_def)
    then have "callouts q' = callouts q - {t}"
      using q'(3) callouts_split [OF 2(2), of q] 2(3) outside_disjoint [OF assms 2(2), of t] by auto
    ultimately show ?thesis using q'(2) False 2(5,6) by auto
  qed
qed

lemma calendar_new_inv:
  "calendar_inv (calendar_new :: 't calendar)" "callouts (calendar_new :: 't calendar) = {}"
  "cq_next_order (calendar_new :: 't calendar) = 0"
proof -
  have "node_ok (replicate BUCKETS (0, 0)) (replicate (BUCKETS * 2) EMPTY) n" if "n < BUCKETS" for n
    using that by (simp add: node_ok_def pick_def winner_of_def keyw_def)
  then show "calendar_inv (calendar_new :: 't calendar)" "callouts (calendar_new :: 't calendar) = {}"
    "cq_next_order (calendar_new :: 't calendar) = 0"
    by (simp_all add: calendar_inv_def buckets_ok_def bucket_ok_def tree_ok_def shape_def leaf_ok_def
      calendar_new_def callouts_def)
qed

section \<open>The interface of a callout queue\<close>

text \<open>
  What the interrupt handler relies on: removing the next expired callout never fails, takes
  a callout that no other one precedes, and reports none only when none has expired.
\<close>

locale callout_queue =
  fixes pop :: "'q \<Rightarrow> nat \<Rightarrow> ('t callout option \<times> 'q) panics"
    and inv :: "'q \<Rightarrow> bool"
    and elems :: "'q \<Rightarrow> 't callout set"
  assumes pop_law: "inv q \<Longrightarrow> \<exists>r q'. pop q now = Some (r, q') \<and> inv q' \<and> (case r of
      None \<Rightarrow> q' = q \<and> (\<forall>u \<in> elems q. now < co_deadline u)
    | Some t \<Rightarrow> t \<in> elems q \<and> co_deadline t \<le> now \<and> (\<forall>u \<in> elems q. co_key t \<le> co_key u) \<and>
        elems q' = elems q - {t})"
begin

lemma dispatch_law:
  "inv q \<Longrightarrow> \<exists>ts q'. dispatch_with pop n now q = Some (ts, q') \<and> inv q' \<and>
    elems q' = elems q - set ts \<and> set ts \<subseteq> elems q \<and> distinct ts \<and> sorted (map co_key ts) \<and>
    (\<forall>t \<in> set ts. co_deadline t \<le> now \<and> (\<forall>u \<in> elems q'. co_key t \<le> co_key u)) \<and> length ts \<le> n \<and>
    (length ts < n \<longrightarrow> (\<forall>u \<in> elems q'. now < co_deadline u))"
proof (induction n arbitrary: q)
  case (Suc n)
  obtain r q1 where pop: "pop q now = Some (r, q1)" "inv q1" "case r of
      None \<Rightarrow> q1 = q \<and> (\<forall>u \<in> elems q. now < co_deadline u)
    | Some t \<Rightarrow> t \<in> elems q \<and> co_deadline t \<le> now \<and> (\<forall>u \<in> elems q. co_key t \<le> co_key u) \<and>
        elems q1 = elems q - {t}"
    using pop_law [OF Suc.prems] by blast
  show ?case
  proof (cases r)
    case None
    then show ?thesis using pop by simp
  next
    case (Some t)
    then have t: "t \<in> elems q" "co_deadline t \<le> now" "\<forall>u \<in> elems q. co_key t \<le> co_key u" "elems q1 = elems q - {t}"
      using pop(3) by auto
    obtain ts q' where ts: "dispatch_with pop n now q1 = Some (ts, q')" "inv q'" "elems q' = elems q1 - set ts"
      "set ts \<subseteq> elems q1" "distinct ts" "sorted (map co_key ts)"
      "\<forall>t \<in> set ts. co_deadline t \<le> now \<and> (\<forall>u \<in> elems q'. co_key t \<le> co_key u)" "length ts \<le> n"
      "length ts < n \<longrightarrow> (\<forall>u \<in> elems q'. now < co_deadline u)"
      using Suc.IH [OF pop(2)] by blast
    have "dispatch_with pop (Suc n) now q = Some (t # ts, q')" using pop(1) Some ts(1) by simp
    moreover have "elems q' = elems q - set (t # ts)" "set (t # ts) \<subseteq> elems q" "distinct (t # ts)"
      "sorted (map co_key (t # ts))"
      using t ts(3-6) by auto
    moreover have "\<forall>u \<in> elems q'. co_key t \<le> co_key u" using t(3,4) ts(3) by blast
    ultimately show ?thesis using ts(2,7-9) t(2) by auto
  qed
qed simp

end

interpretation calq: callout_queue pop_expired calendar_inv callouts
  by unfold_locales (rule pop_expired_correct)

section \<open>Conversion\<close>

lemma find_shift_returns:
  assumes "1 \<le> f shift" "f 0 \<le> U64_MAX" "\<And>s. f (Suc s) \<le> 2 * f s + 1"
  shows "\<exists>m s. find_shift f shift = Some (m, s) \<and> m = f s \<and> 1 \<le> m \<and> m \<le> U64_MAX \<and> s \<le> shift"
  using assms(1)
proof (induction shift)
  case 0
  then show ?case using assms(2) by (simp add: find_shift.simps)
next
  case (Suc shift)
  show ?case
  proof (cases "f (Suc shift) \<le> U64_MAX")
    case True
    then show ?thesis using Suc.prems by (simp add: find_shift.simps)
  next
    case False
    then have "1 \<le> f shift" using assms(3) [of shift] by (simp add: U64_MAX_def)
    then obtain m s where "find_shift f shift = Some (m, s)" "m = f s" "1 \<le> m" "m \<le> U64_MAX" "s \<le> shift"
      using Suc.IH by blast
    then show ?thesis using False by (subst find_shift.simps) simp
  qed
qed

lemma double_div: "2 * x div f \<le> 2 * (x div f) + (1 :: nat)"
proof (cases "f = 0")
  case False
  have "x < f * (x div f) + f"
    using mult_div_mod_eq [of f x] mod_less_divisor [of f x] False by linarith
  then have "x < (x div f + 1) * f" by (simp add: algebra_simps)
  then have "2 * x < (2 * (x div f) + 2) * f" by (simp add: algebra_simps)
  then have "2 * x div f < 2 * (x div f) + 2" by (rule less_mult_imp_div_less)
  then show ?thesis by simp
qed simp

lemma div_ceil_covers: "0 < b \<Longrightarrow> a \<le> div_ceil a b * b"
  using div_ceil_bounds(1) [of b a] by (simp add: div_ceil_def)

lemma ns_multiplier_step: "ns_multiplier f (Suc s) \<le> 2 * ns_multiplier f s + 1"
proof -
  have "NSEC_PER_SEC * 2 ^ Suc s + f div 2 \<le> 2 * (NSEC_PER_SEC * 2 ^ s + f div 2)" by simp
  then have "ns_multiplier f (Suc s) \<le> 2 * (NSEC_PER_SEC * 2 ^ s + f div 2) div f"
    unfolding ns_multiplier_def by (rule div_le_mono)
  also have "\<dots> \<le> 2 * ns_multiplier f s + 1" unfolding ns_multiplier_def by (rule double_div)
  finally show ?thesis .
qed

lemma cycles_multiplier_step: "cycles_multiplier f (Suc s) \<le> 2 * cycles_multiplier f s + 1"
proof -
  have "f * 2 ^ Suc s + NSEC_PER_SEC - 1 \<le> 2 * (f * 2 ^ s + NSEC_PER_SEC - 1)"
    by (simp add: NSEC_PER_SEC_def)
  then have "cycles_multiplier f (Suc s) \<le> 2 * (f * 2 ^ s + NSEC_PER_SEC - 1) div NSEC_PER_SEC"
    unfolding cycles_multiplier_def div_ceil_def by (rule div_le_mono)
  also have "\<dots> \<le> 2 * cycles_multiplier f s + 1"
    unfolding cycles_multiplier_def div_ceil_def by (rule double_div)
  finally show ?thesis .
qed

lemma scale_new_returns:
  assumes "0 < f" "f < u64_limit"
  shows "\<exists>s. scale_new f = Some s \<and> cs_cycles_mult s = cycles_multiplier f (cs_cycles_shift s)"
proof -
  have "f div f \<le> (NSEC_PER_SEC * 2 ^ 48 + f div 2) div f"
    by (rule div_le_mono) (use assms(2) in \<open>simp add: NSEC_PER_SEC_def\<close>)
  then have n1: "1 \<le> ns_multiplier f CLOCK_SCALE_MAX_SHIFT"
    using assms(1) by (simp add: ns_multiplier_def CLOCK_SCALE_MAX_SHIFT_def)
  have "ns_multiplier f 0 \<le> NSEC_PER_SEC + f div 2" by (simp add: ns_multiplier_def div_le_dividend)
  then have n0: "ns_multiplier f 0 \<le> U64_MAX" using assms(2) by (simp add: NSEC_PER_SEC_def U64_MAX_def)
  have c1: "1 \<le> cycles_multiplier f CLOCK_SCALE_MAX_SHIFT"
    using div_ceil_covers [of NSEC_PER_SEC "f * 2 ^ CLOCK_SCALE_MAX_SHIFT"] assms(1)
    by (cases "cycles_multiplier f CLOCK_SCALE_MAX_SHIFT") (simp_all add: cycles_multiplier_def NSEC_PER_SEC_def)
  have c0: "cycles_multiplier f 0 \<le> U64_MAX"
    using assms(2) by (simp add: cycles_multiplier_def div_ceil_def NSEC_PER_SEC_def U64_MAX_def)
  show ?thesis
    using find_shift_returns [OF n1 n0 ns_multiplier_step] find_shift_returns [OF c1 c0 cycles_multiplier_step]
      assms(1)
    by (auto simp: scale_new_def)
qed

lemma ns_to_cycles_covers:
  assumes "cs_cycles_mult s = cycles_multiplier f (cs_cycles_shift s)" "ns_to_cycles s ns < U64_MAX"
  shows "ns * f \<le> ns_to_cycles s ns * NSEC_PER_SEC"
proof (cases "ns = 0")
  case False
  let ?p = "2 ^ cs_cycles_shift s :: nat" and ?c = "ns_to_cycles s ns"
  have "f * ?p \<le> cs_cycles_mult s * NSEC_PER_SEC"
    using div_ceil_covers [of NSEC_PER_SEC "f * ?p"] assms(1) by (simp add: cycles_multiplier_def NSEC_PER_SEC_def)
  moreover have "ns * cs_cycles_mult s \<le> ?c * ?p"
  proof -
    have "(ns * cs_cycles_mult s + (?p - 1)) div ?p \<le> ?c"
      using assms(2) False by (simp add: ns_to_cycles_def Let_def)
    moreover have "ns * cs_cycles_mult s \<le> (ns * cs_cycles_mult s + (?p - 1)) div ?p * ?p"
      using div_ceil_covers [of ?p "ns * cs_cycles_mult s"] by (simp add: div_ceil_def)
    ultimately show ?thesis using mult_le_mono1 order.trans by blast
  qed
  ultimately have "ns * (f * ?p) \<le> ?c * ?p * NSEC_PER_SEC"
    by (meson mult_le_mono1 mult_le_mono2 order.trans mult.assoc [THEN eq_refl] mult.assoc [symmetric, THEN eq_refl])
  then have "(ns * f) * ?p \<le> (?c * NSEC_PER_SEC) * ?p" by (simp add: ac_simps)
  then show ?thesis by simp
qed simp

section \<open>Properties\<close>

text \<open>
  C17. The calendar queue refines a priority queue of callouts ordered by deadline and, among
  equal deadlines, by insertion. In a state that satisfies its invariant no operation panics
  and each keeps the invariant: insertion adds the callout with a fresh order, removal deletes
  exactly the callout, the next deadline is the least one, and taking an expired callout takes
  a first one, or none when none has expired.
\<close>
theorem calendar_refines:
  assumes "calendar_inv q" "cq_next_order q + 1 < u64_limit" "u \<in> callouts q"
  shows "(\<exists>t q'. calendar_insert q deadline target = Some (t, q') \<and> calendar_inv q' \<and>
      t = \<lparr>co_deadline = deadline, co_order = cq_next_order q, co_target = target\<rparr> \<and>
      t \<notin> callouts q \<and> callouts q' = insert t (callouts q)) \<and>
    (\<exists>q'. calendar_remove q True u = Some q' \<and> calendar_inv q' \<and> callouts q' = callouts q - {u}) \<and>
    next_deadline q = Some (Some (Min (co_deadline ` callouts q))) \<and>
    (\<exists>r q'. pop_expired q now = Some (r, q') \<and> calendar_inv q' \<and> (case r of
        None \<Rightarrow> q' = q \<and> (\<forall>t \<in> callouts q. now < co_deadline t)
      | Some t \<Rightarrow> t \<in> callouts q \<and> co_deadline t \<le> now \<and> (\<forall>v \<in> callouts q. co_key t \<le> co_key v) \<and>
          callouts q' = callouts q - {t}))"
proof -
  have "\<lparr>co_deadline = deadline, co_order = cq_next_order q, co_target = target\<rparr> \<notin> callouts q"
  proof
    assume "\<lparr>co_deadline = deadline, co_order = cq_next_order q, co_target = target\<rparr> \<in> callouts q"
    from callouts_bucket [OF assms(1) this] show False
      using calendar_inv_reads(7) [OF assms(1) bucket_of_less [of deadline]] by (auto simp: bucket_ok_def)
  qed
  moreover have "next_deadline q = Some (Some (Min (co_deadline ` callouts q)))"
    using next_deadline_correct [OF assms(1)] assms(3) by auto
  ultimately show ?thesis
    using calendar_insert_correct [OF assms(1,2), of deadline target] calendar_remove_correct [OF assms(1,3)]
      pop_expired_correct [OF assms(1), of now]
    by blast
qed

theorem calendar_refines_witness:
  "\<exists>t q. calendar_insert calendar_new 5 True = Some (t, q) \<and> t = \<lparr>co_deadline = 5, co_order = 0, co_target = True\<rparr> \<and>
    next_deadline q = Some (Some 5)"
proof -
  obtain t and q :: "bool calendar" where q: "calendar_insert calendar_new 5 True = Some (t, q)" "calendar_inv q"
    "t = \<lparr>co_deadline = 5, co_order = 0, co_target = True\<rparr>" "callouts q = {t}" "cq_next_order q = 1"
    using calendar_insert_correct [OF calendar_new_inv(1), of 5 True] by (auto simp: calendar_new_inv)
  have "next_deadline q = Some (Some (Min (co_deadline ` callouts q)))"
    using calendar_refines [OF q(2), of t 0 True 0] q by simp
  with q show ?thesis by simp
qed

text \<open>
  C18. The local timer interrupt never panics. It delivers only expired callouts, earliest
  deadline first and in order of insertion among equal deadlines, at most 64 of them, and all
  expired ones when there are fewer. Afterwards the hardware is programmed for the earliest
  remaining callout or the pending scheduler deadline, whichever is first, and a scheduler
  deadline that has passed is cleared.
\<close>
theorem timer_interrupt_correct:
  assumes "calendar_inv (lc_timers l)"
  shows "\<exists>fired armed l'. handle_local_timer_interrupt l now = Some (fired, armed, l') \<and>
    calendar_inv (lc_timers l') \<and> callouts (lc_timers l') = callouts (lc_timers l) - set fired \<and>
    set fired \<subseteq> callouts (lc_timers l) \<and> distinct fired \<and> sorted (map co_key fired) \<and>
    (\<forall>t \<in> set fired. co_deadline t \<le> now) \<and> length fired \<le> 64 \<and>
    (length fired < 64 \<longrightarrow> (\<forall>u \<in> callouts (lc_timers l'). now < co_deadline u)) \<and>
    (let pending = callouts (lc_timers l');
         callout = (if pending = {} then None else Some (Min (co_deadline ` pending)));
         scheduler = (case dl_scheduler (lc_deadlines l) of
            Some d \<Rightarrow> if d \<le> now then None else Some d | None \<Rightarrow> None)
     in dl_scheduler (lc_deadlines l') = scheduler \<and> dl_armed (lc_deadlines l') = armed \<and>
        armed = (case (scheduler, callout) of (Some a, Some b) \<Rightarrow> Some (min a b) | (None, b) \<Rightarrow> b | (a, None) \<Rightarrow> a))"
proof -
  obtain ts q where d: "dispatch_with pop_expired DISPATCH_BUDGET now (lc_timers l) = Some (ts, q)"
    "calendar_inv q" "callouts q = callouts (lc_timers l) - set ts" "set ts \<subseteq> callouts (lc_timers l)"
    "distinct ts" "sorted (map co_key ts)"
    "\<forall>t \<in> set ts. co_deadline t \<le> now \<and> (\<forall>u \<in> callouts q. co_key t \<le> co_key u)" "length ts \<le> DISPATCH_BUDGET"
    "length ts < DISPATCH_BUDGET \<longrightarrow> (\<forall>u \<in> callouts q. now < co_deadline u)"
    using calq.dispatch_law [OF assms, of DISPATCH_BUDGET now] by blast
  let ?callout = "if callouts q = {} then None else Some (Min (co_deadline ` callouts q))"
  have run: "handle_local_timer_interrupt l now = Some (ts, fst (finish_interrupt (lc_deadlines l) now ?callout),
      l\<lparr>lc_timers := q, lc_deadlines := snd (finish_interrupt (lc_deadlines l) now ?callout)\<rparr>)"
    using d(1) next_deadline_correct [OF d(2)]
    by (simp add: handle_local_timer_interrupt_def split_beta Let_def)
  show ?thesis
    unfolding run using d
    by (simp add: Let_def finish_interrupt_def deadlines_next_def DISPATCH_BUDGET_def split: option.split)
qed

theorem timer_interrupt_witness:
  "\<exists>armed l'. handle_local_timer_interrupt
     \<lparr>lc_deadlines = \<lparr>dl_scheduler = Some 7, dl_callout = None, dl_armed = None\<rparr>,
      lc_timers = (calendar_new :: bool calendar)\<rparr> 3 = Some ([], armed, l') \<and> armed = Some 7"
  using timer_interrupt_correct [of "\<lparr>lc_deadlines = \<lparr>dl_scheduler = Some 7, dl_callout = None, dl_armed = None\<rparr>,
      lc_timers = (calendar_new :: bool calendar)\<rparr>" 3]
  by (auto simp: Let_def calendar_new_inv)

text \<open>
  C19. Every counter frequency has a conversion scale. A delay converted to counter cycles is
  never too short: the cycles cover the nanoseconds exactly or with some excess, unless the
  result saturates. Conversion of cycles to nanoseconds is monotonic.
\<close>
theorem clock_scale_correct:
  assumes "0 < f" "f < u64_limit"
  shows "\<exists>s. scale_new f = Some s \<and>
    (ns_to_cycles s ns < U64_MAX \<longrightarrow> ns * f \<le> ns_to_cycles s ns * NSEC_PER_SEC) \<and>
    (a \<le> b \<longrightarrow> cycles_to_ns s a \<le> cycles_to_ns s b)"
proof -
  obtain s where s: "scale_new f = Some s" "cs_cycles_mult s = cycles_multiplier f (cs_cycles_shift s)"
    using scale_new_returns [OF assms] by blast
  have "cycles_to_ns s a \<le> cycles_to_ns s b" if "a \<le> b"
    unfolding cycles_to_ns_def using that by (intro min.mono div_le_mono mult_le_mono1) auto
  with s ns_to_cycles_covers [OF s(2)] show ?thesis by blast
qed

theorem clock_scale_witness:
  "\<exists>s. scale_new 10000000 = Some s \<and> cycles_to_ns s 3 \<le> cycles_to_ns s 4"
  using clock_scale_correct [of 10000000 100 3 4] by auto

end
