(* ===== verification/Usermem.thy ===== *)
theory Usermem
  imports Addr Index Errors Bytes
begin

text \<open>
  Model of the system-call helpers of \<open>kernel/src/syscall.rs\<close>: error numbers, the encoding of
  results, the translation of subsystem errors, and the readers of user memory. The address
  space is an argument, a function that copies a number of bytes from an address or fails.
\<close>

section \<open>Error numbers\<close>

datatype errno =
    EPermission | ENoEntry | ENoProcess | EInterrupted | EIo | EBadFileDescriptor | ENoChild
  | ETryAgain | EOutOfMemory | EAccess | EFault | EBusy | EExists | ECrossDevice | ENotDirectory
  | EIsDirectory | EInvalid | ETooManyFiles | ENotTty | EFileTooLarge | ENoSpace | EIllegalSeek
  | EReadOnly | EBrokenPipe | ERange | ENameTooLong | ENotImplemented | ENotEmpty | ELoop
  | EOverflow | ENotSupported | ETimedOut

fun errno_code :: "errno \<Rightarrow> int" where
  "errno_code EPermission = 1" | "errno_code ENoEntry = 2" | "errno_code ENoProcess = 3"
| "errno_code EInterrupted = 4" | "errno_code EIo = 5" | "errno_code EBadFileDescriptor = 9"
| "errno_code ENoChild = 10" | "errno_code ETryAgain = 11" | "errno_code EOutOfMemory = 12"
| "errno_code EAccess = 13" | "errno_code EFault = 14" | "errno_code EBusy = 16"
| "errno_code EExists = 17" | "errno_code ECrossDevice = 18" | "errno_code ENotDirectory = 20"
| "errno_code EIsDirectory = 21" | "errno_code EInvalid = 22" | "errno_code ETooManyFiles = 24"
| "errno_code ENotTty = 25" | "errno_code EFileTooLarge = 27" | "errno_code ENoSpace = 28"
| "errno_code EIllegalSeek = 29" | "errno_code EReadOnly = 30" | "errno_code EBrokenPipe = 32"
| "errno_code ERange = 34" | "errno_code ENameTooLong = 36" | "errno_code ENotImplemented = 38"
| "errno_code ENotEmpty = 39" | "errno_code ELoop = 40" | "errno_code EOverflow = 75"
| "errno_code ENotSupported = 95" | "errno_code ETimedOut = 110"

definition as_i64 :: "nat \<Rightarrow> int" where
  \<comment> \<open>the two's complement reading of a 64-bit value\<close>
  "as_i64 n = (if n < 2 ^ 63 then int n else int n - 2 ^ 64)"

definition raw_result :: "errno + nat \<Rightarrow> int" where
  "raw_result r = (case r of Inr v \<Rightarrow> as_i64 v | Inl e \<Rightarrow> - errno_code e)"

datatype proc_error =
    PFilesystem fs_error | PMemory mem_error | PInvalidElf string | PUnsupportedElf | PInvalidArgument
  | PTooManyFiles | PBadFileDescriptor | PNoSuchProcess | PNoChild | PPermissionDenied

fun map_memory_error :: "mem_error \<Rightarrow> errno" where
  "map_memory_error OutOfMemory = EOutOfMemory"
| "map_memory_error LimitExceeded = EOutOfMemory"
| "map_memory_error InvalidAddress = EFault"
| "map_memory_error NotMapped = EFault"
| "map_memory_error Protection = EFault"
| "map_memory_error AlreadyMapped = EFault"
| "map_memory_error SwapUnavailable = EIo"
| "map_memory_error CorruptSwap = EIo"
| "map_memory_error Io = EIo"
| "map_memory_error Pmap = EIo"

fun map_fs_error :: "fs_error \<Rightarrow> errno" where
  "map_fs_error NotFound = ENoEntry"
| "map_fs_error AlreadyExists = EExists"
| "map_fs_error NotDirectory = ENotDirectory"
| "map_fs_error IllegalSeek = EIllegalSeek"
| "map_fs_error IsDirectory = EIsDirectory"
| "map_fs_error NotTty = ENotTty"
| "map_fs_error Interrupted = EInterrupted"
| "map_fs_error NotEmpty = ENotEmpty"
| "map_fs_error CrossDevice = ECrossDevice"
| "map_fs_error SymlinkLoop = ELoop"
| "map_fs_error NameTooLong = ENameTooLong"
| "map_fs_error InvalidArgument = EInvalid"
| "map_fs_error Unsupported = ENotSupported"
| "map_fs_error Busy = EBusy"
| "map_fs_error WouldBlock = ETryAgain"
| "map_fs_error FsNoSpace = ENoSpace"
| "map_fs_error FileTooLarge = EFileTooLarge"
| "map_fs_error PermissionDenied = EAccess"
| "map_fs_error ReadOnly = EReadOnly"
| "map_fs_error BadFileDescriptor = EBadFileDescriptor"
| "map_fs_error FsOutOfMemory = EOutOfMemory"
| "map_fs_error FsIo = EIo"

fun map_process_error :: "proc_error \<Rightarrow> errno" where
  "map_process_error (PFilesystem e) = map_fs_error e"
| "map_process_error (PMemory e) = map_memory_error e"
| "map_process_error PTooManyFiles = ETooManyFiles"
| "map_process_error PBadFileDescriptor = EBadFileDescriptor"
| "map_process_error PNoSuchProcess = ENoProcess"
| "map_process_error PNoChild = ENoChild"
| "map_process_error PPermissionDenied = EPermission"
| "map_process_error PInvalidArgument = EInvalid"
| "map_process_error (PInvalidElf _) = EInvalid"
| "map_process_error PUnsupportedElf = EInvalid"

section \<open>Readers of user memory\<close>

type_synonym user_reader = "nat \<Rightarrow> nat \<Rightarrow> mem_error + u8 list"

definition CHUNK :: nat where "CHUNK = 128"
definition MAX_EXEC_ITEMS :: nat where "MAX_EXEC_ITEMS = 256"
definition MAX_EXEC_BYTES :: nat where "MAX_EXEC_BYTES = 64 * 1024"

definition chunk_size :: "nat \<Rightarrow> nat \<Rightarrow> nat \<Rightarrow> nat" where
  "chunk_size start limit offset =
     (let page_remaining = unat PAGE_SIZE - start mod unat PAGE_SIZE in
      min (min page_remaining CHUNK) (limit - offset))"

lemma chunk_size_pos: "offset < limit \<Longrightarrow> 0 < chunk_size start limit offset"
  by (simp add: chunk_size_def Let_def CHUNK_def PAGE_SIZE_def)

lemma chunk_size_progress: "offset < limit \<Longrightarrow> limit - (offset + chunk_size start limit offset) < limit - offset"
  using chunk_size_pos [of offset limit start] by linarith

function read_bytes_loop :: "user_reader \<Rightarrow> nat \<Rightarrow> nat \<Rightarrow> nat \<Rightarrow> u8 list \<Rightarrow> errno + u8 list" where
  \<comment> \<open>the loop over the chunks, which end at page boundaries\<close>
  "read_bytes_loop read_user address limit offset bytes =
     (if offset < limit then
        (case checked_add address offset of
           None \<Rightarrow> Inl EFault
         | Some start \<Rightarrow>
             let n = chunk_size start limit offset in
             (case read_user start n of
                Inl e \<Rightarrow> Inl (map_memory_error e)
              | Inr chunk \<Rightarrow>
                  if 0 \<in> set (take n chunk) then Inr (bytes @ takeWhile (\<lambda>b. b \<noteq> 0) (take n chunk))
                  else read_bytes_loop read_user address limit (offset + n) (bytes @ take n chunk)))
      else Inl ENameTooLong)"
  by pat_completeness auto
termination
  by (relation "measure (\<lambda>(r, a, limit, offset, b). limit - offset)")
    (simp_all add: chunk_size_progress)

declare read_bytes_loop.simps [simp del]

definition read_user_bytes :: "user_reader \<Rightarrow> nat \<Rightarrow> nat \<Rightarrow> errno + u8 list" where
  "read_user_bytes read_user address limit = read_bytes_loop read_user address limit 0 []"

definition read_user_path :: "user_reader \<Rightarrow> nat \<Rightarrow> errno + u8 list" where
  \<comment> \<open>the limit is the length of the longest path\<close>
  "read_user_path read_user address = read_user_bytes read_user address 4096"

definition read_user_u64 :: "user_reader \<Rightarrow> nat \<Rightarrow> errno + nat" where
  "read_user_u64 read_user address =
     (case read_user address 8 of Inl e \<Rightarrow> Inl (map_memory_error e) | Inr bs \<Rightarrow> Inr (from_le_bytes bs))"

fun path_array_loop :: "user_reader \<Rightarrow> nat \<Rightarrow> nat list \<Rightarrow> nat \<Rightarrow> u8 list list \<Rightarrow> errno + u8 list list" where
  "path_array_loop read_user address [] total_bytes strings = Inl EInvalid"
| "path_array_loop read_user address (index # rest) total_bytes strings =
     (case checked_add address (index * 8) of
        None \<Rightarrow> Inl EFault
      | Some pointer_address \<Rightarrow>
          (case read_user_u64 read_user pointer_address of
             Inl e \<Rightarrow> Inl e
           | Inr pointer \<Rightarrow>
               if pointer = 0 then Inr strings
               else (case read_user_path read_user pointer of
                  Inl e \<Rightarrow> Inl e
                | Inr string \<Rightarrow>
                    (case checked_add total_bytes (length string + 1) of
                       None \<Rightarrow> Inl EOverflow
                     | Some total_bytes \<Rightarrow>
                         if total_bytes > MAX_EXEC_BYTES then Inl EInvalid
                         else path_array_loop read_user address rest total_bytes (strings @ [string])))))"

definition read_user_path_array :: "user_reader \<Rightarrow> nat \<Rightarrow> errno + u8 list list" where
  "read_user_path_array read_user address =
     (if address = 0 then Inr [] else path_array_loop read_user address [0..<MAX_EXEC_ITEMS] 0 [])"

section \<open>Strings that end before an unmapped page\<close>

definition page_of :: "nat \<Rightarrow> nat" where
  "page_of a = a div 4096"

definition memory_reader :: "(nat \<Rightarrow> u8 option) \<Rightarrow> user_reader" where
  \<comment> \<open>an address space as a partial map of bytes: a copy fails when any byte is missing\<close>
  "memory_reader m a n =
     (if \<forall>i < n. m (a + i) \<noteq> None then Inr (map (\<lambda>i. the (m (a + i))) [0..<n]) else Inl NotMapped)"

definition page_granular :: "(nat \<Rightarrow> u8 option) \<Rightarrow> bool" where
  "page_granular m \<longleftrightarrow> (\<forall>x y. page_of x = page_of y \<longrightarrow> m x \<noteq> None \<longrightarrow> m y \<noteq> None)"

definition holds_string :: "(nat \<Rightarrow> u8 option) \<Rightarrow> nat \<Rightarrow> u8 list \<Rightarrow> bool" where
  \<comment> \<open>the bytes of the string and a terminating NUL are stored at the address\<close>
  "holds_string m a s \<longleftrightarrow> 0 \<notin> set s \<and> (\<forall>i \<le> length s. m (a + i) = Some ((s @ [0]) ! i))"

lemma same_page: "i < 4096 - a mod 4096 \<Longrightarrow> page_of (a + i) = page_of a"
  unfolding page_of_def by (subst div_add1_eq) simp

lemma takeWhile_nul: "0 \<notin> set xs \<Longrightarrow> takeWhile (\<lambda>b. b \<noteq> 0) (xs @ 0 # ys) = (xs :: u8 list)"
  by (induction xs) auto

lemma chunk_size_le:
  "chunk_size start limit offset \<le> 4096 - start mod 4096" "offset \<le> limit \<Longrightarrow> offset + chunk_size start limit offset \<le> limit"
  by (simp_all add: chunk_size_def Let_def PAGE_SIZE_def PAGE_SHIFT_def)

lemma read_chunk:
  assumes "page_granular m" "holds_string m a s" "off \<le> length s" "n \<le> 4096 - (a + off) mod 4096" "0 < n"
  shows "\<exists>chunk. memory_reader m (a + off) n = Inr chunk \<and> length chunk = n \<and>
    (\<forall>i < n. off + i \<le> length s \<longrightarrow> chunk ! i = (s @ [0]) ! (off + i))"
proof -
  have at: "m (a + (off + i)) = Some ((s @ [0]) ! (off + i))" if "off + i \<le> length s" for i
    using assms(2) that by (simp add: holds_string_def)
  have "m (a + off) \<noteq> None" using at [of 0] assms(3) by simp
  then have "m (a + off + i) \<noteq> None" if "i < n" for i
  proof -
    have "page_of (a + off) = page_of (a + off + i)" using same_page [of i "a + off"] that assms(4) by simp
    then show ?thesis using assms(1) \<open>m (a + off) \<noteq> None\<close> unfolding page_granular_def by blast
  qed
  then have "memory_reader m (a + off) n = Inr (map (\<lambda>i. the (m (a + off + i))) [0..<n])"
    by (simp add: memory_reader_def)
  moreover have "the (m (a + off + i)) = (s @ [0]) ! (off + i)" if "off + i \<le> length s" for i
    using at [OF that] by (simp add: add.assoc)
  ultimately show ?thesis by simp
qed

lemma read_bytes_loop_string:
  assumes "page_granular m" "holds_string m a s" "a + length s < u64_limit" "length s < limit"
  shows "off \<le> length s \<Longrightarrow> read_bytes_loop (memory_reader m) a limit off (take off s) = Inr s"
proof (induction "limit - off" arbitrary: off rule: less_induct)
  case less
  let ?n = "chunk_size (a + off) limit off"
  have n: "0 < ?n" "?n \<le> 4096 - (a + off) mod 4096" "off + ?n \<le> limit"
    using chunk_size_pos chunk_size_le less.prems assms(4) by auto
  obtain chunk where c: "memory_reader m (a + off) ?n = Inr chunk" "length chunk = ?n"
    "\<forall>i < ?n. off + i \<le> length s \<longrightarrow> chunk ! i = (s @ [0]) ! (off + i)"
    using read_chunk [OF assms(1,2) less.prems n(2,1)] by blast
  have step: "read_bytes_loop (memory_reader m) a limit off (take off s) =
      (if 0 \<in> set chunk then Inr (take off s @ takeWhile (\<lambda>b. b \<noteq> 0) chunk)
       else read_bytes_loop (memory_reader m) a limit (off + ?n) (take off s @ chunk))"
    using less.prems assms(3,4) c(1,2)
    by (subst read_bytes_loop.simps) (simp add: checked_add_def Let_def)
  show ?case
  proof (cases "length s < off + ?n")
    case True
    let ?k = "length s - off"
    have k: "?k < ?n" using True less.prems by simp
    have pre: "take ?k chunk = drop off s"
      using c(2,3) k less.prems by (intro nth_equalityI) (auto simp: nth_append)
    have zero: "chunk ! ?k = 0" using c(3) k less.prems by (simp add: nth_append)
    then have "0 \<in> set chunk" using c(2) k by (metis nth_mem)
    moreover have "takeWhile (\<lambda>b. b \<noteq> 0) chunk = drop off s"
    proof -
      have eq: "chunk = drop off s @ 0 # drop (Suc ?k) chunk"
        using id_take_nth_drop [of ?k chunk] c(2) k pre zero by simp
      have "0 \<notin> set (drop off s)" using assms(2) by (auto simp: holds_string_def dest: in_set_dropD)
      then show ?thesis
        using arg_cong [OF eq, of "takeWhile (\<lambda>b. b \<noteq> 0)"] takeWhile_nul [of "drop off s"] by metis
    qed
    ultimately show ?thesis using step by simp
  next
    case False
    have "chunk = take ?n (drop off s)"
      using c(2,3) False by (intro nth_equalityI) (auto simp: nth_append)
    then have "take off s @ chunk = take (off + ?n) s" "0 \<notin> set chunk"
      using assms(2) by (auto simp: take_add holds_string_def dest: in_set_takeD in_set_dropD)
    then show ?thesis
      using step less.hyps [of "off + ?n"] False n(1) less.prems assms(4) by simp
  qed
qed

text \<open>
  C20. Reading a string from user memory returns the bytes up to its NUL for every string
  shorter than the limit, even when the page after the one that holds the NUL is not mapped.
\<close>
theorem read_user_bytes_correct:
  assumes "page_granular m" "holds_string m a s" "a + length s < u64_limit" "length s < limit"
  shows "read_user_bytes (memory_reader m) a limit = Inr s"
  using read_bytes_loop_string [OF assms, of 0] by (simp add: read_user_bytes_def)

definition demo_memory :: "nat \<Rightarrow> u8 option" where
  \<comment> \<open>one mapped page whose last byte is NUL\<close>
  "demo_memory x = (if x < 4096 then Some (if x = 4095 then 0 else 65) else None)"

theorem read_user_bytes_witness: "read_user_bytes (memory_reader demo_memory) 4093 100 = Inr [65, 65]"
proof (rule read_user_bytes_correct)
  have "x < 4096 \<longleftrightarrow> page_of x = 0" for x by (simp add: page_of_def div_eq_0_iff)
  then show "page_granular demo_memory" by (simp add: page_granular_def demo_memory_def)
  have "demo_memory (4093 + i) = Some (([65, 65] @ [0]) ! i)" if "i \<le> 2" for i
  proof -
    have "i = 0 \<or> i = 1 \<or> i = 2" using that by arith
    then show ?thesis by (elim disjE) (simp_all add: demo_memory_def)
  qed
  then show "holds_string demo_memory 4093 [65, 65]" by (simp add: holds_string_def)
qed simp_all

end
