(* ===== verification/Poll.thy ===== *)
theory Poll
  imports Prelude
begin

text \<open>
  The readiness events of descriptor polling (\<open>PollEvents\<close> of \<open>kernel/src/fs/vnode.rs\<close>), as a
  16-bit mask. An event object of \<open>kernel/src/sys/event.rs\<close> is the flag that it keeps: signalled
  or not.
\<close>

unbundle bit_operations_syntax

definition POLL_IN :: u16 where "POLL_IN = 0x0001"
definition POLL_PRI :: u16 where "POLL_PRI = 0x0002"
definition POLL_OUT :: u16 where "POLL_OUT = 0x0004"
definition POLL_ERR :: u16 where "POLL_ERR = 0x0008"
definition POLL_HUP :: u16 where "POLL_HUP = 0x0010"
definition POLL_NVAL :: u16 where "POLL_NVAL = 0x0020"
definition POLL_RDNORM :: u16 where "POLL_RDNORM = 0x0040"
definition POLL_RDBAND :: u16 where "POLL_RDBAND = 0x0080"
definition POLL_WRNORM :: u16 where "POLL_WRNORM = 0x0100"
definition POLL_WRBAND :: u16 where "POLL_WRBAND = 0x0200"

end
