(* ===== verification/Timerfd.thy ===== *)
theory Timerfd
  imports Usermem Poll
begin

text \<open>
  Model of \<open>kernel/src/proc/timerfd.rs\<close>: timers that count expirations. The clock is an
  argument of every operation, the monotonic time at which it runs. A blocking read follows the
  code through its sleeps: each sleep ends when the time it asked for is over or when somebody
  signals the event of the timer, and a sleep without a limit only in the second way. When the
  timer interrupt comes and who signals are arguments. The descriptor table and the user
  memory of the process are arguments of the system calls. The lemmas show that the bookkeeping counts every expiration once,
  however rarely it runs, that a read delivers the count, and that the times exchanged with
  user memory round-trip.
\<close>

unbundle bit_operations_syntax

section \<open>Timers\<close>

definition CLOCK_REALTIME :: int where "CLOCK_REALTIME = 0"
definition CLOCK_MONOTONIC :: int where "CLOCK_MONOTONIC = 1"
definition CLOCK_BOOTTIME :: int where "CLOCK_BOOTTIME = 7"
definition TFD_NONBLOCK :: u64 where "TFD_NONBLOCK = 2048"
definition TFD_CLOEXEC :: u64 where "TFD_CLOEXEC = 524288"
definition TFD_TIMER_ABSTIME :: u64 where "TFD_TIMER_ABSTIME = 1"
definition TFD_TIMER_CANCEL_ON_SET :: u64 where "TFD_TIMER_CANCEL_ON_SET = 2"
definition NANOSECONDS_PER_SECOND :: nat where "NANOSECONDS_PER_SECOND = 1000000000"

record timer_state =
  ts_deadline :: nat
  ts_interval :: nat
  ts_expirations :: nat

record timerfd =
  tf_clock_id :: int
  tf_state :: timer_state
  tf_changed :: bool
  tf_nonblocking :: bool

definition timerfd_new :: "int \<Rightarrow> bool \<Rightarrow> timerfd" where
  "timerfd_new clock_id nonblocking =
     \<lparr>tf_clock_id = clock_id, tf_state = \<lparr>ts_deadline = 0, ts_interval = 0, ts_expirations = 0\<rparr>,
      tf_changed = False, tf_nonblocking = nonblocking\<rparr>"

definition saturating_mul :: "nat \<Rightarrow> nat \<Rightarrow> nat" where
  "saturating_mul a b = min (a * b) U64_MAX"

definition refresh :: "timer_state \<Rightarrow> nat \<Rightarrow> timer_state" where
  "refresh s now =
     (if ts_deadline s = 0 \<or> now < ts_deadline s then s
      else if ts_interval s = 0 then
        s\<lparr>ts_deadline := 0, ts_expirations := saturating_add (ts_expirations s) 1\<rparr>
      else let n = saturating_add ((now - ts_deadline s) div ts_interval s) 1 in
        s\<lparr>ts_deadline := saturating_add (ts_deadline s) (saturating_mul (ts_interval s) n),
          ts_expirations := saturating_add (ts_expirations s) n\<rparr>)"

definition remaining_ns :: "timer_state \<Rightarrow> nat \<Rightarrow> nat" where
  "remaining_ns s now = ts_deadline s - now"

definition set_time ::
  "timerfd \<Rightarrow> u64 \<Rightarrow> nat \<Rightarrow> nat \<Rightarrow> nat \<Rightarrow> (errno + timer_state) \<times> timerfd" where
  "set_time fd flags interval_ns value_ns now =
     (if flags AND NOT (TFD_TIMER_ABSTIME OR TFD_TIMER_CANCEL_ON_SET) \<noteq> 0 \<or>
         flags AND TFD_TIMER_CANCEL_ON_SET \<noteq> 0 \<and>
           (tf_clock_id fd \<noteq> CLOCK_REALTIME \<or> flags AND TFD_TIMER_ABSTIME = 0)
      then (Inl EInvalid, fd)
      else let previous = refresh (tf_state fd) now;
               deadline = (if value_ns = 0 then 0
                           else if flags AND TFD_TIMER_ABSTIME \<noteq> 0 then value_ns
                           else saturating_add now value_ns) in
        (Inr previous,
         fd\<lparr>tf_state := \<lparr>ts_deadline = deadline, ts_interval = interval_ns, ts_expirations = 0\<rparr>,
            tf_changed := True\<rparr>))"

definition current_time :: "timerfd \<Rightarrow> nat \<Rightarrow> timer_state \<times> timerfd" where
  "current_time fd now = (let s = refresh (tf_state fd) now in (s, fd\<lparr>tf_state := s\<rparr>))"

datatype read_step = ReadReturns "errno + u8 list" | ReadSleeps nat

definition read_once :: "timerfd \<Rightarrow> bool \<Rightarrow> nat \<Rightarrow> read_step \<times> timerfd" where
  \<comment> \<open>one iteration of the loop; the flag tells whether user memory takes the count\<close>
  "read_once fd store_ok now =
     (let s = refresh (tf_state fd) now; fd = fd\<lparr>tf_state := s\<rparr> in
      if ts_expirations s \<noteq> 0 then
        if store_ok
        then (ReadReturns (Inr (to_le_bytes 8 (ts_expirations s))), fd\<lparr>tf_state := s\<lparr>ts_expirations := 0\<rparr>\<rparr>)
        else (ReadReturns (Inl EFault), fd)
      else if tf_nonblocking fd then (ReadReturns (Inl ETryAgain), fd)
      else (ReadSleeps (ts_deadline s), fd\<lparr>tf_changed := False\<rparr>))"

definition wait_timeout :: "(nat \<Rightarrow> nat) \<Rightarrow> nat option \<Rightarrow> nat \<Rightarrow> nat \<Rightarrow> nat" where
  \<comment> \<open>when a timed wait that begins now returns: the first argument tells when the timer interrupt
     runs for a deadline, the second how long after the beginning the event is signalled, if it is\<close>
  "wait_timeout fires signalled duration_ns now =
     (if duration_ns = 0 then now
      else let timeout = fires (saturating_add now duration_ns) in
        case signalled of None \<Rightarrow> timeout | Some d \<Rightarrow> min timeout (now + d))"

definition event_wait :: "nat option \<Rightarrow> nat \<Rightarrow> nat option" where
  \<comment> \<open>when a wait without a limit returns, if it does\<close>
  "event_wait signalled now = map_option (\<lambda>d. now + d) signalled"

record sleeps =
  sl_fires :: "nat \<Rightarrow> nat"              \<comment> \<open>when the timer interrupt runs for a deadline\<close>
  sl_signal :: "nat \<Rightarrow> nat option"      \<comment> \<open>how long after its beginning the sleep of this number is ended by a signal\<close>
  sl_lag :: "nat \<Rightarrow> nat \<times> nat"         \<comment> \<open>the time between the three readings of the clock in an iteration\<close>

definition sleep_until :: "sleeps \<Rightarrow> nat \<Rightarrow> nat \<Rightarrow> nat \<Rightarrow> nat option" where
  \<comment> \<open>the end of an iteration that found no expiration: when the loop runs again\<close>
  "sleep_until env k deadline now =
     (if deadline = 0 then event_wait (sl_signal env k) now
      else let now' = now + fst (sl_lag env k); remaining = deadline - now' in
        Some (wait_timeout (sl_fires env) (sl_signal env k) (max remaining 1) (now' + snd (sl_lag env k))))"

partial_function (option) read_loop ::
  "sleeps \<Rightarrow> nat \<Rightarrow> timerfd \<Rightarrow> bool \<Rightarrow> nat \<Rightarrow> ((errno + u8 list) \<times> timerfd \<times> nat) option" where
  \<comment> \<open>the number of sleeps so far; the result has the time at which the read returns\<close>
  "read_loop env k fd store_ok now =
     (case read_once fd store_ok now of
        (ReadReturns r, fd) \<Rightarrow> Some (r, fd, now)
      | (ReadSleeps deadline, fd) \<Rightarrow>
          Option.bind (sleep_until env k deadline now) (\<lambda>later. read_loop env (Suc k) fd store_ok later))"

declare read_loop.simps [code]

definition timerfd_read ::
  "sleeps \<Rightarrow> timerfd \<Rightarrow> nat \<Rightarrow> bool \<Rightarrow> nat \<Rightarrow> ((errno + u8 list) \<times> timerfd \<times> nat) option" where
  "timerfd_read env fd sink_len store_ok now =
     (if sink_len < 8 then Some (Inl EInvalid, fd, now) else read_loop env 0 fd store_ok now)"

definition timerfd_poll :: "timerfd \<Rightarrow> u16 \<Rightarrow> nat \<Rightarrow> u16 \<times> timerfd" where
  "timerfd_poll fd requested now =
     (if requested AND POLL_IN \<noteq> POLL_IN then (0, fd)
      else let s = refresh (tf_state fd) now in
        (if ts_expirations s \<noteq> 0 then POLL_IN else 0, fd\<lparr>tf_state := s\<rparr>))"

definition set_nonblocking :: "timerfd \<Rightarrow> bool \<Rightarrow> timerfd" where
  "set_nonblocking fd nonblocking = fd\<lparr>tf_nonblocking := nonblocking, tf_changed := True\<rparr>"

section \<open>Times in user memory\<close>

definition decode_timespec :: "u8 list \<Rightarrow> errno + nat" where
  \<comment> \<open>the sixteen bytes of a time\<close>
  "decode_timespec bytes =
     (let seconds = as_i64 (from_le_bytes (take 8 bytes));
          nanoseconds = as_i64 (from_le_bytes (take 8 (drop 8 bytes))) in
      if seconds < 0 \<or> \<not> (0 \<le> nanoseconds \<and> nanoseconds < int NANOSECONDS_PER_SECOND) then Inl EInvalid
      else let total_ns = nat seconds * NANOSECONDS_PER_SECOND in
        if total_ns < u64_limit \<and> total_ns + nat nanoseconds < u64_limit
        then Inr (total_ns + nat nanoseconds) else Inl EOverflow)"

definition encode_timespec :: "nat \<Rightarrow> u8 list" where
  "encode_timespec nanoseconds =
     to_le_bytes 8 (nanoseconds div NANOSECONDS_PER_SECOND) @
     to_le_bytes 8 (nanoseconds mod NANOSECONDS_PER_SECOND)"

definition read_user_itimerspec :: "user_reader \<Rightarrow> nat \<Rightarrow> errno + (nat \<times> nat)" where
  "read_user_itimerspec read_user address =
     (case read_user address 32 of
        Inl e \<Rightarrow> Inl (map_memory_error e)
      | Inr bytes \<Rightarrow>
          (case decode_timespec (take 16 bytes) of
             Inl e \<Rightarrow> Inl e
           | Inr interval \<Rightarrow>
               (case decode_timespec (take 16 (drop 16 bytes)) of
                  Inl e \<Rightarrow> Inl e | Inr v \<Rightarrow> Inr (interval, v))))"

definition itimerspec_bytes :: "nat \<Rightarrow> nat \<Rightarrow> u8 list" where
  \<comment> \<open>what is written to user memory\<close>
  "itimerspec_bytes interval_ns value_ns = encode_timespec interval_ns @ encode_timespec value_ns"

section \<open>System calls\<close>

datatype timer_lookup = NoDescriptor | OtherDescriptor | IsTimer timerfd

type_synonym user_writer = "nat \<Rightarrow> u8 list \<Rightarrow> mem_error + unit"

definition write_user_itimerspec :: "user_writer \<Rightarrow> nat \<Rightarrow> nat \<Rightarrow> nat \<Rightarrow> errno + unit" where
  "write_user_itimerspec write_user address interval_ns value_ns =
     (case write_user address (itimerspec_bytes interval_ns value_ns) of
        Inl e \<Rightarrow> Inl (map_memory_error e) | Inr _ \<Rightarrow> Inr ())"

definition syscall_timerfd_create ::
  "bool \<Rightarrow> (timerfd \<Rightarrow> bool \<Rightarrow> proc_error + nat) \<Rightarrow> int \<Rightarrow> u64 \<Rightarrow> errno + nat" where
  \<comment> \<open>whether there is a current process, how it installs a descriptor, and the two arguments\<close>
  "syscall_timerfd_create current install clock_id flags =
     (if clock_id \<notin> {CLOCK_REALTIME, CLOCK_MONOTONIC, CLOCK_BOOTTIME} \<or>
         flags AND NOT (TFD_NONBLOCK OR TFD_CLOEXEC) \<noteq> 0 then Inl EInvalid
      else if \<not> current then Inl EInvalid
      else case install (timerfd_new clock_id (flags AND TFD_NONBLOCK \<noteq> 0)) (flags AND TFD_CLOEXEC \<noteq> 0) of
        Inl e \<Rightarrow> Inl (map_process_error e) | Inr fd \<Rightarrow> Inr fd)"

definition syscall_timerfd_settime ::
  "bool \<Rightarrow> timer_lookup \<Rightarrow> user_reader \<Rightarrow> user_writer \<Rightarrow> u64 \<Rightarrow> nat \<Rightarrow> nat \<Rightarrow> nat \<Rightarrow> nat \<Rightarrow>
   (errno + nat) \<times> timer_lookup" where
  \<comment> \<open>the last two arguments are the two clock readings\<close>
  "syscall_timerfd_settime current descriptor read_user write_user flags new_value old_value now now' =
     (if new_value = 0 then (Inl EFault, descriptor)
      else if \<not> current then (Inl EInvalid, descriptor)
      else case descriptor of
        NoDescriptor \<Rightarrow> (Inl EBadFileDescriptor, descriptor)
      | OtherDescriptor \<Rightarrow> (Inl EInvalid, descriptor)
      | IsTimer timer \<Rightarrow>
          (case read_user_itimerspec read_user new_value of
             Inl e \<Rightarrow> (Inl e, descriptor)
           | Inr (interval_ns, value_ns) \<Rightarrow>
               (case set_time timer flags interval_ns value_ns now of
                  (Inl e, timer) \<Rightarrow> (Inl e, IsTimer timer)
                | (Inr previous, timer) \<Rightarrow>
                    (if old_value \<noteq> 0 then
                       (case write_user_itimerspec write_user old_value (ts_interval previous)
                               (remaining_ns previous now') of
                          Inl e \<Rightarrow> (Inl e, IsTimer timer) | Inr _ \<Rightarrow> (Inr 0, IsTimer timer))
                     else (Inr 0, IsTimer timer)))))"

definition syscall_timerfd_gettime ::
  "bool \<Rightarrow> timer_lookup \<Rightarrow> user_writer \<Rightarrow> nat \<Rightarrow> nat \<Rightarrow> nat \<Rightarrow> (errno + nat) \<times> timer_lookup" where
  "syscall_timerfd_gettime current descriptor write_user addr now now' =
     (if addr = 0 then (Inl EFault, descriptor)
      else if \<not> current then (Inl EInvalid, descriptor)
      else case descriptor of
        NoDescriptor \<Rightarrow> (Inl EBadFileDescriptor, descriptor)
      | OtherDescriptor \<Rightarrow> (Inl EInvalid, descriptor)
      | IsTimer timer \<Rightarrow>
          (case current_time timer now of (s, timer) \<Rightarrow>
             (case write_user_itimerspec write_user addr (ts_interval s) (remaining_ns s now') of
                Inl e \<Rightarrow> (Inl e, IsTimer timer) | Inr _ \<Rightarrow> (Inr 0, IsTimer timer))))"

section \<open>Counting\<close>

lemma saturating_assoc: "saturating_add (saturating_add a b) c = saturating_add a (b + c)"
  by (simp add: saturating_add_def U64_MAX_def min_def)

lemma refresh_periodic:
  assumes "ts_deadline s \<noteq> 0" "ts_deadline s \<le> now" "0 < ts_interval s" "now + ts_interval s < u64_limit"
  shows "refresh s now = s\<lparr>ts_deadline := ts_deadline s + ts_interval s * ((now - ts_deadline s) div ts_interval s + 1),
    ts_expirations := saturating_add (ts_expirations s) ((now - ts_deadline s) div ts_interval s + 1)\<rparr>"
proof -
  let ?k = "(now - ts_deadline s) div ts_interval s"
  have k: "ts_interval s * ?k \<le> now - ts_deadline s" by (rule times_div_less_eq_dividend)
  have "?k \<le> now - ts_deadline s" by (rule div_le_dividend)
  then have "?k + 1 \<le> U64_MAX" using assms unfolding U64_MAX_def by linarith
  then have "saturating_add ?k 1 = ?k + 1" unfolding saturating_add_def by (rule min_absorb1)
  moreover have "ts_deadline s + ts_interval s * (?k + 1) < u64_limit"
    using k assms unfolding distrib_left mult_1_right by linarith
  ultimately show ?thesis
    using assms by (simp add: refresh_def Let_def saturating_mul_def saturating_add_def U64_MAX_def)
qed

lemma refresh_future: "now < ts_deadline s \<Longrightarrow> refresh s now = s"
  by (simp add: refresh_def)

lemma refresh_after:
  assumes "ts_deadline s \<noteq> 0" "ts_deadline s \<le> now" "0 < ts_interval s" "now + ts_interval s < u64_limit"
  shows "now < ts_deadline (refresh s now)" "ts_deadline (refresh s now) \<le> now + ts_interval s"
proof -
  let ?i = "ts_interval s" and ?r = "now - ts_deadline s"
  have "?i * (?r div ?i) + ?r mod ?i = ?r" "?r mod ?i < ?i" using assms(3) by simp_all
  then have "?r < ?i * (?r div ?i + 1)" "?i * (?r div ?i + 1) \<le> ?r + ?i"
    unfolding distrib_left mult_1_right by linarith+
  then show "now < ts_deadline (refresh s now)" "ts_deadline (refresh s now) \<le> now + ?i"
    using assms(2) by (simp_all only: refresh_periodic [OF assms] timer_state.simps timer_state.select_convs) simp_all
qed

lemma div_steps:
  fixes r :: nat
  assumes "0 < i"
  shows "r < i * (q div i + 1) \<Longrightarrow> q \<le> r \<Longrightarrow> r div i = q div i"
    and "i * n \<le> r \<Longrightarrow> r div i = (r - i * n) div i + n"
proof -
  assume "r < i * (q div i + 1)" "q \<le> r"
  then have "r div i < q div i + 1" "q div i \<le> r div i"
    by (simp_all only: less_mult_imp_div_less mult.commute [of i] div_le_mono)
  then show "r div i = q div i" by linarith
next
  assume "i * n \<le> r"
  then have "((r - i * n) + n * i) div i = r div i" by (simp add: mult.commute)
  then show "r div i = (r - i * n) div i + n" using assms by simp
qed

lemma refresh_compose:
  assumes "t \<le> u" "u + ts_interval s < u64_limit"
  shows "refresh (refresh s t) u = refresh s u"
proof -
  consider "ts_deadline s = 0 \<or> t < ts_deadline s" | "ts_deadline s \<noteq> 0" "ts_deadline s \<le> t" "ts_interval s = 0"
    | "ts_deadline s \<noteq> 0" "ts_deadline s \<le> t" "0 < ts_interval s" by linarith
  then show ?thesis
  proof cases
    case 1
    then show ?thesis by (auto simp: refresh_def)
  next
    case 2
    with assms(1) show ?thesis by (simp add: refresh_def)
  next
    case 3
    define d i n where "d = ts_deadline s" and "i = ts_interval s" and "n = (t - d) div i + 1"
    have t: "t + i < u64_limit" and u: "d \<le> u" "d \<noteq> 0" "0 < i" using 3 assms by (auto simp: d_def i_def)
    have rt: "refresh s t = s\<lparr>ts_deadline := d + i * n, ts_expirations := saturating_add (ts_expirations s) n\<rparr>"
      using refresh_periodic [OF 3] t by (simp add: d_def i_def n_def)
    have ru: "refresh s u = s\<lparr>ts_deadline := d + i * ((u - d) div i + 1),
        ts_expirations := saturating_add (ts_expirations s) ((u - d) div i + 1)\<rparr>"
      using refresh_periodic [of s u] u assms(2) by (simp add: d_def i_def)
    show ?thesis
    proof (cases "u < d + i * n")
      case True
      then have "(u - d) div i = (t - d) div i"
        using u assms(1) unfolding n_def by (intro div_steps(1)) linarith+
      then have "refresh s u = refresh s t" using rt ru by (simp add: n_def)
      then show ?thesis using refresh_future [of u "refresh s t"] True rt by simp
    next
      case False
      then have eq: "(u - d) div i = (u - (d + i * n)) div i + n"
        using u div_steps(2) [of i n "u - d"] by (simp add: diff_diff_left)
      have "refresh (refresh s t) u = refresh s t \<lparr>
          ts_deadline := (d + i * n) + i * ((u - (d + i * n)) div i + 1),
          ts_expirations := saturating_add (saturating_add (ts_expirations s) n) ((u - (d + i * n)) div i + 1)\<rparr>"
        using refresh_periodic [of "refresh s t" u] rt u False assms(2) by (simp add: i_def)
      also have "\<dots> = refresh s u"
        unfolding saturating_assoc rt ru eq
        by (simp add: distrib_left add.assoc add.commute add.left_commute)
      finally show ?thesis .
    qed
  qed
qed

lemma periods_until:
  fixes d :: nat
  assumes "0 < i" "d \<le> now"
  shows "{k. d + k * i \<le> now} = {..(now - d) div i}"
  using assms by (auto simp: less_eq_div_iff_mult_less_eq)

text \<open>
  C21. Whatever the clock reads, the bookkeeping of a periodic timer counts exactly the
  expirations that lie between the deadline and now, moves the deadline to the first expiration
  after now, and gives the same state when it also ran at any earlier time.
\<close>

theorem timer_counting_correct:
  assumes "0 < ts_deadline s" "0 < ts_interval s" "now + ts_interval s < u64_limit"
    "n = card {k. ts_deadline s + k * ts_interval s \<le> now}" "ts_expirations s + n < u64_limit"
  shows "ts_expirations (refresh s now) = ts_expirations s + n \<and>
    ts_deadline (refresh s now) = ts_deadline s + n * ts_interval s \<and>
    now < ts_deadline (refresh s now) \<and>
    (\<forall>t. t \<le> now \<longrightarrow> refresh (refresh s t) now = refresh s now)"
proof (cases "ts_deadline s \<le> now")
  case True
  have n: "n = (now - ts_deadline s) div ts_interval s + 1"
    using assms(4) periods_until [OF assms(2) True] by simp
  have "ts_expirations s + n \<le> U64_MAX" using assms(5) by (simp add: U64_MAX_def)
  then have "saturating_add (ts_expirations s) n = ts_expirations s + n"
    unfolding saturating_add_def by (rule min_absorb1)
  then show ?thesis
    using refresh_periodic [OF _ True assms(2,3)] refresh_after(1) [OF _ True assms(2,3)]
      refresh_compose [OF _ assms(3)] assms(1) n by (simp add: mult.commute)
next
  case False
  then have "{k. ts_deadline s + k * ts_interval s \<le> now} = {}" by auto
  then have "n = 0" using assms(4) by simp
  then show ?thesis
    using False refresh_future [of now s] refresh_compose [OF _ assms(3)] by simp
qed

lemma three_periods: "card {k. 100 + k * 30 \<le> (170::nat)} = 3"
  using periods_until [of 30 100 170] by (simp only: zero_less_numeral order.refl) simp

theorem timer_counting_witness:
  "ts_expirations (refresh \<lparr>ts_deadline = 100, ts_interval = 30, ts_expirations = 2\<rparr> 170) = 5"
  using timer_counting_correct [of "\<lparr>ts_deadline = 100, ts_interval = 30, ts_expirations = 2\<rparr>" 170 3]
    three_periods by simp

section \<open>Reading\<close>

lemma read_once_sleeps:
  assumes "ts_expirations (tf_state fd) = 0" "\<not> tf_nonblocking fd" "now < ts_deadline (tf_state fd)"
  shows "read_once fd ok now = (ReadSleeps (ts_deadline (tf_state fd)), fd\<lparr>tf_changed := False\<rparr>)"
  using assms by (simp add: read_once_def Let_def refresh_future)

lemma refresh_expired:
  assumes "ts_deadline s \<noteq> 0" "ts_deadline s \<le> now"
  shows "0 < ts_expirations (refresh s now)"
  using assms by (simp add: refresh_def Let_def saturating_add_def U64_MAX_def)

lemma saturating_add_bound: "saturating_add a b < u64_limit"
  by (simp add: saturating_add_def U64_MAX_def min_less_iff_disj)

lemma refresh_bound: "ts_expirations s < u64_limit \<Longrightarrow> ts_expirations (refresh s now) < u64_limit"
  by (simp add: refresh_def Let_def saturating_add_bound)

lemma read_once_due:
  assumes "ts_deadline (tf_state fd) \<noteq> 0" "ts_deadline (tf_state fd) \<le> now"
  shows "read_once fd ok now = (let s = refresh (tf_state fd) now in
    if ok then (ReadReturns (Inr (to_le_bytes 8 (ts_expirations s))), fd\<lparr>tf_state := s\<lparr>ts_expirations := 0\<rparr>\<rparr>)
    else (ReadReturns (Inl EFault), fd\<lparr>tf_state := s\<rparr>))"
  using refresh_expired [OF assms] by (simp add: read_once_def Let_def)

definition prompt_sleeps :: "sleeps \<Rightarrow> nat \<Rightarrow> bool" where
  \<comment> \<open>the timer interrupt does not run before a deadline, and only some sleeps end with a signal\<close>
  "prompt_sleeps env signals \<longleftrightarrow> (\<forall>deadline. deadline \<le> sl_fires env deadline) \<and>
     (\<forall>k. signals \<le> k \<longrightarrow> sl_signal env k = None)"

lemma wait_reaches:
  assumes "\<forall>d. d \<le> fires d" "deadline < u64_limit"
  shows "deadline \<le> wait_timeout fires None (max (deadline - now) 1) (now + lag)"
proof -
  have "deadline \<le> saturating_add (now + lag) (max (deadline - now) 1)"
    using assms(2) by (auto simp: saturating_add_def U64_MAX_def min_def)
  then show ?thesis using assms(1) by (auto simp: wait_timeout_def Let_def intro: order_trans)
qed

definition delivers :: "timerfd \<Rightarrow> bool \<Rightarrow> (errno + u8 list) \<times> timerfd \<times> nat \<Rightarrow> bool" where
  \<comment> \<open>the result of a read at a time: the count is handed out and cleared, or kept on a fault\<close>
  "delivers fd store_ok res \<longleftrightarrow> (case res of (r, fd', t) \<Rightarrow>
     ts_deadline (tf_state fd) \<le> t \<and> 0 < ts_expirations (refresh (tf_state fd) t) \<and>
     (if store_ok then (\<exists>bytes. r = Inr bytes \<and> length bytes = 8 \<and>
          from_le_bytes bytes = ts_expirations (refresh (tf_state fd) t)) \<and>
        tf_state fd' = refresh (tf_state fd) t \<lparr>ts_expirations := 0\<rparr>
      else r = Inl EFault \<and> tf_state fd' = refresh (tf_state fd) t))"

lemma read_loop_delivers:
  assumes "prompt_sleeps env signals" "ts_deadline (tf_state fd) \<noteq> 0" "ts_deadline (tf_state fd) < u64_limit"
    "ts_expirations (tf_state fd) = 0" "\<not> tf_nonblocking fd"
  shows "\<exists>res. read_loop env k fd store_ok now = Some res \<and> delivers fd store_ok res"
  using assms
proof (induction "Suc signals - k" arbitrary: k fd now rule: less_induct)
  case less
  let ?d = "ts_deadline (tf_state fd)"
  have due: "\<exists>res. read_loop env j fd' store_ok t = Some res \<and> delivers fd store_ok res"
    if "?d \<le> t" "tf_state fd' = tf_state fd" for j t fd'
  proof -
    have n: "0 < ts_expirations (refresh (tf_state fd) t)" "ts_expirations (refresh (tf_state fd) t) < u64_limit"
      using refresh_expired [OF less.prems(2) that(1)] refresh_bound less.prems(4) by simp_all
    then show ?thesis
      using that less.prems(2) read_once_due [of fd' t store_ok] from_to_le_bytes
      by (subst read_loop.simps) (auto simp: delivers_def Let_def)
  qed
  show ?case
  proof (cases "?d \<le> now")
    case True
    then show ?thesis using due by blast
  next
    case False
    let ?fd = "fd\<lparr>tf_changed := False\<rparr>"
    obtain later where later: "sleep_until env k ?d now = Some later"
      using less.prems(2) by (simp add: sleep_until_def Let_def)
    have step: "read_loop env k fd store_ok now = read_loop env (Suc k) ?fd store_ok later"
      using read_once_sleeps [of fd now store_ok] less.prems False later by (subst read_loop.simps) simp
    show ?thesis
    proof (cases "signals \<le> k")
      case True
      then have "?d \<le> later"
        using later less.prems(1-3) wait_reaches [of "sl_fires env" ?d "now + fst (sl_lag env k)"]
        by (auto simp: prompt_sleeps_def sleep_until_def Let_def)
      then show ?thesis using due [of later ?fd] step by simp
    next
      case False
      then have "\<exists>res. read_loop env (Suc k) ?fd store_ok later = Some res \<and> delivers ?fd store_ok res"
        using less.prems by (intro less.hyps) auto
      moreover have "delivers ?fd store_ok = delivers fd store_ok" by (simp add: delivers_def fun_eq_iff)
      ultimately show ?thesis using step by simp
    qed
  qed
qed

text \<open>
  C22. A blocking read of an armed timer returns, and not before the deadline, while nobody sets
  the timer again: each of its sleeps ends at the latest when the deadline has passed, because
  the loop asks for the time that remains, whatever time passes between its readings of the
  clock and however often it is woken early by a signal. The eight bytes then hold the count of
  the expirations up to that time, which is not zero, and the count is cleared. When user memory
  refuses the bytes, the read fails and the count is kept. The timer interrupt of a sleep runs
  at its deadline or later, and the event is signalled a finite number of times.
\<close>

theorem timerfd_read_delivers:
  assumes "prompt_sleeps env signals" "ts_deadline (tf_state fd) \<noteq> 0" "ts_deadline (tf_state fd) < u64_limit"
    "ts_expirations (tf_state fd) = 0" "\<not> tf_nonblocking fd" "8 \<le> len"
  shows "\<exists>r fd' t. timerfd_read env fd len store_ok now = Some (r, fd', t) \<and>
    ts_deadline (tf_state fd) \<le> t \<and> 0 < ts_expirations (refresh (tf_state fd) t) \<and>
    (if store_ok then (\<exists>bytes. r = Inr bytes \<and> length bytes = 8 \<and>
         from_le_bytes bytes = ts_expirations (refresh (tf_state fd) t)) \<and>
       tf_state fd' = refresh (tf_state fd) t \<lparr>ts_expirations := 0\<rparr>
     else r = Inl EFault \<and> tf_state fd' = refresh (tf_state fd) t)"
proof -
  obtain r fd' t where "read_loop env 0 fd store_ok now = Some (r, fd', t)" "delivers fd store_ok (r, fd', t)"
    using read_loop_delivers [OF assms(1-5), of 0 store_ok now] by auto
  then show ?thesis using assms(6) by (simp add: timerfd_read_def delivers_def)
qed

definition demo_sleeps :: sleeps where
  \<comment> \<open>interrupts come five nanoseconds late, and the first sleep is cut short by a signal\<close>
  "demo_sleeps = \<lparr>sl_fires = (\<lambda>d. d + 5), sl_signal = (\<lambda>k. if k = 0 then Some 3 else None), sl_lag = (\<lambda>k. (1, 1))\<rparr>"

theorem timerfd_read_witness:
  "\<exists>r fd' t. timerfd_read demo_sleeps (snd (set_time (timerfd_new 1 False) 0 30 100 5)) 8 True 50 =
     Some (r, fd', t) \<and> 105 \<le> t"
proof -
  let ?fd = "snd (set_time (timerfd_new 1 False) 0 30 100 5)"
  have fd: "ts_deadline (tf_state ?fd) = 105" "ts_expirations (tf_state ?fd) = 0" "\<not> tf_nonblocking ?fd"
    by (simp_all add: set_time_def timerfd_new_def saturating_add_def U64_MAX_def Let_def)
  have "prompt_sleeps demo_sleeps 1" by (simp add: prompt_sleeps_def demo_sleeps_def)
  from timerfd_read_delivers [OF this, of ?fd 8 True 50] fd show ?thesis by auto
qed

section \<open>Round trip of times\<close>

lemma as_i64_small: "n < 9223372036854775808 \<Longrightarrow> as_i64 n = int n"
  by (simp add: as_i64_def)

text \<open>
  A time written to user memory and read back is the same time, for every pair of an
  interval and a value that fits 64 bits.
\<close>

theorem itimerspec_roundtrip:
  assumes "interval < u64_limit" "v < u64_limit" "read_user addr 32 = Inr (itimerspec_bytes interval v)"
  shows "read_user_itimerspec read_user addr = Inr (interval, v)"
proof -
  have one: "decode_timespec (encode_timespec n) = Inr n" if "n < u64_limit" for n
  proof -
    have "n div NANOSECONDS_PER_SECOND < 9223372036854775808"
      using that by (simp add: NANOSECONDS_PER_SECOND_def)
    moreover have "n mod NANOSECONDS_PER_SECOND < NANOSECONDS_PER_SECOND"
      by (simp add: NANOSECONDS_PER_SECOND_def)
    moreover have "n div NANOSECONDS_PER_SECOND * NANOSECONDS_PER_SECOND + n mod NANOSECONDS_PER_SECOND = n"
      by simp
    ultimately show ?thesis using that
      by (simp add: decode_timespec_def encode_timespec_def Let_def from_to_le_bytes as_i64_small
          NANOSECONDS_PER_SECOND_def)
  qed
  have "length (encode_timespec n) = 16" for n by (simp add: encode_timespec_def)
  then show ?thesis
    using assms by (simp add: read_user_itimerspec_def itimerspec_bytes_def one)
qed

theorem itimerspec_witness:
  "read_user_itimerspec (\<lambda>a n. Inr (itimerspec_bytes 7 3000000005)) 64 = Inr (7, 3000000005)"
  using itimerspec_roundtrip [of 7 3000000005 "\<lambda>a n. Inr (itimerspec_bytes 7 3000000005)" 64] by simp

end
