(* ===== verification/Io.thy ===== *)
theory Io
  imports Addr Index Bytes
begin

text \<open>
  Model of \<open>kernel/src/mem/io.rs\<close>: transfers between kernel buffers and user memory through
  windows that end at page boundaries. Physical memory is a function from addresses to bytes.
  The resolution of a user page to the frame that holds it (\<open>VmSpace::pin_user_page\<close>) is an
  argument: it returns the frame of a page for an access, or an error. The lemmas show that the
  loops over the windows copy exactly the bytes of the range, and what a failing transfer
  leaves behind.
\<close>

section \<open>Windows\<close>

datatype fault_access = AccessRead | AccessWrite | AccessExecute

type_synonym pin = "nat \<Rightarrow> fault_access \<Rightarrow> mem_error + nat"
type_synonym phys_memory = "nat \<Rightarrow> u8"

datatype io_buffer = KernelBuffer "u8 list" | UserBuffer nat nat
datatype window = KernelWindow nat nat | UserWindow nat nat

type_synonym io_state = "io_buffer \<times> phys_memory"

datatype target_arch = X86_64 | Riscv64

definition USER_ADDRESS_MIN :: nat where "USER_ADDRESS_MIN = 0x10000"

fun USER_ADDRESS_MAX :: "target_arch \<Rightarrow> nat" where
  "USER_ADDRESS_MAX X86_64 = 0x800000000000"
| "USER_ADDRESS_MAX Riscv64 = 0x4000000000"

definition validate_user_range :: "target_arch \<Rightarrow> nat \<Rightarrow> nat \<Rightarrow> mem_error + unit" where
  "validate_user_range arch address len =
     (if len = 0 then Inr ()
      else case checked_add address len of
        None \<Rightarrow> Inl InvalidAddress
      | Some stop \<Rightarrow>
          if address < USER_ADDRESS_MIN \<or> stop > USER_ADDRESS_MAX arch \<or> address \<ge> stop
          then Inl InvalidAddress else Inr ())"

definition io_user :: "target_arch \<Rightarrow> nat \<Rightarrow> nat \<Rightarrow> mem_error + io_buffer" where
  "io_user arch address len =
     (case validate_user_range arch address len of Inl e \<Rightarrow> Inl e | Inr _ \<Rightarrow> Inr (UserBuffer address len))"

fun buffer_len :: "io_buffer \<Rightarrow> nat" where
  "buffer_len (KernelBuffer bytes) = length bytes"
| "buffer_len (UserBuffer address len) = len"

fun window_len :: "window \<Rightarrow> nat" where
  "window_len (KernelWindow start len) = len"
| "window_len (UserWindow pointer len) = len"

definition resolve :: "pin \<Rightarrow> nat \<Rightarrow> nat \<Rightarrow> nat \<Rightarrow> fault_access \<Rightarrow> mem_error + window" where
  "resolve pin address offset maximum access =
     (case checked_add address offset of
        None \<Rightarrow> Inl InvalidAddress
      | Some current \<Rightarrow>
          let remaining = unat PAGE_SIZE - current mod unat PAGE_SIZE in
          (case pin (current - current mod unat PAGE_SIZE) access of
             Inl e \<Rightarrow> Inl e
           | Inr frame \<Rightarrow> Inr (UserWindow (frame + current mod unat PAGE_SIZE) (min maximum remaining))))"

definition checked_subrange :: "nat \<Rightarrow> nat \<Rightarrow> nat \<Rightarrow> mem_error + (nat \<times> nat)" where
  "checked_subrange size_total offset len =
     (case checked_add offset len of
        None \<Rightarrow> Inl InvalidAddress
      | Some stop \<Rightarrow> if stop \<le> size_total then Inr (offset, stop) else Inl InvalidAddress)"

definition window_length :: "nat \<Rightarrow> nat \<Rightarrow> nat \<Rightarrow> mem_error + nat" where
  "window_length size_total offset maximum =
     (if offset \<le> size_total then Inr (min maximum (size_total - offset)) else Inl InvalidAddress)"

definition io_window :: "pin \<Rightarrow> fault_access \<Rightarrow> io_buffer \<Rightarrow> nat \<Rightarrow> nat \<Rightarrow> mem_error + window" where
  \<comment> \<open>the window of a sink (access for writing) or of a source (access for reading)\<close>
  "io_window pin access buf offset maximum =
     (case window_length (buffer_len buf) offset maximum of
        Inl e \<Rightarrow> Inl e
      | Inr maximum \<Rightarrow>
          if maximum = 0 then Inr (KernelWindow 0 0)
          else (case buf of
            KernelBuffer _ \<Rightarrow> Inr (KernelWindow offset maximum)
          | UserBuffer address _ \<Rightarrow> resolve pin address offset maximum access))"

definition io_slice :: "io_buffer \<Rightarrow> nat \<Rightarrow> nat \<Rightarrow> mem_error + io_buffer" where
  "io_slice buf offset len =
     (case buf of
        KernelBuffer bytes \<Rightarrow>
          (case checked_subrange (length bytes) offset len of
             Inl e \<Rightarrow> Inl e | Inr (a, b) \<Rightarrow> Inr (KernelBuffer (take (b - a) (drop a bytes))))
      | UserBuffer address size_total \<Rightarrow>
          (case checked_subrange size_total offset len of
             Inl e \<Rightarrow> Inl e
           | Inr _ \<Rightarrow>
               (case checked_add address offset of
                  None \<Rightarrow> Inl InvalidAddress | Some address \<Rightarrow> Inr (UserBuffer address len))))"

section \<open>Copies through a window\<close>

definition splice :: "'a list \<Rightarrow> nat \<Rightarrow> 'a list \<Rightarrow> 'a list" where
  "splice xs start ys = take start xs @ ys @ drop (start + length ys) xs"

definition write_phys :: "phys_memory \<Rightarrow> nat \<Rightarrow> u8 list \<Rightarrow> phys_memory" where
  "write_phys mem p bytes = (\<lambda>a. if p \<le> a \<and> a < p + length bytes then bytes ! (a - p) else mem a)"

fun put_window :: "window \<Rightarrow> u8 list \<Rightarrow> io_state \<Rightarrow> io_state" where
  "put_window (KernelWindow start len) bytes (KernelBuffer xs, mem) = (KernelBuffer (splice xs start bytes), mem)"
| "put_window (KernelWindow start len) bytes (UserBuffer address size_total, mem) = (UserBuffer address size_total, mem)"
| "put_window (UserWindow pointer len) bytes (buf, mem) = (buf, write_phys mem pointer bytes)"

definition copy_from_slice :: "window \<Rightarrow> u8 list \<Rightarrow> io_state \<Rightarrow> io_state panics" where
  "copy_from_slice w source st = do { assert_that (length source \<le> window_len w); Some (put_window w source st) }"

definition window_fill :: "window \<Rightarrow> u8 \<Rightarrow> io_state \<Rightarrow> io_state" where
  "window_fill w v st = put_window w (replicate (window_len w) v) st"

fun get_window :: "window \<Rightarrow> nat \<Rightarrow> io_state \<Rightarrow> u8 list" where
  "get_window (KernelWindow start len) n (KernelBuffer xs, mem) = take n (drop start xs)"
| "get_window (KernelWindow start len) n (UserBuffer address size_total, mem) = []"
| "get_window (UserWindow pointer len) n (buf, mem) = map (\<lambda>k. mem (pointer + k)) [0..<n]"

definition copy_to_slice :: "window \<Rightarrow> nat \<Rightarrow> io_state \<Rightarrow> u8 list panics" where
  "copy_to_slice w n st = do { assert_that (n \<le> window_len w); Some (get_window w n st) }"

section \<open>Transfers\<close>

function store_loop :: "pin \<Rightarrow> nat \<Rightarrow> u8 list \<Rightarrow> nat \<Rightarrow> io_state \<Rightarrow> ((mem_error + unit) \<times> io_state) panics" where
  "store_loop pin offset source written st =
     (if written < length source then
        (case io_window pin AccessWrite (fst st) (offset + written) (length source - written) of
           Inl e \<Rightarrow> Some (Inl e, st)
         | Inr w \<Rightarrow>
             if window_len w = 0 then Some (Inl InvalidAddress, st)
             else do {
               piece \<leftarrow> slice source written (written + window_len w);
               st \<leftarrow> copy_from_slice w piece st;
               store_loop pin offset source (written + window_len w) st
             })
      else Some (Inr (), st))"
  by pat_completeness auto
termination
  by (relation "measure (\<lambda>(p, off, source, written, st). length source - written)") auto

declare store_loop.simps [simp del]

definition io_store :: "pin \<Rightarrow> nat \<Rightarrow> u8 list \<Rightarrow> io_state \<Rightarrow> ((mem_error + unit) \<times> io_state) panics" where
  "io_store pin offset source st =
     (case checked_subrange (buffer_len (fst st)) offset (length source) of
        Inl e \<Rightarrow> Some (Inl e, st)
      | Inr _ \<Rightarrow> store_loop pin offset source 0 st)"

function fill_loop :: "pin \<Rightarrow> nat \<Rightarrow> nat \<Rightarrow> nat \<Rightarrow> io_state \<Rightarrow> (mem_error + unit) \<times> io_state" where
  "fill_loop pin offset len filled st =
     (if filled < len then
        (case io_window pin AccessWrite (fst st) (offset + filled) (len - filled) of
           Inl e \<Rightarrow> (Inl e, st)
         | Inr w \<Rightarrow>
             if window_len w = 0 then (Inl InvalidAddress, st)
             else fill_loop pin offset len (filled + window_len w) (window_fill w 0 st))
      else (Inr (), st))"
  by pat_completeness auto
termination
  by (relation "measure (\<lambda>(p, off, len, filled, st). len - filled)") auto

declare fill_loop.simps [simp del]

definition fill_zero :: "pin \<Rightarrow> nat \<Rightarrow> nat \<Rightarrow> io_state \<Rightarrow> (mem_error + unit) \<times> io_state" where
  "fill_zero pin offset len st =
     (case checked_subrange (buffer_len (fst st)) offset len of
        Inl e \<Rightarrow> (Inl e, st)
      | Inr _ \<Rightarrow> fill_loop pin offset len 0 st)"

function load_loop :: "pin \<Rightarrow> nat \<Rightarrow> nat \<Rightarrow> u8 list \<Rightarrow> io_state \<Rightarrow> (mem_error + u8 list) panics" where
  \<comment> \<open>the bytes so far are the part of the destination that has been read\<close>
  "load_loop pin offset len destination st =
     (if length destination < len then
        (case io_window pin AccessRead (fst st) (offset + length destination) (len - length destination) of
           Inl e \<Rightarrow> Some (Inl e)
         | Inr w \<Rightarrow>
             if window_len w = 0 then Some (Inl InvalidAddress)
             else do {
               piece \<leftarrow> copy_to_slice w (window_len w) st;
               if length piece = window_len w then load_loop pin offset len (destination @ piece) st else None
             })
      else Some (Inr destination))"
  by pat_completeness auto
termination
  by (relation "measure (\<lambda>(p, off, len, destination, st). len - length destination)") auto

declare load_loop.simps [simp del]

definition io_load :: "pin \<Rightarrow> nat \<Rightarrow> nat \<Rightarrow> io_state \<Rightarrow> (mem_error + u8 list) panics" where
  "io_load pin offset len st =
     (case checked_subrange (buffer_len (fst st)) offset len of
        Inl e \<Rightarrow> Some (Inl e)
      | Inr _ \<Rightarrow> load_loop pin offset len [] st)"

section \<open>The bytes of a buffer\<close>

definition place :: "pin \<Rightarrow> fault_access \<Rightarrow> nat \<Rightarrow> mem_error + nat" where
  \<comment> \<open>the physical address of a byte of user memory\<close>
  "place pin access a = (case pin (a - a mod 4096) access of Inl e \<Rightarrow> Inl e | Inr frame \<Rightarrow> Inr (frame + a mod 4096))"

fun io_byte :: "pin \<Rightarrow> fault_access \<Rightarrow> io_state \<Rightarrow> nat \<Rightarrow> mem_error + u8" where
  "io_byte pin access (KernelBuffer xs, mem) k = Inr (xs ! k)"
| "io_byte pin access (UserBuffer a n, mem) k =
     (case place pin access (a + k) of Inl e \<Rightarrow> Inl e | Inr p \<Rightarrow> Inr (mem p))"

fun buffer_ok :: "io_buffer \<Rightarrow> bool" where
  "buffer_ok (KernelBuffer xs) = (length xs < u64_limit)"
| "buffer_ok (UserBuffer a n) = (a + n < u64_limit)"

definition page_base :: "nat \<Rightarrow> nat" where
  "page_base a = a - a mod 4096"

fun frames_ok :: "pin \<Rightarrow> io_buffer \<Rightarrow> bool" where
  \<comment> \<open>the pages of the buffer that can be written are held by different frames\<close>
  "frames_ok pin (KernelBuffer xs) = True"
| "frames_ok pin (UserBuffer a n) =
     (\<forall>j k f g. j < n \<longrightarrow> k < n \<longrightarrow> page_base (a + j) \<noteq> page_base (a + k) \<longrightarrow>
        pin (page_base (a + j)) AccessWrite = Inr f \<longrightarrow> pin (page_base (a + k)) AccessWrite = Inr g \<longrightarrow>
        f + 4096 \<le> g \<or> g + 4096 \<le> f)"

fun places :: "pin \<Rightarrow> io_buffer \<Rightarrow> nat \<Rightarrow> nat \<Rightarrow> nat set" where
  \<comment> \<open>the physical bytes that hold a range of the buffer\<close>
  "places pin (KernelBuffer xs) offset n = {}"
| "places pin (UserBuffer a len) offset n =
     {q. \<exists>k. offset \<le> k \<and> k < offset + n \<and> place pin AccessWrite (a + k) = Inr q}"

lemma page_step:
  assumes "i < 4096 - a mod (4096::nat)"
  shows "(a + i) mod 4096 = a mod 4096 + i" "(a + i) - (a + i) mod 4096 = a - a mod 4096"
proof -
  have "(a + i) mod 4096 = (a mod 4096 + i) mod 4096" by (simp add: mod_add_left_eq)
  also have "\<dots> = a mod 4096 + i" using assms by simp
  finally show m: "(a + i) mod 4096 = a mod 4096 + i" .
  show "(a + i) - (a + i) mod 4096 = a - a mod 4096" unfolding m by simp
qed

lemma place_step:
  assumes "i < 4096 - a mod 4096"
  shows "place pin access (a + i) = (case place pin access a of Inl e \<Rightarrow> Inl e | Inr p \<Rightarrow> Inr (p + i))"
  unfolding place_def page_step [OF assms] by (simp add: add.assoc split: sum.split)

lemma place_inj:
  assumes "frames_ok pin (UserBuffer a n)" "j < n" "k < n"
    "place pin AccessWrite (a + j) = Inr p" "place pin AccessWrite (a + k) = Inr p"
  shows "j = k"
proof -
  obtain f g where f: "pin (page_base (a + j)) AccessWrite = Inr f" "p = f + (a + j) mod 4096"
    and g: "pin (page_base (a + k)) AccessWrite = Inr g" "p = g + (a + k) mod 4096"
    using assms(4,5) by (auto simp: place_def page_base_def split: sum.splits)
  have "(a + j) mod 4096 < 4096" "(a + k) mod 4096 < 4096" by simp_all
  then have "\<not> (f + 4096 \<le> g \<or> g + 4096 \<le> f)" using f(2) g(2) by linarith
  then have base: "page_base (a + j) = page_base (a + k)" using assms(1-3) f(1) g(1) unfolding frames_ok.simps by blast
  then have "(a + j) mod 4096 = (a + k) mod 4096" using f g by simp
  with base have "a + j = a + k" unfolding page_base_def by (metis le_add_diff_inverse2 mod_less_eq_dividend)
  then show ?thesis by simp
qed

lemma io_window_cases:
  assumes "buffer_ok buf" "0 < maximum" "offset + maximum \<le> buffer_len buf"
  obtains (kernel) xs where "buf = KernelBuffer xs" "io_window pin access buf offset maximum = Inr (KernelWindow offset maximum)"
  | (refused) a n e where "buf = UserBuffer a n" "place pin access (a + offset) = Inl e"
      "io_window pin access buf offset maximum = Inl e"
  | (user) a n p where "buf = UserBuffer a n" "place pin access (a + offset) = Inr p"
      "io_window pin access buf offset maximum = Inr (UserWindow p (min maximum (4096 - (a + offset) mod 4096)))"
proof (cases buf)
  case (KernelBuffer xs)
  with assms show ?thesis by (intro kernel) (auto simp: io_window_def window_length_def)
next
  case (UserBuffer a n)
  then have w: "io_window pin access buf offset maximum = resolve pin a offset maximum access"
    using assms by (simp add: io_window_def window_length_def)
  have r: "resolve pin a offset maximum access =
      (case place pin access (a + offset) of Inl e \<Rightarrow> Inl e
       | Inr p \<Rightarrow> Inr (UserWindow p (min maximum (4096 - (a + offset) mod 4096))))"
  proof -
    have "a + offset < u64_limit" using assms UserBuffer by simp
    then show ?thesis by (simp add: checked_add_def resolve_def place_def Let_def split: sum.split)
  qed
  show ?thesis
    using UserBuffer w r by (cases "place pin access (a + offset)") (auto intro: refused user)
qed

section \<open>Loading\<close>

lemma window_user_place:
  assumes "place pin access (a + offset) = Inr p" "k < 4096 - (a + offset) mod 4096"
  shows "place pin access (a + (offset + k)) = Inr (p + k)"
  using place_step [OF assms(2), of pin access] assms(1) by (simp add: add.assoc)

lemma window_load:
  assumes "buffer_ok buf" "0 < maximum" "offset + maximum \<le> buffer_len buf"
    "io_window pin access buf offset maximum = Inr w"
  shows "0 < window_len w \<and> window_len w \<le> maximum \<and>
      length (get_window w (window_len w) (buf, mem)) = window_len w \<and>
      (\<forall>k < window_len w. io_byte pin access (buf, mem) (offset + k) = Inr (get_window w (window_len w) (buf, mem) ! k))"
  using assms(1-3)
  by (cases rule: io_window_cases [where pin = pin and access = access])
    (use assms(2-4) in \<open>auto simp: window_user_place\<close>)

lemma window_refused:
  assumes "buffer_ok buf" "0 < maximum" "offset + maximum \<le> buffer_len buf"
    "io_window pin access buf offset maximum = Inl e"
  shows "io_byte pin access (buf, mem) offset = Inl e"
  using assms(1-3)
  by (cases rule: io_window_cases [where pin = pin and access = access]) (use assms(4) in simp_all)

definition readable :: "pin \<Rightarrow> fault_access \<Rightarrow> io_state \<Rightarrow> nat \<Rightarrow> nat \<Rightarrow> bool" where
  "readable pin access st offset n \<longleftrightarrow> (\<forall>k < n. \<exists>b. io_byte pin access st (offset + k) = Inr b)"

definition io_bytes :: "pin \<Rightarrow> fault_access \<Rightarrow> io_state \<Rightarrow> nat \<Rightarrow> nat \<Rightarrow> u8 list" where
  "io_bytes pin access st offset n = map (\<lambda>k. projr (io_byte pin access st (offset + k))) [0..<n]"

lemma io_bytes_append:
  "io_bytes pin access st offset (m + n) = io_bytes pin access st offset m @ io_bytes pin access st (offset + m) n"
  by (auto simp: io_bytes_def add.assoc nth_append intro!: nth_equalityI)

lemma load_loop_correct:
  assumes "buffer_ok buf" "offset + n \<le> buffer_len buf" "j \<le> n"
    "destination = io_bytes pin AccessRead (buf, mem) offset j" "readable pin AccessRead (buf, mem) offset j"
  shows "if readable pin AccessRead (buf, mem) offset n
    then load_loop pin offset n destination (buf, mem) = Some (Inr (io_bytes pin AccessRead (buf, mem) offset n))
    else \<exists>e. load_loop pin offset n destination (buf, mem) = Some (Inl e)"
  using assms(3-)
proof (induction "n - j" arbitrary: j destination rule: less_induct)
  case less
  let ?st = "(buf, mem)"
  have len: "length destination = j" using less.prems by (simp add: io_bytes_def)
  show ?case
  proof (cases "j < n")
    case False
    then have "j = n" using less.prems by simp
    then show ?thesis using less.prems len by (subst (1 2) load_loop.simps) simp
  next
    case True
    let ?W = "io_window pin AccessRead buf (offset + j) (n - j)"
    have pre: "0 < n - j" "offset + j + (n - j) \<le> buffer_len buf" using True assms(2) by simp_all
    show ?thesis
    proof (cases ?W)
      case (Inl e)
      then have "io_byte pin AccessRead ?st (offset + j) = Inl e" using window_refused [OF assms(1) pre] by blast
      then have "\<not> readable pin AccessRead ?st offset n" using True by (auto simp: readable_def)
      then show ?thesis using True len Inl by (subst (1 2) load_loop.simps) simp
    next
      case (Inr w)
      let ?piece = "get_window w (window_len w) ?st"
      have W: "0 < window_len w" "window_len w \<le> n - j" "length ?piece = window_len w"
        "\<And>k. k < window_len w \<Longrightarrow> io_byte pin AccessRead ?st (offset + j + k) = Inr (?piece ! k)"
        using window_load [OF assms(1) pre Inr, of mem] by auto
      have bytes: "io_byte pin AccessRead ?st (offset + (j + k)) = Inr (?piece ! k)" if "k < window_len w" for k
        using W(4) [OF that] by (simp add: add.assoc)
      have "io_bytes pin AccessRead ?st offset (j + window_len w) = destination @ ?piece"
        unfolding io_bytes_def less.prems(2) upt_add_eq_append [OF le0] map_append
        using bytes W(3) by (auto intro!: nth_equalityI)
      moreover have "readable pin AccessRead ?st offset (j + window_len w)"
        unfolding readable_def
      proof (intro allI impI)
        fix k assume "k < j + window_len w"
        then consider "k < j" | "k - j < window_len w" "k = j + (k - j)" by linarith
        then show "\<exists>b. io_byte pin AccessRead ?st (offset + k) = Inr b"
          using less.prems(3) bytes [of "k - j"] by cases (auto simp: readable_def)
      qed
      moreover have "load_loop pin offset n destination ?st = load_loop pin offset n (destination @ ?piece) ?st"
        using True len Inr W(1,3) by (subst load_loop.simps) (simp add: copy_to_slice_def assert_that_def)
      ultimately show ?thesis
        using less.hyps [of "j + window_len w" "destination @ ?piece"] W(1,2) True by simp
    qed
  qed
qed

section \<open>Storing\<close>

definition same_shape :: "io_state \<Rightarrow> io_state \<Rightarrow> bool" where
  "same_shape st st' \<longleftrightarrow> buffer_ok (fst st') \<and> buffer_len (fst st') = buffer_len (fst st) \<and>
     (case fst st of KernelBuffer _ \<Rightarrow> \<exists>ys. fst st' = KernelBuffer ys | UserBuffer _ _ \<Rightarrow> fst st' = fst st)"

definition changed_only :: "pin \<Rightarrow> io_state \<Rightarrow> io_state \<Rightarrow> nat \<Rightarrow> u8 list \<Rightarrow> bool" where
  \<comment> \<open>the bytes from the offset on are the given ones; all others of the buffer, and all of
     physical memory that does not hold them, are unchanged\<close>
  "changed_only pin st st' offset bytes \<longleftrightarrow> same_shape st st' \<and>
     (\<forall>k < buffer_len (fst st). io_byte pin AccessWrite st' k =
        (if offset \<le> k \<and> k < offset + length bytes then Inr (bytes ! (k - offset)) else io_byte pin AccessWrite st k)) \<and>
     (\<forall>q. q \<notin> places pin (fst st) offset (length bytes) \<longrightarrow> snd st' q = snd st q)"

lemma same_shape_pages:
  assumes "same_shape st st'"
  shows "frames_ok pin (fst st') = frames_ok pin (fst st)" "places pin (fst st') = places pin (fst st)"
    "buffer_ok (fst st')" "buffer_len (fst st') = buffer_len (fst st)"
  using assms by (auto simp: same_shape_def fun_eq_iff split: io_buffer.splits)

lemma changed_only_shape: "changed_only pin st st' offset bytes \<Longrightarrow> same_shape st st'"
  by (simp add: changed_only_def)

lemma same_shape_refl: "buffer_ok (fst st) \<Longrightarrow> same_shape st st"
  by (simp add: same_shape_def split: io_buffer.split)

lemma changed_none: "buffer_ok (fst st) \<Longrightarrow> changed_only pin st st offset []"
  by (auto simp: changed_only_def same_shape_refl)

lemma splice_nth:
  assumes "start + length ys \<le> length xs" "k < length xs"
  shows "splice xs start ys ! k = (if start \<le> k \<and> k < start + length ys then ys ! (k - start) else xs ! k)"
  using assms by (auto simp: splice_def nth_append min_def)

lemma splice_length [simp]: "start + length ys \<le> length xs \<Longrightarrow> length (splice xs start ys) = length xs"
  by (simp add: splice_def)

lemma write_user_byte:
  assumes "frames_ok pin (UserBuffer a n)" "place pin AccessWrite (a + offset) = Inr p"
    "length bytes \<le> 4096 - (a + offset) mod 4096" "offset + length bytes \<le> n" "k < n"
  shows "io_byte pin AccessWrite (UserBuffer a n, write_phys mem p bytes) k =
    (if offset \<le> k \<and> k < offset + length bytes then Inr (bytes ! (k - offset))
     else io_byte pin AccessWrite (UserBuffer a n, mem) k)"
proof (cases "offset \<le> k \<and> k < offset + length bytes")
  case True
  then have "place pin AccessWrite (a + (offset + (k - offset))) = Inr (p + (k - offset))"
    using assms(3) by (intro window_user_place [OF assms(2)]) linarith
  then have "place pin AccessWrite (a + k) = Inr (p + (k - offset))" using True by simp
  moreover have "k - offset < length bytes" using True by linarith
  ultimately show ?thesis using True by (simp add: write_phys_def del: add_diff_assoc)
next
  case False
  have "write_phys mem p bytes q = mem q" if q: "place pin AccessWrite (a + k) = Inr q" for q
  proof (rule ccontr)
    assume "write_phys mem p bytes q \<noteq> mem q"
    then have i: "p \<le> q" "q - p < length bytes" by (auto simp: write_phys_def split: if_splits)
    have "place pin AccessWrite (a + (offset + (q - p))) = Inr (p + (q - p))"
      using i(2) assms(3) by (intro window_user_place [OF assms(2)]) linarith
    then have "k = offset + (q - p)" using i assms(4) by (intro place_inj [OF assms(1,5) _ q]) simp_all
    then show False using False i by auto
  qed
  with False show ?thesis by (auto split: sum.split)
qed

lemma write_phys_outside:
  assumes "place pin AccessWrite (a + offset) = Inr p" "length bytes \<le> 4096 - (a + offset) mod 4096"
    "q \<notin> places pin (UserBuffer a n) offset (length bytes)"
  shows "write_phys mem p bytes q = mem q"
proof (rule ccontr)
  assume "write_phys mem p bytes q \<noteq> mem q"
  then have i: "p \<le> q" "q - p < length bytes" by (auto simp: write_phys_def split: if_splits)
  have "place pin AccessWrite (a + (offset + (q - p))) = Inr (p + (q - p))"
    using i(2) assms(2) by (intro window_user_place [OF assms(1)]) linarith
  then have "place pin AccessWrite (a + (offset + (q - p))) = Inr q" using i(1) by simp
  moreover have "offset \<le> offset + (q - p)" "offset + (q - p) < offset + length bytes" using i(2) by simp_all
  ultimately show False using assms(3) unfolding places.simps by blast
qed

lemma window_store:
  assumes "frames_ok pin buf" "buffer_ok buf" "0 < maximum" "offset + maximum \<le> buffer_len buf"
    "io_window pin AccessWrite buf offset maximum = Inr w" "length bytes = window_len w"
  shows "changed_only pin (buf, mem) (put_window w bytes (buf, mem)) offset bytes"
  using assms(2-4)
proof (cases rule: io_window_cases [where pin = pin and access = AccessWrite])
  case (kernel xs)
  then show ?thesis using assms by (auto simp: changed_only_def same_shape_def splice_nth)
next
  case (refused a n e)
  then show ?thesis using assms by simp
next
  case (user a n p)
  then have w: "w = UserWindow p (min maximum (4096 - (a + offset) mod 4096))" using assms(5) by simp
  then have len: "length bytes \<le> 4096 - (a + offset) mod 4096" "offset + length bytes \<le> n"
    using assms(4,6) user(1) by simp_all
  have st: "put_window w bytes (UserBuffer a n, mem) = (UserBuffer a n, write_phys mem p bytes)" using w by simp
  have f: "frames_ok pin (UserBuffer a n)" "buffer_ok (UserBuffer a n)" using assms(1,2) user(1) by blast+
  show ?thesis
    unfolding changed_only_def user(1) st
    using write_user_byte [OF f(1) user(2) len] write_phys_outside [OF user(2) len(1)] f(2)
    by (simp add: same_shape_def del: io_byte.simps places.simps)
qed

lemma places_append:
  "places pin buf offset (m + n) = places pin buf offset m \<union> places pin buf (offset + m) n"
proof (cases buf)
  case (UserBuffer a len)
  have "offset \<le> k \<and> k < offset + (m + n) \<longleftrightarrow>
      offset \<le> k \<and> k < offset + m \<or> offset + m \<le> k \<and> k < offset + m + n" for k by linarith
  then show ?thesis unfolding UserBuffer places.simps by blast
qed simp

lemma changed_only_trans:
  assumes "changed_only pin st st1 offset xs" "changed_only pin st1 st2 (offset + length xs) ys"
  shows "changed_only pin st st2 offset (xs @ ys)"
proof -
  note shape = changed_only_shape [OF assms(1)] changed_only_shape [OF assms(2)]
  have "same_shape st st2" using shape by (auto simp: same_shape_def split: io_buffer.splits)
  moreover have "snd st2 q = snd st q" if "q \<notin> places pin (fst st) offset (length (xs @ ys))" for q
    using assms that same_shape_pages(2) [OF shape(1)] by (simp add: changed_only_def places_append)
  moreover have "io_byte pin AccessWrite st2 k = (if offset \<le> k \<and> k < offset + length (xs @ ys)
      then Inr ((xs @ ys) ! (k - offset)) else io_byte pin AccessWrite st k)" if "k < buffer_len (fst st)" for k
    using assms that same_shape_pages(4) [OF shape(1)] by (auto simp: changed_only_def nth_append)
  ultimately show ?thesis unfolding changed_only_def by blast
qed

lemma changed_only_writable:
  assumes "changed_only pin st st' offset xs" "offset + length xs \<le> lo" "lo + n \<le> buffer_len (fst st)"
  shows "readable pin AccessWrite st' lo n = readable pin AccessWrite st lo n"
  using assms by (auto simp: readable_def changed_only_def)

lemma readable_append:
  "readable pin access st offset (m + n) \<longleftrightarrow> readable pin access st offset m \<and> readable pin access st (offset + m) n"
proof -
  have "(\<forall>k < m + n. P k) \<longleftrightarrow> (\<forall>k < m. P k) \<and> (\<forall>k < n. P (m + k))" for P
    by (metis add_less_cancel_left le_Suc_ex not_le trans_less_add1)
  then show ?thesis by (simp add: readable_def add.assoc)
qed

lemma store_loop_correct:
  "frames_ok pin (fst st) \<Longrightarrow> buffer_ok (fst st) \<Longrightarrow> offset + length source \<le> buffer_len (fst st) \<Longrightarrow> j \<le> length source \<Longrightarrow>
    \<exists>r st' m. store_loop pin offset source j st = Some (r, st') \<and> j + m \<le> length source \<and>
      changed_only pin st st' (offset + j) (take m (drop j source)) \<and>
      (if readable pin AccessWrite st (offset + j) (length source - j) then r = Inr () \<and> j + m = length source
       else \<exists>e. r = Inl e)"
proof (induction "length source - j" arbitrary: j st rule: less_induct)
  case less
  have self: "changed_only pin st st (offset + j) (take 0 (drop j source))"
    using less.prems(2) changed_none by simp
  show ?case
  proof (cases "j < length source")
    case False
    then have "store_loop pin offset source j st = Some (Inr (), st)" by (subst store_loop.simps) simp
    moreover have "j = length source" using False less.prems by simp
    ultimately show ?thesis using self by (intro exI [of _ "Inr ()"] exI [of _ st] exI [of _ 0]) (simp add: readable_def)
  next
    case True
    obtain buf mem where st: "st = (buf, mem)" by (cases st)
    have pre: "0 < length source - j" "offset + j + (length source - j) \<le> buffer_len buf"
      using True less.prems st by simp_all
    show ?thesis
    proof (cases "io_window pin AccessWrite buf (offset + j) (length source - j)")
      case (Inl e)
      then have "store_loop pin offset source j st = Some (Inl e, st)"
        using True st by (subst store_loop.simps) simp
      moreover have "\<not> readable pin AccessWrite st (offset + j) (length source - j)"
        using window_refused [OF _ pre Inl] less.prems st True by (force simp: readable_def)
      ultimately show ?thesis using self True
        by (intro exI [of _ "Inl e"] exI [of _ st] exI [of _ 0]) simp
    next
      case (Inr w)
      let ?n = "window_len w"
      let ?piece = "take ?n (drop j source)"
      let ?st = "put_window w ?piece st"
      have W: "0 < ?n" "?n \<le> length source - j" "readable pin AccessWrite st (offset + j) ?n"
        using window_load [OF _ pre Inr, of mem] less.prems st by (auto simp: readable_def)
      have ch: "changed_only pin st ?st (offset + j) ?piece"
        using window_store [OF _ _ pre Inr, of ?piece mem] less.prems st W by simp
      have fits: "j + ?n \<le> length source" "length source - (j + ?n) < length source - j"
        using W(1,2) True by simp_all
      then have step: "store_loop pin offset source j st = store_loop pin offset source (j + ?n) ?st"
        using True Inr W(1,2) st
        by (subst store_loop.simps) (simp add: slice_def copy_from_slice_def assert_that_def)
      have "frames_ok pin (fst ?st)" "buffer_ok (fst ?st)" "offset + length source \<le> buffer_len (fst ?st)"
        using same_shape_pages [OF changed_only_shape [OF ch]] less.prems by simp_all
      then obtain r st' m where IH: "store_loop pin offset source (j + ?n) ?st = Some (r, st')"
        "j + ?n + m \<le> length source" "changed_only pin ?st st' (offset + (j + ?n)) (take m (drop (j + ?n) source))"
        "if readable pin AccessWrite ?st (offset + (j + ?n)) (length source - (j + ?n))
         then r = Inr () \<and> j + ?n + m = length source else \<exists>e. r = Inl e"
        using less.hyps [of "j + ?n" ?st] fits by blast
      have all: "changed_only pin st st' (offset + j) (take (?n + m) (drop j source))"
      proof -
        have "length ?piece = ?n" "take (?n + m) (drop j source) = ?piece @ take m (drop (j + ?n) source)"
          using W(2) by (simp_all add: take_add add.commute [of j])
        then show ?thesis
          using changed_only_trans [OF ch, of st' "take m (drop (j + ?n) source)"] IH(3)
          by (simp add: add.assoc)
      qed
      have "readable pin AccessWrite ?st (offset + (j + ?n)) (length source - (j + ?n)) =
          readable pin AccessWrite st (offset + (j + ?n)) (length source - (j + ?n))"
        using less.prems W by (intro changed_only_writable [OF ch]) simp_all
      also have "\<dots> = readable pin AccessWrite st (offset + j) (length source - j)"
        using readable_append [of pin AccessWrite st "offset + j" ?n "length source - (j + ?n)"] W
        by (simp add: add.assoc)
      finally show ?thesis
        using step IH all by (intro exI [of _ r] exI [of _ st'] exI [of _ "?n + m"]) (auto simp: add.assoc)
    qed
  qed
qed

lemma buffer_small: "buffer_ok buf \<Longrightarrow> buffer_len buf < u64_limit"
  by (cases buf) auto

lemma io_store_correct:
  assumes "frames_ok pin (fst st)" "buffer_ok (fst st)"
  shows "\<exists>r st' m. io_store pin offset source st = Some (r, st') \<and> m \<le> length source \<and>
    changed_only pin st st' offset (take m source) \<and>
    (if offset + length source \<le> buffer_len (fst st) \<and> readable pin AccessWrite st offset (length source)
     then r = Inr () \<and> m = length source else \<exists>e. r = Inl e)"
proof (cases "offset + length source \<le> buffer_len (fst st)")
  case False
  then have "io_store pin offset source st = Some (Inl InvalidAddress, st)"
    by (simp add: io_store_def checked_subrange_def checked_add_def)
  moreover have "changed_only pin st st offset (take 0 source)"
    using assms(2) changed_none by simp
  ultimately show ?thesis using False
    by (intro exI [of _ "Inl InvalidAddress"] exI [of _ st] exI [of _ 0]) simp
next
  case True
  then have "io_store pin offset source st = store_loop pin offset source 0 st"
    using buffer_small [OF assms(2)] by (simp add: io_store_def checked_subrange_def checked_add_def)
  moreover obtain r st' m where "store_loop pin offset source 0 st = Some (r, st')" "m \<le> length source"
    "changed_only pin st st' offset (take m source)"
    "if readable pin AccessWrite st offset (length source) then r = Inr () \<and> m = length source else \<exists>e. r = Inl e"
    using store_loop_correct [OF assms True le0] unfolding add_0_left add_0_right drop_0 diff_zero by blast
  ultimately show ?thesis
    using True by (intro exI [of _ r] exI [of _ st'] exI [of _ m]) simp
qed

lemma io_store_inside:
  assumes "frames_ok pin (fst st)" "buffer_ok (fst st)" "offset + length source \<le> buffer_len (fst st)"
  obtains (stored) st' where "io_store pin offset source st = Some (Inr (), st')"
      "readable pin AccessWrite st offset (length source)" "changed_only pin st st' offset source"
  | (failed) e st' where "io_store pin offset source st = Some (Inl e, st')"
      "\<not> readable pin AccessWrite st offset (length source)"
proof -
  obtain r st' m where S: "io_store pin offset source st = Some (r, st')" "changed_only pin st st' offset (take m source)"
    "if offset + length source \<le> buffer_len (fst st) \<and> readable pin AccessWrite st offset (length source)
     then r = Inr () \<and> m = length source else \<exists>e. r = Inl e"
    using io_store_correct [OF assms(1,2)] by blast
  then show ?thesis
    using assms(3) stored failed by (cases "readable pin AccessWrite st offset (length source)") auto
qed

lemma changed_only_bytes:
  assumes "changed_only pin st st' offset bytes" "offset + length bytes \<le> buffer_len (fst st)"
  shows "readable pin AccessWrite st' offset (length bytes)" "io_bytes pin AccessWrite st' offset (length bytes) = bytes"
  using assms by (auto simp: changed_only_def readable_def io_bytes_def intro!: nth_equalityI)

lemma io_load_correct:
  assumes "buffer_ok (fst st)" "offset + n \<le> buffer_len (fst st)" "readable pin AccessRead st offset n"
  shows "io_load pin offset n st = Some (Inr (io_bytes pin AccessRead st offset n))"
  using load_loop_correct [of "fst st" offset n 0 "[]" pin "snd st"] buffer_small [OF assms(1)] assms
  by (simp add: io_load_def checked_subrange_def checked_add_def io_bytes_def readable_def)

definition read_back :: "pin \<Rightarrow> pin \<Rightarrow> io_buffer \<Rightarrow> nat \<Rightarrow> nat \<Rightarrow> bool" where
  \<comment> \<open>where the later resolution finds the bytes of a range that were stored through the earlier one\<close>
  "read_back pin pin' buf offset n \<longleftrightarrow> (case buf of KernelBuffer _ \<Rightarrow> True
     | UserBuffer a _ \<Rightarrow> \<forall>k f. offset \<le> k \<longrightarrow> k < offset + n \<longrightarrow>
         pin (page_base (a + k)) AccessWrite = Inr f \<longrightarrow> pin' (page_base (a + k)) AccessRead = Inr f)"

lemma read_back_byte:
  assumes "read_back pin pin' (fst st) offset n" "offset \<le> k" "k < offset + n" "io_byte pin AccessWrite st k = Inr b"
  shows "io_byte pin' AccessRead st k = Inr b"
proof (cases st)
  case (Pair buf mem)
  then show ?thesis
  proof (cases buf)
    case (UserBuffer a len)
    then obtain f where f: "pin (page_base (a + k)) AccessWrite = Inr f" "b = mem (f + (a + k) mod 4096)"
      using assms(4) Pair by (auto simp: place_def page_base_def split: sum.splits)
    then have "pin' (page_base (a + k)) AccessRead = Inr f"
      using assms(1-3) Pair UserBuffer by (simp add: read_back_def)
    then show ?thesis using f Pair UserBuffer by (simp add: place_def page_base_def)
  qed (use assms(4) in simp)
qed

lemma read_back_cong:
  "same_shape st st' \<Longrightarrow> read_back pin pin' (fst st') offset n = read_back pin pin' (fst st) offset n"
  by (auto simp: same_shape_def read_back_def split: io_buffer.splits)

text \<open>
  C23. A transfer to a buffer, of kernel or of user memory, never panics. It succeeds exactly
  when the range lies in the buffer and every page of it can be written. Whether it succeeds or
  not, it has stored a prefix of the bytes, all of them if it succeeds: no other byte of the
  buffer and no byte of physical memory outside of the range has changed. Loading the range
  afterwards returns the bytes that were stored. The resolution of pages may differ between
  accesses and between the two transfers, as it does for pages that are read-only or copied on
  the first write; the writable pages of the buffer are held by different frames, and a page
  that was resolved for writing is then read in the same frame.
\<close>

theorem io_transfer_correct:
  assumes "frames_ok pin (fst st)" "buffer_ok (fst st)" "read_back pin pin' (fst st) offset (length source)"
  shows "\<exists>r st' m. io_store pin offset source st = Some (r, st') \<and> m \<le> length source \<and>
    (r = Inr () \<longleftrightarrow> offset + length source \<le> buffer_len (fst st) \<and>
       readable pin AccessWrite st offset (length source)) \<and>
    (r = Inr () \<longrightarrow> m = length source \<and> io_load pin' offset (length source) st' = Some (Inr source)) \<and>
    (\<forall>k < buffer_len (fst st). io_byte pin AccessWrite st' k =
       (if offset \<le> k \<and> k < offset + m then Inr (source ! (k - offset)) else io_byte pin AccessWrite st k)) \<and>
    (\<forall>q. q \<notin> places pin (fst st) offset m \<longrightarrow> snd st' q = snd st q)"
proof -
  obtain r st' m where S: "io_store pin offset source st = Some (r, st')" "m \<le> length source"
    "changed_only pin st st' offset (take m source)"
    "if offset + length source \<le> buffer_len (fst st) \<and> readable pin AccessWrite st offset (length source)
     then r = Inr () \<and> m = length source else \<exists>e. r = Inl e"
    using io_store_correct [OF assms(1,2)] by blast
  note shape = changed_only_shape [OF S(3)]
  have load: "io_load pin' offset (length source) st' = Some (Inr source)" if "r = Inr ()"
  proof -
    have m: "m = length source" "offset + length source \<le> buffer_len (fst st)"
      using S(4) that by (auto split: if_splits)
    then have "io_byte pin AccessWrite st' (offset + k) = Inr (source ! k)" if "k < length source" for k
      using S(3) that by (simp add: changed_only_def)
    then have byte: "io_byte pin' AccessRead st' (offset + k) = Inr (source ! k)" if "k < length source" for k
      using that assms(3) read_back_cong [OF shape] by (intro read_back_byte [where pin = pin and offset = offset and n = "length source"]) simp_all
    then have "readable pin' AccessRead st' offset (length source)" by (simp add: readable_def)
    moreover have "io_bytes pin' AccessRead st' offset (length source) = source"
      using byte by (auto simp: io_bytes_def intro!: nth_equalityI)
    ultimately show ?thesis
      using io_load_correct [of st' offset "length source" pin'] same_shape_pages(3,4) [OF shape] m by simp
  qed
  have len: "length (take m source) = m" using S(2) by simp
  have "io_byte pin AccessWrite st' k =
      (if offset \<le> k \<and> k < offset + m then Inr (source ! (k - offset)) else io_byte pin AccessWrite st k)"
    if "k < buffer_len (fst st)" for k
    using S(3) that unfolding changed_only_def len by auto
  moreover have "snd st' q = snd st q" if "q \<notin> places pin (fst st) offset m" for q
    using S(3) that unfolding changed_only_def len by blast
  moreover have "r = Inr () \<longleftrightarrow> offset + length source \<le> buffer_len (fst st) \<and>
      readable pin AccessWrite st offset (length source)" "r = Inr () \<Longrightarrow> m = length source"
    using S(4) by (auto split: if_splits)
  ultimately show ?thesis using S(1,2) load by blast
qed

definition swapped_pages :: pin where
  "swapped_pages p access = (if p = 4096 then Inr 8192 else if p = 8192 then Inr 4096 else Inl NotMapped)"

definition copied_pages :: "bool \<Rightarrow> pin" where
  \<comment> \<open>a page that is read in one frame until a write has given it another; the flag: it has\<close>
  "copied_pages written p access =
     (if p = 4096 then Inr 8192
      else if p = 8192 then Inr (if written \<or> access = AccessWrite then 4096 else 0) else Inl NotMapped)"

lemma swapped_frames: "frames_ok swapped_pages buf"
  by (cases buf) (auto simp: swapped_pages_def split: if_splits)

theorem io_transfer_witness:
  "\<exists>st'. io_store (copied_pages False) 2 [7, 8, 9] (UserBuffer 8189 9, \<lambda>a. 0) = Some (Inr (), st') \<and>
     io_load (copied_pages True) 2 3 st' = Some (Inr [7, 8, 9])"
proof -
  let ?st = "(UserBuffer 8189 9, \<lambda>a. 0)"
  have "frames_ok (copied_pages False) (fst ?st)" "buffer_ok (fst ?st)"
    "read_back (copied_pages False) (copied_pages True) (fst ?st) 2 (length [7::u8, 8, 9])"
    by (auto simp: copied_pages_def read_back_def split: if_splits)
  note io_transfer_correct [OF this]
  moreover have "readable (copied_pages False) AccessWrite ?st 2 (length [7::u8, 8, 9])"
    by (simp add: readable_def All_less_Suc place_def copied_pages_def)
  moreover have "2 + length [7::u8, 8, 9] \<le> buffer_len (fst ?st)" "length [7::u8, 8, 9] = 3" by simp_all
  ultimately show ?thesis by metis
qed

end
