(* ===== verification/Pipe.thy ===== *)
theory Pipe
  imports Io Poll
begin

text \<open>
  Model of \<open>kernel/src/proc/pipe.rs\<close>: anonymous pipes. The state of a pipe is what its mutex
  protects, together with the two events, each of which is signalled or not. An iteration of
  the loop of a read or a write, which runs under the mutex, is one function; it returns or it
  goes to sleep on an event. The buffers of the callers are those of the theory of transfers.
  The lemmas show that a pipe is a bounded first-in first-out queue that loses and duplicates
  nothing, on faults included. The last part runs several readers against writers and a
  closing writer as a step relation, and shows when a sleeping reader is woken.
\<close>

unbundle bit_operations_syntax

section \<open>Operations\<close>

definition PIPE_CAPACITY :: nat where "PIPE_CAPACITY = 64 * 1024"
definition PIPE_ATOMIC_LIMIT :: nat where "PIPE_ATOMIC_LIMIT = 4096"

datatype pipe_error = BadDescriptor | TryAgain | BrokenPipe | Fault
datatype direction = DirRead | DirWrite

record pipe =
  p_buffer :: "u8 list"
  p_reader_open :: bool
  p_writer_open :: bool
  p_readable :: bool
  p_writable :: bool

record pipe_end =
  pe_direction :: direction
  pe_nonblocking :: bool

definition pipe_new :: pipe where
  "pipe_new = \<lparr>p_buffer = [], p_reader_open = True, p_writer_open = True, p_readable = False, p_writable = True\<rparr>"

definition pipe_pair :: "pipe \<times> pipe_end \<times> pipe_end" where
  "pipe_pair = (pipe_new, \<lparr>pe_direction = DirRead, pe_nonblocking = False\<rparr>,
     \<lparr>pe_direction = DirWrite, pe_nonblocking = False\<rparr>)"

datatype pipe_outcome = Returns "pipe_error + nat" | Sleeps

definition take_bytes :: "pipe \<Rightarrow> nat \<Rightarrow> pipe" where
  \<comment> \<open>the bytes that were copied leave the buffer\<close>
  "take_bytes p n =
     (let rest = drop n (p_buffer p) in
      p\<lparr>p_buffer := rest, p_readable := (rest \<noteq> [] \<and> p_readable p), p_writable := True\<rparr>)"

definition read_attempt ::
  "pin \<Rightarrow> nat \<Rightarrow> bool \<Rightarrow> pipe \<Rightarrow> io_state \<Rightarrow> (pipe_outcome \<times> pipe \<times> io_state) panics" where
  \<comment> \<open>the second argument is the length of the first of the two slices of the ring buffer\<close>
  "read_attempt pin front nonblocking p sink =
     (if p_buffer p \<noteq> [] then
        let n = min (buffer_len (fst sink)) (length (p_buffer p)); from_front = min front n in do {
          (r, sink) \<leftarrow> io_store pin 0 (take from_front (p_buffer p)) sink;
          if isl r then Some (Returns (Inl Fault), p, sink)
          else if from_front < n then do {
            (r, sink) \<leftarrow> io_store pin from_front (take (n - from_front) (drop from_front (p_buffer p))) sink;
            if isl r then Some (Returns (Inl Fault), p, sink)
            else Some (Returns (Inr n), take_bytes p n, sink)
          }
          else Some (Returns (Inr n), take_bytes p n, sink)
        }
      else if \<not> p_writer_open p then Some (Returns (Inr 0), p, sink)
      else if nonblocking then Some (Returns (Inl TryAgain), p, sink)
      else Some (Sleeps, p\<lparr>p_readable := False\<rparr>, sink))"

definition pipe_read ::
  "pin \<Rightarrow> nat \<Rightarrow> pipe_end \<Rightarrow> pipe \<Rightarrow> io_state \<Rightarrow> (pipe_outcome \<times> pipe \<times> io_state) panics" where
  \<comment> \<open>up to the first time that the reader goes to sleep\<close>
  "pipe_read pin front e p sink =
     (if pe_direction e \<noteq> DirRead then Some (Returns (Inl BadDescriptor), p, sink)
      else if buffer_len (fst sink) = 0 then Some (Returns (Inr 0), p, sink)
      else read_attempt pin front (pe_nonblocking e) p sink)"

function copy_loop :: "pin \<Rightarrow> io_state \<Rightarrow> nat \<Rightarrow> nat \<Rightarrow> u8 list \<Rightarrow> ((pipe_error + nat) \<times> u8 list) panics" where
  \<comment> \<open>the copy through a buffer of 1024 bytes\<close>
  "copy_loop pin source limit copied buffer =
     (if copied < limit then
        (case io_window pin AccessRead (fst source) copied (min (limit - copied) 1024) of
           Inl _ \<Rightarrow> Some (if copied \<noteq> 0 then Inr copied else Inl Fault, buffer)
         | Inr w \<Rightarrow>
             if window_len w = 0 then Some (Inr copied, buffer)
             else do {
               piece \<leftarrow> copy_to_slice w (window_len w) source;
               copy_loop pin source limit (copied + window_len w) (buffer @ piece)
             })
      else Some (Inr copied, buffer))"
  by pat_completeness auto
termination
  by (relation "measure (\<lambda>(p, source, limit, copied, buffer). limit - copied)") auto

declare copy_loop.simps [simp del]

definition write_attempt :: "pin \<Rightarrow> bool \<Rightarrow> pipe \<Rightarrow> io_state \<Rightarrow> (pipe_outcome \<times> pipe) panics" where
  "write_attempt pin nonblocking p source =
     (if \<not> p_reader_open p then Some (Returns (Inl BrokenPipe), p)
      else if PIPE_CAPACITY < length (p_buffer p) then None
      else let available = PIPE_CAPACITY - length (p_buffer p); len = buffer_len (fst source);
               is_atomic = (len \<le> PIPE_ATOMIC_LIMIT) in
        if available \<noteq> 0 \<and> (\<not> is_atomic \<or> available \<ge> len) then do {
          (r, buffer) \<leftarrow> copy_loop pin source (min available len) 0 (p_buffer p);
          (case r of
             Inl e \<Rightarrow> Some (Returns (Inl e), p\<lparr>p_buffer := buffer\<rparr>)
           | Inr n \<Rightarrow> Some (Returns (Inr n), p\<lparr>p_buffer := buffer,
               p_writable := (length buffer \<noteq> PIPE_CAPACITY \<and> p_writable p), p_readable := True\<rparr>))
        }
        else if nonblocking then Some (Returns (Inl TryAgain), p)
        else Some (Sleeps, p\<lparr>p_writable := False\<rparr>))"

definition pipe_write :: "pin \<Rightarrow> pipe_end \<Rightarrow> pipe \<Rightarrow> io_state \<Rightarrow> (pipe_outcome \<times> pipe) panics" where
  \<comment> \<open>up to the first time that the writer goes to sleep\<close>
  "pipe_write pin e p source =
     (if pe_direction e \<noteq> DirWrite then Some (Returns (Inl BadDescriptor), p)
      else if buffer_len (fst source) = 0 then Some (Returns (Inr 0), p)
      else write_attempt pin (pe_nonblocking e) p source)"

fun access_mode :: "direction \<Rightarrow> nat" where
  "access_mode DirRead = 0"
| "access_mode DirWrite = 1"

definition end_set_nonblocking :: "pipe_end \<Rightarrow> bool \<Rightarrow> pipe_end" where
  "end_set_nonblocking e v = e\<lparr>pe_nonblocking := v\<rparr>"

definition pipe_poll :: "pipe_end \<Rightarrow> pipe \<Rightarrow> u16 \<Rightarrow> u16" where
  "pipe_poll e p events =
     (case pe_direction e of
        DirRead \<Rightarrow>
          (if p_buffer p \<noteq> [] then events AND (POLL_IN OR POLL_RDNORM) else 0) OR
          (if \<not> p_writer_open p then POLL_HUP else 0)
      | DirWrite \<Rightarrow>
          if \<not> p_reader_open p then POLL_ERR
          else if length (p_buffer p) < PIPE_CAPACITY then events AND (POLL_OUT OR POLL_WRNORM)
          else 0)"

datatype wait_event = WaitReadable | WaitWritable

definition pipe_poll_events :: "pipe_end \<Rightarrow> u16 \<Rightarrow> wait_event list" where
  "pipe_poll_events e events =
     (case pe_direction e of
        DirRead \<Rightarrow> if events AND (POLL_IN OR POLL_RDNORM OR POLL_HUP) \<noteq> 0 then [WaitReadable] else []
      | DirWrite \<Rightarrow> if events AND (POLL_OUT OR POLL_WRNORM OR POLL_ERR) \<noteq> 0 then [WaitWritable] else [])"

definition pipe_drop :: "pipe_end \<Rightarrow> pipe \<Rightarrow> pipe" where
  "pipe_drop e p =
     (case pe_direction e of
        DirRead \<Rightarrow> p\<lparr>p_reader_open := False, p_writable := True\<rparr>
      | DirWrite \<Rightarrow> p\<lparr>p_writer_open := False, p_readable := True\<rparr>)"

section \<open>A bounded first-in first-out queue\<close>

definition pipe_ok :: "pipe \<Rightarrow> bool" where
  "pipe_ok p \<longleftrightarrow> length (p_buffer p) \<le> PIPE_CAPACITY \<and> (p_buffer p \<noteq> [] \<longrightarrow> p_readable p) \<and>
     (p_buffer p = [] \<longrightarrow> p_writable p)"

lemma pipe_new_ok: "pipe_ok pipe_new"
  by (simp add: pipe_ok_def pipe_new_def)

lemma pipe_drop_ok: "pipe_ok p \<Longrightarrow> pipe_ok (pipe_drop e p)"
  by (simp add: pipe_ok_def pipe_drop_def split: direction.split)

lemma take_bytes_ok: "pipe_ok p \<Longrightarrow> pipe_ok (take_bytes p n)"
  by (auto simp: pipe_ok_def take_bytes_def Let_def)

lemma copy_loop_correct:
  assumes "buffer_ok (fst source)" "limit \<le> buffer_len (fst source)"
  shows "j \<le> limit \<Longrightarrow> \<exists>m r. j \<le> m \<and> m \<le> limit \<and> copy_loop pin source limit j buffer =
      Some (r, buffer @ io_bytes pin AccessRead source j (m - j)) \<and>
      (if m = 0 \<and> 0 < limit then r = Inl Fault else r = Inr m) \<and>
      readable pin AccessRead source j (m - j) \<and> (m < limit \<longrightarrow> isl (io_byte pin AccessRead source m))"
proof (induction "limit - j" arbitrary: j buffer rule: less_induct)
  case less
  obtain buf mem where st: "source = (buf, mem)" by (cases source)
  show ?case
  proof (cases "j < limit")
    case False
    then have "j = limit" using less.prems by simp
    then show ?thesis
      by (intro exI [of _ j] exI [of _ "Inr j"]) (subst copy_loop.simps, auto simp: io_bytes_def readable_def)
  next
    case True
    let ?max = "min (limit - j) 1024"
    have pre: "0 < ?max" "j + ?max \<le> buffer_len buf" using True assms(2) st by simp_all
    show ?thesis
    proof (cases "io_window pin AccessRead buf j ?max")
      case (Inl e)
      have "isl (io_byte pin AccessRead source j)" using window_refused [OF _ pre Inl, of mem] assms(1) st by simp
      then show ?thesis using Inl True st
        by (intro exI [of _ j] exI [of _ "if j \<noteq> 0 then Inr j else Inl Fault"])
          (subst copy_loop.simps, simp add: io_bytes_def readable_def)
    next
      case (Inr w)
      let ?n = "window_len w"
      let ?piece = "get_window w ?n source"
      have W: "0 < ?n" "?n \<le> limit - j" "length ?piece = ?n"
        "\<And>k. k < ?n \<Longrightarrow> io_byte pin AccessRead source (j + k) = Inr (?piece ! k)"
        using window_load [OF _ pre Inr, of mem] assms(1) st by auto
      have step: "copy_loop pin source limit j buffer = copy_loop pin source limit (j + ?n) (buffer @ ?piece)"
        using True Inr W st by (subst copy_loop.simps) (simp add: copy_to_slice_def assert_that_def)
      have piece: "?piece = io_bytes pin AccessRead source j ?n"
        using W by (auto simp: io_bytes_def intro!: nth_equalityI)
      have fits: "j + ?n \<le> limit" "limit - (j + ?n) < limit - j" using W True by simp_all
      obtain m r where IH: "j + ?n \<le> m" "m \<le> limit"
        "copy_loop pin source limit (j + ?n) (buffer @ ?piece) =
           Some (r, (buffer @ ?piece) @ io_bytes pin AccessRead source (j + ?n) (m - (j + ?n)))"
        "if m = 0 \<and> 0 < limit then r = Inl Fault else r = Inr m"
        "readable pin AccessRead source (j + ?n) (m - (j + ?n))" "m < limit \<longrightarrow> isl (io_byte pin AccessRead source m)"
        using less.hyps [OF fits(2,1), of "buffer @ ?piece"] by blast
      have cut: "m - j = ?n + (m - (j + ?n))" using IH(1) by simp
      then have "io_bytes pin AccessRead source j (m - j) =
          ?piece @ io_bytes pin AccessRead source (j + ?n) (m - (j + ?n))" unfolding piece by (metis io_bytes_append)
      moreover have "readable pin AccessRead source j ?n" using W(4) by (simp add: readable_def)
      then have "readable pin AccessRead source j (m - j)" using IH(5) cut by (metis readable_append)
      ultimately show ?thesis using step IH by (intro exI [of _ m] exI [of _ r]) auto
    qed
  qed
qed

lemma read_attempt_correct:
  assumes "pipe_ok p" "frames_ok pin (fst sink)" "buffer_ok (fst sink)" "0 < buffer_len (fst sink)"
    "n = min (buffer_len (fst sink)) (length (p_buffer p))"
  obtains (data) sink' where "0 < n" "read_attempt pin front nb p sink = Some (Returns (Inr n), take_bytes p n, sink')"
      "readable pin AccessWrite sink 0 n" "changed_only pin sink sink' 0 (take n (p_buffer p))"
  | (fault) sink' where "0 < n" "read_attempt pin front nb p sink = Some (Returns (Inl Fault), p, sink')"
      "\<not> readable pin AccessWrite sink 0 n"
  | (closed) "n = 0" "read_attempt pin front nb p sink = Some (Returns (Inr 0), p, sink)" "\<not> p_writer_open p"
  | (again) "n = 0" "read_attempt pin front nb p sink = Some (Returns (Inl TryAgain), p, sink)" "p_writer_open p" nb
  | (sleep) "n = 0" "read_attempt pin front nb p sink = Some (Sleeps, p\<lparr>p_readable := False\<rparr>, sink)"
      "p_writer_open p" "\<not> nb"
proof (cases "p_buffer p = []")
  case True
  then show ?thesis using closed again sleep assms(5)
    by (cases "p_writer_open p"; cases nb) (simp_all add: read_attempt_def)
next
  case False
  let ?B = "p_buffer p" and ?f = "min front n"
  have n: "0 < n" "n \<le> buffer_len (fst sink)" "n \<le> length ?B" using assms(4,5) False by auto
  have len: "length (take ?f ?B) = ?f" "length (take (n - ?f) (drop ?f ?B)) = n - ?f" using n by simp_all
  have cut: "readable pin AccessWrite sink 0 n \<longleftrightarrow>
      readable pin AccessWrite sink 0 ?f \<and> readable pin AccessWrite sink ?f (n - ?f)"
    using readable_append [of pin AccessWrite sink 0 ?f "n - ?f"] by simp
  have fit: "0 + length (take ?f ?B) \<le> buffer_len (fst sink)" using n len by simp
  show ?thesis
    using assms(2,3) fit
  proof (cases rule: io_store_inside)
    case (failed e s1)
    then have "read_attempt pin front nb p sink = Some (Returns (Inl Fault), p, s1)"
      using False assms(5) by (simp add: read_attempt_def Let_def)
    then show ?thesis using fault n(1) cut failed(2) unfolding len by blast
  next
    case (stored s1)
    note ch1 = stored(3)
    have shape: "frames_ok pin (fst s1)" "buffer_ok (fst s1)" "buffer_len (fst s1) = buffer_len (fst sink)"
      using same_shape_pages [OF changed_only_shape [OF ch1]] assms(2) by simp_all
    have rd: "readable pin AccessWrite s1 ?f (n - ?f) = readable pin AccessWrite sink ?f (n - ?f)"
      using n len by (intro changed_only_writable [OF ch1]) simp_all
    show ?thesis
    proof (cases "?f < n")
      case whole: False
      then have "?f = n" by simp
      then have "read_attempt pin front nb p sink = Some (Returns (Inr n), take_bytes p n, s1)"
        using stored(1) False assms(5) by (simp add: read_attempt_def Let_def)
      then show ?thesis using data [of s1] n(1) stored(2,3) len \<open>?f = n\<close> by simp
    next
      case split: True
      have fit: "?f + length (take (n - ?f) (drop ?f ?B)) \<le> buffer_len (fst s1)" using n len shape by simp
      show ?thesis
        using shape(1,2) fit
      proof (cases rule: io_store_inside)
        case (failed e s2)
        then have "read_attempt pin front nb p sink = Some (Returns (Inl Fault), p, s2)"
          using stored(1) split False assms(5) by (simp add: read_attempt_def Let_def)
        then show ?thesis using fault n(1) cut failed(2) rd unfolding len by blast
      next
        case (stored s2)
        have "changed_only pin sink s2 0 (take ?f ?B @ take (n - ?f) (drop ?f ?B))"
          using changed_only_trans [OF ch1] stored(3) len by simp
        then have "changed_only pin sink s2 0 (take n ?B)"
          using split by (simp add: take_add [symmetric])
        moreover have "read_attempt pin front nb p sink = Some (Returns (Inr n), take_bytes p n, s2)"
          using \<open>io_store pin 0 (take ?f ?B) sink = Some (Inr (), s1)\<close> stored(1) split False assms(5)
          by (simp add: read_attempt_def Let_def)
        moreover have "readable pin AccessWrite sink 0 n"
          using cut rd stored(2) \<open>readable pin AccessWrite sink 0 (length (take ?f ?B))\<close> unfolding len by blast
        ultimately show ?thesis using data n(1) by blast
      qed
    qed
  qed
qed

lemma write_attempt_correct:
  assumes "pipe_ok p" "buffer_ok (fst source)" "0 < buffer_len (fst source)"
    "free = PIPE_CAPACITY - length (p_buffer p)" "len = buffer_len (fst source)"
  obtains (data) m p' where "m \<le> min free len" "write_attempt pin nb p source = Some (Returns (Inr m), p')"
      "p_buffer p' = p_buffer p @ io_bytes pin AccessRead source 0 m" "pipe_ok p'" "0 < m"
      "readable pin AccessRead source 0 m" "m < min free len \<Longrightarrow> isl (io_byte pin AccessRead source m)"
      "len \<le> PIPE_ATOMIC_LIMIT \<Longrightarrow> len \<le> free" "p_writer_open p' = p_writer_open p"
  | (broken) "write_attempt pin nb p source = Some (Returns (Inl BrokenPipe), p)" "\<not> p_reader_open p"
  | (again) "write_attempt pin nb p source = Some (Returns (Inl TryAgain), p)" nb "free < min len PIPE_ATOMIC_LIMIT"
  | (fault) "write_attempt pin nb p source = Some (Returns (Inl Fault), p)" "isl (io_byte pin AccessRead source 0)"
  | (sleep) "write_attempt pin nb p source = Some (Sleeps, p\<lparr>p_writable := False\<rparr>)" "p_buffer p \<noteq> []" "\<not> nb"
      "free < min len PIPE_ATOMIC_LIMIT"
proof -
  let ?B = "p_buffer p"
  let ?go = "free \<noteq> 0 \<and> (\<not> len \<le> PIPE_ATOMIC_LIMIT \<or> free \<ge> len)"
  have cap: "length ?B \<le> PIPE_CAPACITY" using assms(1) by (simp add: pipe_ok_def)
  have full: "free < min len PIPE_ATOMIC_LIMIT" if "\<not> ?go"
    using that assms(3,5) by (auto simp: PIPE_ATOMIC_LIMIT_def)
  consider "\<not> p_reader_open p" | "p_reader_open p" "\<not> ?go" nb | "p_reader_open p" "\<not> ?go" "\<not> nb"
    | "p_reader_open p" ?go by blast
  then show ?thesis
  proof cases
    case 1
    then show ?thesis by (intro broken) (simp_all add: write_attempt_def)
  next
    case 2
    then show ?thesis using cap full assms(4,5) by (intro again) (auto simp: write_attempt_def Let_def)
  next
    case 3
    then have "?B \<noteq> []" using assms(4) by (auto simp: PIPE_CAPACITY_def PIPE_ATOMIC_LIMIT_def)
    then show ?thesis using 3 cap full assms(4,5) by (intro sleep) (auto simp: write_attempt_def Let_def)
  next
    case 4
    have "min free len \<le> buffer_len (fst source)" using assms(5) by simp
    then obtain m r where C: "m \<le> min free len" "copy_loop pin source (min free len) 0 ?B =
        Some (r, ?B @ io_bytes pin AccessRead source 0 m)"
      "if m = 0 \<and> 0 < min free len then r = Inl Fault else r = Inr m"
      "readable pin AccessRead source 0 m" "m < min free len \<longrightarrow> isl (io_byte pin AccessRead source m)"
      using copy_loop_correct [OF assms(2) _ le0, of "min free len" pin ?B] unfolding diff_zero by blast
    have pos: "0 < min free len" using 4 assms(3,5) by simp
    show ?thesis
    proof (cases "m = 0")
      case True
      then have "write_attempt pin nb p source = Some (Returns (Inl Fault), p\<lparr>p_buffer := ?B\<rparr>)"
        using 4 C pos cap assms(4,5) by (simp add: write_attempt_def Let_def io_bytes_def)
      then show ?thesis using C(5) pos True by (intro fault) simp_all
    next
      case False
      have new: "length (?B @ io_bytes pin AccessRead source 0 m) = length ?B + m" by (simp add: io_bytes_def)
      have "length ?B + m \<le> PIPE_CAPACITY" using C(1) cap assms(4) by linarith
      moreover have "?B @ io_bytes pin AccessRead source 0 m \<noteq> []" using new False by force
      ultimately show ?thesis
        using 4 C False cap new assms(1,4,5)
        by (intro data [of m "p\<lparr>p_buffer := ?B @ io_bytes pin AccessRead source 0 m,
            p_writable := (length (?B @ io_bytes pin AccessRead source 0 m) \<noteq> PIPE_CAPACITY \<and> p_writable p),
            p_readable := True\<rparr>"]) (auto simp: write_attempt_def Let_def pipe_ok_def)
    qed
  qed
qed

datatype pipe_op = PRead pin pipe_end nat io_state | PWrite pin pipe_end io_state | PDrop pipe_end

fun op_ok :: "pipe_op \<Rightarrow> bool" where
  "op_ok (PRead pin e front sink) = (buffer_ok (fst sink) \<and> frames_ok pin (fst sink))"
| "op_ok (PWrite pin e source) = buffer_ok (fst source)"
| "op_ok (PDrop e) = True"

fun pipe_do :: "pipe \<times> u8 list \<times> u8 list \<Rightarrow> pipe_op \<Rightarrow> (pipe \<times> u8 list \<times> u8 list) panics" where
  \<comment> \<open>one call of a process with its user memory, with all the bytes accepted from writers and all
     those delivered to readers\<close>
  "pipe_do (p, sent, got) (PRead pin e front sink) = do {
     (out, p, sink) \<leftarrow> pipe_read pin front e p sink;
     Some (p, sent, got @ (case out of Returns (Inr n) \<Rightarrow> io_bytes pin AccessWrite sink 0 n | _ \<Rightarrow> []))
   }"
| "pipe_do (p, sent, got) (PWrite pin e source) = do {
     (out, p) \<leftarrow> pipe_write pin e p source;
     Some (p, sent @ (case out of Returns (Inr n) \<Rightarrow> io_bytes pin AccessRead source 0 n | _ \<Rightarrow> []), got)
   }"
| "pipe_do (p, sent, got) (PDrop e) = Some (pipe_drop e p, sent, got)"

definition fifo_inv :: "pipe \<times> u8 list \<times> u8 list \<Rightarrow> bool" where
  "fifo_inv s = (case s of (p, sent, got) \<Rightarrow> pipe_ok p \<and> sent = got @ p_buffer p)"

lemma io_bytes_0 [simp]: "io_bytes pin access st offset 0 = []"
  by (simp add: io_bytes_def)

lemma pipe_read_fifo:
  assumes "fifo_inv (p, sent, got)" "frames_ok pin (fst sink)" "buffer_ok (fst sink)"
  shows "\<exists>s. pipe_do (p, sent, got) (PRead pin e front sink) = Some s \<and> fifo_inv s"
proof (cases "pe_direction e = DirRead \<and> buffer_len (fst sink) \<noteq> 0")
  case False
  then show ?thesis using assms(1) by (auto simp: pipe_read_def)
next
  case True
  then have run: "pipe_read pin front e p sink = read_attempt pin front (pe_nonblocking e) p sink"
    and len: "0 < buffer_len (fst sink)" by (auto simp: pipe_read_def)
  have ok: "pipe_ok p" "sent = got @ p_buffer p" using assms(1) by (simp_all add: fifo_inv_def)
  show ?thesis
    using ok(1) assms(2,3) len refl
  proof (cases rule: read_attempt_correct [where front = front and nb = "pe_nonblocking e"])
    case (data sink')
    let ?n = "min (buffer_len (fst sink)) (length (p_buffer p))"
    have "io_bytes pin AccessWrite sink' 0 ?n = take ?n (p_buffer p)"
      using changed_only_bytes(2) [OF data(4)] by simp
    moreover have "pipe_ok (take_bytes p ?n)" using ok(1) by (rule take_bytes_ok)
    ultimately show ?thesis
      using run data(2) ok(2) by (simp add: fifo_inv_def take_bytes_def Let_def)
  next
    case (fault sink')
    then show ?thesis using run assms(1) by simp
  next
    case closed
    then show ?thesis using run assms(1) by simp
  next
    case again
    then show ?thesis using run assms(1) by simp
  next
    case sleep
    then have "p_buffer p = []" using len by (simp add: min_def split: if_splits)
    then show ?thesis using run sleep(2) ok by (simp add: fifo_inv_def pipe_ok_def)
  qed
qed

lemma pipe_write_fifo:
  assumes "fifo_inv (p, sent, got)" "buffer_ok (fst source)"
  shows "\<exists>s. pipe_do (p, sent, got) (PWrite pin e source) = Some s \<and> fifo_inv s"
proof (cases "pe_direction e = DirWrite \<and> buffer_len (fst source) \<noteq> 0")
  case False
  then show ?thesis using assms(1) by (auto simp: pipe_write_def)
next
  case True
  then have run: "pipe_write pin e p source = write_attempt pin (pe_nonblocking e) p source"
    and len: "0 < buffer_len (fst source)" by (auto simp: pipe_write_def)
  have ok: "pipe_ok p" "sent = got @ p_buffer p" using assms(1) by (simp_all add: fifo_inv_def)
  show ?thesis
    using ok(1) assms(2) len refl refl
    by (cases rule: write_attempt_correct [where pin = pin and nb = "pe_nonblocking e"])
      (use run ok in \<open>auto simp: fifo_inv_def pipe_ok_def\<close>)
qed

lemma pipe_do_fifo:
  assumes "fifo_inv s" "op_ok x"
  shows "\<exists>t. pipe_do s x = Some t \<and> fifo_inv t"
proof -
  obtain p sent got where s: "s = (p, sent, got)" by (cases s)
  show ?thesis
  proof (cases x)
    case (PRead pin e front sink)
    then show ?thesis using pipe_read_fifo [of p sent got pin sink e front] assms s by simp
  next
    case (PWrite pin e source)
    then show ?thesis using pipe_write_fifo [of p sent got source pin e] assms s by simp
  next
    case (PDrop e)
    then have "pipe_do s x = Some (pipe_drop e p, sent, got)" using s by simp
    moreover have "fifo_inv (pipe_drop e p, sent, got)"
      using assms(1) s pipe_drop_ok [of p e] by (simp add: fifo_inv_def pipe_drop_def split: direction.split)
    ultimately show ?thesis by blast
  qed
qed

interpretation fifo: safe_machine pipe_do "\<lambda>s x. op_ok x" fifo_inv
  by unfold_locales (rule pipe_do_fifo)

lemma always_admissible: "list_all ok xs \<Longrightarrow> admissible step (\<lambda>s x. ok x) s xs"
  by (induction xs arbitrary: s) (auto split: option.split)

text \<open>
  C24. A pipe is a bounded first-in first-out queue: after any sequence of reads, writes and
  closes of its ends, with any buffers of kernel or user memory, what readers received followed
  by what the pipe still holds is exactly what was accepted from writers, in order, also when
  transfers fail at a page that is not mapped. No call panics, and the pipe never holds more
  than its capacity. Every call has its own address space; the writable pages of the buffer of
  a read are held by different frames.
\<close>

theorem pipe_fifo:
  assumes "list_all op_ok calls"
  shows "\<exists>p sent got. run_ops pipe_do (pipe_new, [], []) calls = Some (p, sent, got) \<and>
    sent = got @ p_buffer p \<and> length (p_buffer p) \<le> PIPE_CAPACITY"
proof -
  have "fifo_inv (pipe_new, [], [])" using pipe_new_ok by (simp add: fifo_inv_def pipe_new_def)
  then obtain t where t: "run_ops pipe_do (pipe_new, [], []) calls = Some t" "fifo_inv t"
    using fifo.run_safe [OF _ always_admissible [OF assms]] by blast
  obtain p sent got where "t = (p, sent, got)" by (cases t)
  with t show ?thesis by (simp add: fifo_inv_def pipe_ok_def)
qed

theorem pipe_fifo_witness:
  "\<exists>p sent got. run_ops pipe_do (pipe_new, [], [])
      [PWrite swapped_pages \<lparr>pe_direction = DirWrite, pe_nonblocking = False\<rparr> (KernelBuffer [1, 2, 3], \<lambda>a. 0),
       PRead swapped_pages \<lparr>pe_direction = DirRead, pe_nonblocking = False\<rparr> 0 (UserBuffer 8190 2, \<lambda>a. 0)] = Some (p, sent, got) \<and>
    sent = got @ p_buffer p"
  using pipe_fifo [of
      "[PWrite swapped_pages \<lparr>pe_direction = DirWrite, pe_nonblocking = False\<rparr> (KernelBuffer [1, 2, 3], \<lambda>a. 0),
       PRead swapped_pages \<lparr>pe_direction = DirRead, pe_nonblocking = False\<rparr> 0 (UserBuffer 8190 2, \<lambda>a. 0)]"]
    swapped_frames by (auto simp del: frames_ok.simps)

text \<open>
  C25. What a write puts into the pipe, on every path. Its bytes arrive next to each other, a
  prefix of what the caller passed. A write of at most 4096 bytes only starts when all of them
  fit, so it puts in all of them, or none when it fails or sleeps; the one exception is a fault
  of the caller's memory after the first page, where the bytes up to the fault stay in the pipe
  and are reported as a short write. A longer write fills what is free, up to such a fault.
\<close>

theorem pipe_write_atomic:
  assumes "pipe_ok p" "buffer_ok (fst source)" "0 < len" "pe_direction e = DirWrite"
    "len = buffer_len (fst source)" "free = PIPE_CAPACITY - length (p_buffer p)"
  shows "\<exists>out p'. pipe_write pin e p source = Some (out, p') \<and>
    (case out of
       Returns (Inr n) \<Rightarrow> p_buffer p' = p_buffer p @ io_bytes pin AccessRead source 0 n \<and>
         readable pin AccessRead source 0 n \<and> 0 < n \<and> n \<le> min free len \<and>
         (n < min free len \<longrightarrow> isl (io_byte pin AccessRead source n)) \<and> (len \<le> 4096 \<longrightarrow> len \<le> free)
     | Returns (Inl err) \<Rightarrow> p' = p \<and>
         (err = BrokenPipe \<and> \<not> p_reader_open p \<or>
          err = TryAgain \<and> pe_nonblocking e \<and> free < min len 4096 \<or>
          err = Fault \<and> isl (io_byte pin AccessRead source 0))
     | Sleeps \<Rightarrow> p' = p\<lparr>p_writable := False\<rparr> \<and> \<not> pe_nonblocking e \<and> free < min len 4096)"
proof -
  have run: "pipe_write pin e p source = write_attempt pin (pe_nonblocking e) p source"
    using assms(3-5) by (simp add: pipe_write_def)
  have limit: "PIPE_ATOMIC_LIMIT = 4096" by (simp add: PIPE_ATOMIC_LIMIT_def)
  show ?thesis
    unfolding run using assms(1,2) _ assms(6,5)
    by (rule write_attempt_correct [where pin = pin and nb = "pe_nonblocking e"])
      (use assms(3,5) limit in auto)
qed

definition half_mapped :: pin where
  \<comment> \<open>one page is mapped, the next one is not\<close>
  "half_mapped p access = (if p = 4096 then Inr 4096 else Inl NotMapped)"

lemma pipe_write_short:
  "pipe_write half_mapped \<lparr>pe_direction = DirWrite, pe_nonblocking = True\<rparr> pipe_new (UserBuffer 8190 4, \<lambda>a. 7) =
     Some (Returns (Inr 2), pipe_new\<lparr>p_buffer := [7, 7], p_readable := True\<rparr>)"
proof -
  have w: "io_window half_mapped AccessRead (UserBuffer 8190 4) 0 4 = Inr (UserWindow 8190 2)"
    "io_window half_mapped AccessRead (UserBuffer 8190 4) 2 2 = Inl NotMapped"
    by (simp_all add: io_window_def window_length_def resolve_def half_mapped_def checked_add_def Let_def)
  have "copy_loop half_mapped (UserBuffer 8190 4, \<lambda>a. 7) 4 2 [7, 7] = Some (Inr 2, [7, 7])"
    using w(2) by (subst copy_loop.simps) simp
  then have "copy_loop half_mapped (UserBuffer 8190 4, \<lambda>a. 7) 4 0 [] = Some (Inr 2, [7, 7])"
    using w(1) by (subst copy_loop.simps) (simp add: copy_to_slice_def assert_that_def numeral_2_eq_2)
  then show ?thesis
    by (simp add: pipe_write_def write_attempt_def pipe_new_def PIPE_CAPACITY_def PIPE_ATOMIC_LIMIT_def)
qed

theorem pipe_write_atomic_witness:
  "pipe_write half_mapped \<lparr>pe_direction = DirWrite, pe_nonblocking = True\<rparr> pipe_new (UserBuffer 8190 4, \<lambda>a. 7) =
     Some (Returns (Inr 2), pipe_new\<lparr>p_buffer := [7, 7], p_readable := True\<rparr>) \<and>
   readable half_mapped AccessRead (UserBuffer 8190 4, \<lambda>a. 7) 0 2 \<and>
   isl (io_byte half_mapped AccessRead (UserBuffer 8190 4, \<lambda>a. 7) 2)"
proof -
  have free: "PIPE_CAPACITY - length (p_buffer pipe_new) = 65536" by (simp add: PIPE_CAPACITY_def pipe_new_def)
  show ?thesis
    using pipe_write_atomic [of pipe_new "(UserBuffer 8190 4, \<lambda>a. 7)" 4
        "\<lparr>pe_direction = DirWrite, pe_nonblocking = True\<rparr>" 65536 half_mapped] pipe_new_ok pipe_write_short free
    by (auto simp del: io_byte.simps)
qed

section \<open>Sleeping readers\<close>

text \<open>
  Several threads read the pipe, as often as they like and each with its own user memory, while
  others write to it and close it. A reader that finds the
  pipe empty resets the event and releases the mutex; it then waits for the event, which does
  not block when the event is signalled in between. A signal wakes every waiting reader.
\<close>

datatype reader = Trying | Committed | Asleep | Finished "pipe_error + nat"

definition wake_all :: "reader list \<Rightarrow> reader list" where
  "wake_all ts = map (\<lambda>t. if t = Asleep then Trying else t) ts"

definition no_user_pages :: pin where
  "no_user_pages p access = Inl NotMapped"

definition kernel_sink :: "nat \<Rightarrow> io_state" where
  "kernel_sink n = (KernelBuffer (replicate n 0), \<lambda>a. 0)"

definition write_end :: pipe_end where
  "write_end = \<lparr>pe_direction = DirWrite, pe_nonblocking = False\<rparr>"

definition sink_ok :: "pin \<Rightarrow> io_state \<Rightarrow> bool" where
  "sink_ok pin sink \<longleftrightarrow> frames_ok pin (fst sink) \<and> buffer_ok (fst sink) \<and> 0 < buffer_len (fst sink)"

inductive pipe_step :: "pipe \<times> reader list \<Rightarrow> pipe \<times> reader list \<Rightarrow> bool" where
  read_done: "i < length ts \<Longrightarrow> ts ! i = Trying \<Longrightarrow> sink_ok pin sink \<Longrightarrow>
    read_attempt pin front False p sink = Some (Returns r, p', sink') \<Longrightarrow>
    pipe_step (p, ts) (p', ts[i := Finished r])"
| read_commit: "i < length ts \<Longrightarrow> ts ! i = Trying \<Longrightarrow> sink_ok pin sink \<Longrightarrow>
    read_attempt pin front False p sink = Some (Sleeps, p', sink') \<Longrightarrow>
    pipe_step (p, ts) (p', ts[i := Committed])"
| wait_returns: "i < length ts \<Longrightarrow> ts ! i = Committed \<Longrightarrow> p_readable p \<Longrightarrow> pipe_step (p, ts) (p, ts[i := Trying])"
| wait_blocks: "i < length ts \<Longrightarrow> ts ! i = Committed \<Longrightarrow> \<not> p_readable p \<Longrightarrow> pipe_step (p, ts) (p, ts[i := Asleep])"
| reads_again: "i < length ts \<Longrightarrow> ts ! i = Finished r \<Longrightarrow> pipe_step (p, ts) (p, ts[i := Trying])"
| writes: "p_writer_open p \<Longrightarrow> buffer_ok (fst source) \<Longrightarrow> 0 < buffer_len (fst source) \<Longrightarrow>
    write_attempt pin False p source = Some (Returns (Inr m), p') \<Longrightarrow> pipe_step (p, ts) (p', wake_all ts)"
| closes: "p_writer_open p \<Longrightarrow> pipe_step (p, ts) (pipe_drop write_end p, wake_all ts)"

inductive_cases pipe_stepE: "pipe_step (p, ts) s"

lemma kernel_sink_ok: "n < u64_limit \<Longrightarrow> buffer_ok (fst (kernel_sink n))" "buffer_len (fst (kernel_sink n)) = n"
  "readable pin access (kernel_sink n) 0 k"
  by (simp_all add: kernel_sink_def readable_def)

lemma kernel_sink_usable: "0 < n \<Longrightarrow> n < u64_limit \<Longrightarrow> sink_ok no_user_pages (kernel_sink n)"
  by (simp add: sink_ok_def kernel_sink_def)

lemma kernel_read:
  assumes "pipe_ok p" "0 < n" "n < u64_limit" "k = min n (length (p_buffer p))"
  shows "\<exists>sink. read_attempt no_user_pages front False p (kernel_sink n) =
    Some (if p_buffer p \<noteq> [] then (Returns (Inr k), take_bytes p k, sink)
          else if \<not> p_writer_open p then (Returns (Inr 0), p, sink)
          else (Sleeps, p\<lparr>p_readable := False\<rparr>, sink))"
proof -
  have sink: "frames_ok no_user_pages (fst (kernel_sink n))" "0 < buffer_len (fst (kernel_sink n))"
    "k = min (buffer_len (fst (kernel_sink n))) (length (p_buffer p))"
    using assms by (simp_all add: kernel_sink_ok, simp add: kernel_sink_def)
  have k: "k = 0 \<longleftrightarrow> p_buffer p = []" using assms(2,4) by (auto simp: min_def)
  show ?thesis
    using assms(1) sink(1) kernel_sink_ok(1) [OF assms(3)] sink(2,3)
    by (cases rule: read_attempt_correct [where front = front and nb = False])
      (use k kernel_sink_ok(3) in auto)
qed

lemma step_cases:
  assumes "pipe_step (p, ts) (p', ts')" "pipe_ok p"
  obtains (data) i k where "i < length ts" "ts ! i = Trying" "p_buffer p \<noteq> []" "p' = take_bytes p k" "ts' = ts[i := Finished (Inr k)]"
  | (fault) i where "i < length ts" "ts ! i = Trying" "p_buffer p \<noteq> []" "p' = p" "ts' = ts[i := Finished (Inl Fault)]"
  | (eof) i where "i < length ts" "ts ! i = Trying" "p_buffer p = []" "\<not> p_writer_open p" "p' = p" "ts' = ts[i := Finished (Inr 0)]"
  | (commit) i where "i < length ts" "ts ! i = Trying" "p_buffer p = []" "p_writer_open p" "p' = p\<lparr>p_readable := False\<rparr>" "ts' = ts[i := Committed]"
  | (returns) i where "i < length ts" "ts ! i = Committed" "p_readable p" "p' = p" "ts' = ts[i := Trying]"
  | (blocks) i where "i < length ts" "ts ! i = Committed" "\<not> p_readable p" "p' = p" "ts' = ts[i := Asleep]"
  | (again) i r where "i < length ts" "ts ! i = Finished r" "p' = p" "ts' = ts[i := Trying]"
  | (writing) "p_writer_open p" "p_writer_open p'" "p_readable p'" "pipe_ok p'" "ts' = wake_all ts"
  | (closing) "p_writer_open p" "p' = pipe_drop write_end p" "ts' = wake_all ts"
proof -
  have empty: "min (buffer_len (fst sink)) (length (p_buffer p)) = 0 \<longleftrightarrow> p_buffer p = []"
    if "sink_ok pin sink" for pin sink using that by (auto simp: sink_ok_def min_def)
  show ?thesis
    using assms(1)
  proof (cases rule: pipe_step.cases)
    case (read_done i pin sink front r sink')
    then have s: "frames_ok pin (fst sink)" "buffer_ok (fst sink)" "0 < buffer_len (fst sink)" by (simp_all add: sink_ok_def)
    show ?thesis
      using assms(2) s refl
      by (cases rule: read_attempt_correct [where front = front and nb = False])
        (use read_done empty [of pin sink] data fault eof in auto)
  next
    case (read_commit i pin sink front sink')
    then have s: "frames_ok pin (fst sink)" "buffer_ok (fst sink)" "0 < buffer_len (fst sink)" by (simp_all add: sink_ok_def)
    show ?thesis
      using assms(2) s refl
      by (cases rule: read_attempt_correct [where front = front and nb = False])
        (use read_commit empty [of pin sink] commit in auto)
  next
    case (wait_returns i)
    then show ?thesis using returns by simp
  next
    case (wait_blocks i)
    then show ?thesis using blocks by simp
  next
    case (reads_again i r)
    then show ?thesis using again by simp
  next
    case (writes source pin m)
    have "pipe_ok p' \<and> p_buffer p' \<noteq> [] \<and> p_writer_open p' = p_writer_open p"
      using assms(2) writes(3,4) refl refl
      by (cases rule: write_attempt_correct [where pin = pin and nb = False])
        (use writes(5) in \<open>auto simp: io_bytes_def\<close>)
    then show ?thesis using writing writes by (auto simp: pipe_ok_def)
  next
    case closes
    then show ?thesis using closing by simp
  qed
qed

definition waits_ok :: "pipe \<times> reader list \<Rightarrow> bool" where
  \<comment> \<open>no reader sleeps while there are bytes; a single reader does not sleep after the close\<close>
  "waits_ok s = (case s of (p, ts) \<Rightarrow> pipe_ok p \<and> (Asleep \<in> set ts \<longrightarrow> p_buffer p = []) \<and>
     (length ts = 1 \<longrightarrow> \<not> p_writer_open p \<longrightarrow> Asleep \<notin> set ts \<and> (Committed \<in> set ts \<longrightarrow> p_readable p)))"

lemma wake_all_set: "Asleep \<notin> set (wake_all ts)" "length (wake_all ts) = length ts"
  by (auto simp: wake_all_def)

lemma single_thread: "length ts = 1 \<Longrightarrow> i < length ts \<Longrightarrow> ts[i := t] = [t]"
  by (cases ts) auto

lemma waits_step:
  assumes "waits_ok (p, ts)" "pipe_step (p, ts) (p', ts')"
  shows "waits_ok (p', ts')"
proof -
  have ok: "pipe_ok p" and empty: "Asleep \<in> set ts \<Longrightarrow> p_buffer p = []"
    and single: "length ts = 1 \<Longrightarrow> \<not> p_writer_open p \<Longrightarrow> Asleep \<notin> set ts \<and> (Committed \<in> set ts \<longrightarrow> p_readable p)"
    using assms(1) by (auto simp: waits_ok_def)
  have upd: "Asleep \<in> set (ts[i := t]) \<Longrightarrow> t = Asleep \<or> Asleep \<in> set ts" for i t
    using set_update_subset_insert by fastforce
  show ?thesis
    using assms(2) ok
  proof (cases rule: step_cases)
    case (data i k)
    then have "Asleep \<notin> set ts'" using upd [of i "Finished (Inr k)"] empty by auto
    then show ?thesis using data take_bytes_ok [OF ok] single_thread [of ts i] by (auto simp: waits_ok_def)
  next
    case (fault i)
    then have "Asleep \<notin> set ts'" using upd [of i "Finished (Inl Fault)"] empty by auto
    then show ?thesis using fault ok single_thread [of ts i] by (auto simp: waits_ok_def)
  next
    case (again i r)
    then have "Asleep \<in> set ts' \<Longrightarrow> p_buffer p = []" using upd [of i Trying] empty by auto
    then show ?thesis using again ok single_thread [of ts i] by (auto simp: waits_ok_def)
  next
    case (eof i)
    then show ?thesis using ok single_thread [of ts i] by (auto simp: waits_ok_def)
  next
    case (commit i)
    then show ?thesis using ok by (auto simp: waits_ok_def pipe_ok_def)
  next
    case (returns i)
    then have "Asleep \<in> set ts' \<Longrightarrow> p_buffer p = []" using upd [of i Trying] empty by auto
    then show ?thesis using returns ok single_thread [of ts i] by (auto simp: waits_ok_def)
  next
    case (blocks i)
    then have "p_buffer p = []" using ok by (auto simp: pipe_ok_def)
    moreover have "length ts = 1 \<Longrightarrow> p_writer_open p" using single blocks by (metis nth_mem)
    ultimately show ?thesis using blocks ok by (auto simp: waits_ok_def)
  next
    case writing
    then show ?thesis using wake_all_set [of ts] by (simp add: waits_ok_def)
  next
    case closing
    then show ?thesis
      using wake_all_set [of ts] pipe_drop_ok [OF ok, of write_end]
      by (simp add: waits_ok_def pipe_drop_def write_end_def)
  qed
qed

lemma step_length: "pipe_step (p, ts) (p', ts') \<Longrightarrow> length ts' = length ts"
  by (erule pipe_stepE) (simp_all add: wake_all_def)

text \<open>
  C26. However the reads of any threads, writes and the closing of the pipe interleave, no reader
  sleeps while the pipe holds bytes. When there is a single reader it also never sleeps after
  the writer has closed the pipe.
\<close>

theorem pipe_readers_woken:
  assumes "pipe_step\<^sup>*\<^sup>* (pipe_new, replicate n Trying) (p, ts)" "i < length ts" "ts ! i = Asleep"
  shows "p_buffer p = [] \<and> (n = 1 \<longrightarrow> p_writer_open p)"
proof -
  have inv: "waits_ok (p, ts) \<and> length ts = n"
    using assms(1)
  proof (induction rule: rtranclp_induct2)
    case refl
    show ?case using pipe_new_ok by (simp add: waits_ok_def pipe_new_def)
  next
    case (step p ts p' ts')
    then show ?case using waits_step step_length by metis
  qed
  have "Asleep \<in> set ts" using assms(2,3) by (metis nth_mem)
  then show ?thesis using inv by (simp add: waits_ok_def)
qed

definition waiting_pipe :: pipe where
  "waiting_pipe = \<lparr>p_buffer = [], p_reader_open = True, p_writer_open = True, p_readable = False, p_writable = True\<rparr>"

lemma commits: "i < length ts \<Longrightarrow> ts ! i = Trying \<Longrightarrow> pipe_step (pipe_new, ts) (waiting_pipe, ts[i := Committed])"
proof -
  assume i: "i < length ts" "ts ! i = Trying"
  obtain sink where "read_attempt no_user_pages 0 False pipe_new (kernel_sink 1) = Some (Sleeps, waiting_pipe, sink)"
    using kernel_read [OF pipe_new_ok, of 1 0 0] by (auto simp: pipe_new_def waiting_pipe_def)
  then show ?thesis using i by (intro read_commit [OF _ _ kernel_sink_usable [of 1]]) simp_all
qed

lemma waiting_blocks: "i < length ts \<Longrightarrow> ts ! i = Committed \<Longrightarrow> pipe_step (waiting_pipe, ts) (waiting_pipe, ts[i := Asleep])"
  by (rule wait_blocks) (simp_all add: waiting_pipe_def)

theorem pipe_readers_woken_witness:
  "\<exists>p. pipe_step\<^sup>*\<^sup>* (pipe_new, replicate 1 Trying) (p, [Asleep]) \<and> p_buffer p = [] \<and> p_writer_open p"
proof -
  have "pipe_step\<^sup>*\<^sup>* (pipe_new, replicate 1 Trying) (waiting_pipe, [Asleep])"
    using commits [of 0 "[Trying]"] waiting_blocks [of 0 "[Committed]"] by (auto intro: rtranclp_trans)
  then show ?thesis using pipe_readers_woken [of 1 waiting_pipe "[Asleep]" 0] by auto
qed

section \<open>A lost wake-up\<close>

lemma write_one:
  "write_attempt no_user_pages False waiting_pipe (KernelBuffer [7], \<lambda>a. 0) =
     Some (Returns (Inr 1), waiting_pipe\<lparr>p_buffer := [7], p_readable := True\<rparr>)"
proof -
  have "copy_loop no_user_pages (KernelBuffer [7], \<lambda>a. 0) 1 1 [7] = Some (Inr 1, [7])"
    by (subst copy_loop.simps) simp
  then have "copy_loop no_user_pages (KernelBuffer [7], \<lambda>a. 0) 1 0 [] = Some (Inr 1, [7])"
    by (subst copy_loop.simps)
      (simp add: io_window_def window_length_def copy_to_slice_def assert_that_def)
  then show ?thesis
    by (simp add: write_attempt_def waiting_pipe_def PIPE_CAPACITY_def PIPE_ATOMIC_LIMIT_def)
qed

definition dead_pipe :: pipe where
  "dead_pipe = \<lparr>p_buffer = [], p_reader_open = True, p_writer_open = False, p_readable = False, p_writable = True\<rparr>"

lemma drains:
  "pipe_step (pipe_drop write_end (waiting_pipe\<lparr>p_buffer := [7], p_readable := True\<rparr>), [Committed, Trying])
     (dead_pipe, [Committed, Finished (Inr 1)])"
proof -
  let ?p = "pipe_drop write_end (waiting_pipe\<lparr>p_buffer := [7], p_readable := True\<rparr>)"
  have p: "p_buffer ?p = [7]" "pipe_ok ?p"
    by (simp_all add: pipe_drop_def write_end_def waiting_pipe_def pipe_ok_def PIPE_CAPACITY_def)
  obtain sink where "read_attempt no_user_pages 0 False ?p (kernel_sink 1) = Some (Returns (Inr 1), take_bytes ?p 1, sink)"
    using kernel_read [OF p(2), of 1 1 0] p(1) by auto
  then have "pipe_step (?p, [Committed, Trying]) (take_bytes ?p 1, [Committed, Trying][1 := Finished (Inr 1)])"
    by (intro read_done [OF _ _ kernel_sink_usable [of 1]]) simp_all
  moreover have "take_bytes ?p 1 = dead_pipe"
    by (simp add: take_bytes_def pipe_drop_def write_end_def waiting_pipe_def dead_pipe_def)
  ultimately show ?thesis by simp
qed

lemma dead_stays: "pipe_step\<^sup>*\<^sup>* (dead_pipe, Asleep # us) (p, ts) \<Longrightarrow> p = dead_pipe \<and> (\<exists>vs. ts = Asleep # vs)"
proof (induction rule: rtranclp_induct2)
  case (step p ts p' ts')
  obtain vs where ts: "ts = Asleep # vs" "p = dead_pipe" using step by blast
  have "pipe_step (dead_pipe, Asleep # vs) (p', ts')" "pipe_ok dead_pipe"
    using step(2) ts by (simp_all add: pipe_ok_def dead_pipe_def)
  then show ?case
    by (cases rule: step_cases) (auto simp: dead_pipe_def nth_Cons split: nat.splits)
qed simp

text \<open>
  C27. With two readers a wake-up can be lost. A reader finds the pipe empty and releases the
  mutex; before it waits, a writer writes and closes the pipe and the other reader takes the
  bytes, which resets the event although the writer is gone. The first reader then sleeps, and
  in every continuation it sleeps forever instead of returning the end of the file.
\<close>

theorem pipe_wakeup_lost:
  "\<exists>p. pipe_step\<^sup>*\<^sup>* (pipe_new, [Trying, Trying]) (p, [Asleep, Finished (Inr 1)]) \<and>
     p_buffer p = [] \<and> \<not> p_writer_open p \<and>
     (\<forall>p' ts. pipe_step\<^sup>*\<^sup>* (p, [Asleep, Finished (Inr 1)]) (p', ts) \<longrightarrow> ts ! 0 = Asleep)"
proof -
  let ?q = "waiting_pipe\<lparr>p_buffer := [7], p_readable := True\<rparr>"
  have "pipe_step (pipe_new, [Trying, Trying]) (waiting_pipe, [Committed, Trying])"
    using commits [of 0 "[Trying, Trying]"] by simp
  moreover have "pipe_step (waiting_pipe, [Committed, Trying]) (?q, [Committed, Trying])"
    using writes [OF _ _ _ write_one, of "[Committed, Trying]"] by (simp add: waiting_pipe_def wake_all_def)
  moreover have "pipe_step (?q, [Committed, Trying]) (pipe_drop write_end ?q, [Committed, Trying])"
    using closes [of ?q "[Committed, Trying]"] by (simp add: waiting_pipe_def wake_all_def)
  moreover have "pipe_step (dead_pipe, [Committed, Finished (Inr 1)]) (dead_pipe, [Asleep, Finished (Inr 1)])"
    using wait_blocks [of 0 "[Committed, Finished (Inr 1)]" dead_pipe] by (simp add: dead_pipe_def)
  ultimately have "pipe_step\<^sup>*\<^sup>* (pipe_new, [Trying, Trying]) (dead_pipe, [Asleep, Finished (Inr 1)])"
    using drains by (meson converse_rtranclp_into_rtranclp rtranclp.rtrancl_refl)
  moreover have "\<forall>p' ts. pipe_step\<^sup>*\<^sup>* (dead_pipe, [Asleep, Finished (Inr 1)]) (p', ts) \<longrightarrow> ts ! 0 = Asleep"
    using dead_stays by fastforce
  ultimately show ?thesis by (intro exI [of _ dead_pipe]) (simp add: dead_pipe_def)
qed

theorem pipe_wakeup_lost_witness:
  "\<exists>p. pipe_step\<^sup>*\<^sup>* (pipe_new, [Trying, Trying]) (p, [Asleep, Finished (Inr 1)]) \<and> \<not> p_writer_open p"
  using pipe_wakeup_lost by blast

end
