(* ===== verification/Protocol.thy ===== *)
theory Protocol
  imports Prelude
begin

text \<open>
  Protocols of threads that share a state. A protocol is a step relation for each thread; a run
  of the system takes the steps of any threads in any order. The locale \<open>protocol\<close> states what it
  takes for a property to hold in every reachable state, and is interpreted by every lock and
  every lock-free structure of the development.
\<close>

definition any_thread :: "(nat \<Rightarrow> 's \<Rightarrow> 's \<Rightarrow> bool) \<Rightarrow> 's \<Rightarrow> 's \<Rightarrow> bool" where
  "any_thread step s s' \<longleftrightarrow> (\<exists>t. step t s s')"

definition reaches :: "(nat \<Rightarrow> 's \<Rightarrow> 's \<Rightarrow> bool) \<Rightarrow> 's \<Rightarrow> 's \<Rightarrow> bool" where
  "reaches step = (any_thread step)\<^sup>*\<^sup>*"

lemma reaches_refl [simp, intro]: "reaches step s s"
  by (simp add: reaches_def)

lemma reaches_step: "reaches step a s \<Longrightarrow> step t s s' \<Longrightarrow> reaches step a s'"
  unfolding reaches_def by (rule rtranclp.rtrancl_into_rtrancl) (auto simp: any_thread_def)

lemma reaches_trans: "reaches step a b \<Longrightarrow> reaches step b c \<Longrightarrow> reaches step a c"
  unfolding reaches_def by (rule rtranclp_trans)

lemma reaches_keeps:
  assumes "reaches step s s'" "I s" "\<And>t a b. I a \<Longrightarrow> step t a b \<Longrightarrow> I b"
  shows "I s'"
  using assms(1,2) unfolding reaches_def
proof (induction rule: rtranclp_induct)
  case (step y z)
  then show ?case using assms(3) by (auto simp: any_thread_def)
qed

locale protocol =
  fixes step :: "nat \<Rightarrow> 's \<Rightarrow> 's \<Rightarrow> bool" and start :: 's and inv :: "'s \<Rightarrow> bool"
  assumes inv_start: "inv start"
    and inv_step: "inv s \<Longrightarrow> step t s s' \<Longrightarrow> inv s'"
begin

lemma inv_from: "reaches step s s' \<Longrightarrow> inv s \<Longrightarrow> inv s'"
  by (erule reaches_keeps) (assumption, rule inv_step)

lemma inv_reachable: "reaches step start s \<Longrightarrow> inv s"
  by (rule inv_from [OF _ inv_start])

end

end
