(* ===== verification/Mutex.thy ===== *)
theory Mutex
  imports Protocol
begin

text \<open>
  Model of the sleeping mutex of \<open>kernel/src/sys/sync.rs\<close>. The protocol is a step relation: a
  step is one access of a thread to the shared state (the state word, the owner, the wait queue
  under its spin lock), so that every interleaving of the lock and unlock paths is a run. The
  program counter of a thread says where it is in the code. A failed assertion of the code is
  the counter \<open>Panicked\<close>. The scheduler is used as its parking handshake promises: a parked
  thread runs again exactly when it is woken with the sequence number of this park. The path of
  a thread that is woken without a grant is modelled, but under this promise no run takes it.
  The assertions on the queue, on the state word and on the wake-ups are modelled, those on the
  interrupt context of the caller are not. The lending
  of priorities to the holder does not change the protocol and is left out.

  The lemmas show that the invariant below holds in every reachable state, from which follow
  mutual exclusion, that no assertion fails, and that no wake-up is lost.
\<close>

section \<open>The protocol\<close>

datatype pc =
    Idle                 \<comment> \<open>outside of the lock\<close>
  | Fast bool            \<comment> \<open>before the compare-exchange of the fast path; the flag: \<open>try_lock\<close>\<close>
  | Publish              \<comment> \<open>won the compare-exchange, owner not yet published\<close>
  | Slow                 \<comment> \<open>in \<open>lock_slow\<close>, without the queue lock\<close>
  | Entered              \<comment> \<open>holds the queue lock\<close>
  | Inspect bool bool    \<comment> \<open>has loaded the state word: locked, queued\<close>
  | Won                  \<comment> \<open>took the free mutex under the queue lock\<close>
  | Pushed               \<comment> \<open>linked into the queue, queue bit not yet set\<close>
  | Lending              \<comment> \<open>queue bit set on a locked mutex\<close>
  | Claim                \<comment> \<open>queue bit set on a mutex that was unlocked meanwhile\<close>
  | Parked               \<comment> \<open>asleep, or about to be\<close>
  | Retract              \<comment> \<open>woken without having been granted the mutex\<close>
  | Holding              \<comment> \<open>has the guard\<close>
  | Releasing            \<comment> \<open>has cleared the owner\<close>
  | Contended            \<comment> \<open>the compare-exchange of the fast release failed\<close>
  | Handing              \<comment> \<open>holds the queue lock to hand the mutex over\<close>
  | Waking nat           \<comment> \<open>about to wake the new owner\<close>
  | Panicked

record mutex =
  mx_locked :: bool
  mx_queued :: bool
  mx_owner :: "nat option"
  mx_waiters :: "nat list option"
  mx_queue_lock :: "nat option"
  mx_granted :: "nat \<Rightarrow> bool"
  mx_woken :: "nat \<Rightarrow> bool"
  mx_pc :: "nat \<Rightarrow> pc"

definition mutex_new :: mutex where
  "mutex_new = \<lparr>mx_locked = False, mx_queued = False, mx_owner = None, mx_waiters = None,
     mx_queue_lock = None, mx_granted = (\<lambda>t. False), mx_woken = (\<lambda>t. False), mx_pc = (\<lambda>t. Idle)\<rparr>"

definition goto :: "nat \<Rightarrow> pc \<Rightarrow> mutex \<Rightarrow> mutex" where
  "goto t p m = m\<lparr>mx_pc := (mx_pc m)(t := p)\<rparr>"

definition queue_of :: "mutex \<Rightarrow> nat list" where
  "queue_of m = (case mx_waiters m of None \<Rightarrow> [] | Some ws \<Rightarrow> ws)"

definition hand_over :: "nat \<Rightarrow> mutex \<Rightarrow> mutex" where
  \<comment> \<open>the contended release under the queue lock\<close>
  "hand_over t m =
     (case queue_of m of
        [] \<Rightarrow> goto t Panicked m
      | w # ws \<Rightarrow> goto t (Waking w) (m\<lparr>mx_owner := Some w, mx_granted := (mx_granted m)(w := True),
          mx_locked := True, mx_queued := (ws \<noteq> []), mx_waiters := (if ws = [] then None else Some ws),
          mx_queue_lock := None\<rparr>))"

definition retract :: "nat \<Rightarrow> mutex \<Rightarrow> mutex" where
  \<comment> \<open>a thread that was woken without a grant leaves the queue\<close>
  "retract t m =
     (if t \<in> set (queue_of m) \<and> removeAll t (queue_of m) = []
      then m\<lparr>mx_waiters := None, mx_queued := False\<rparr>
      else m\<lparr>mx_waiters := map_option (removeAll t) (mx_waiters m)\<rparr>)"

inductive mutex_step :: "nat \<Rightarrow> mutex \<Rightarrow> mutex \<Rightarrow> bool" for t where
  \<comment> \<open>one step of the thread\<close>
  lock_call: "mx_pc m t = Idle \<Longrightarrow> mutex_step t m (goto t (Fast False) m)"
| try_lock_call: "mx_pc m t = Idle \<Longrightarrow> mutex_step t m (goto t (Fast True) m)"
| fast_wins: "mx_pc m t \<in> {Fast once, Slow} \<Longrightarrow> \<not> mx_locked m \<Longrightarrow> \<not> mx_queued m \<Longrightarrow>
    mutex_step t m (goto t Publish (m\<lparr>mx_locked := True\<rparr>))"
| fast_loses: "mx_pc m t = Fast once \<Longrightarrow> mx_locked m \<or> mx_queued m \<Longrightarrow>
    mutex_step t m (goto t (if once then Idle else Slow) m)"
| publish: "mx_pc m t = Publish \<Longrightarrow> mutex_step t m (goto t Holding (m\<lparr>mx_owner := Some t\<rparr>))"
| enter: "mx_pc m t = Slow \<Longrightarrow> mx_queue_lock m = None \<Longrightarrow>
    mutex_step t m (goto t Entered (m\<lparr>mx_queue_lock := Some t\<rparr>))"
| load: "mx_pc m t = Entered \<Longrightarrow> mutex_step t m (goto t (Inspect (mx_locked m) (mx_queued m)) m)"
| free_queue: "mx_pc m t = Inspect False q \<Longrightarrow> queue_of m \<noteq> [] \<Longrightarrow> mutex_step t m (goto t Panicked m)"
| free_wins: "mx_pc m t = Inspect False q \<Longrightarrow> queue_of m = [] \<Longrightarrow> \<not> mx_locked m \<Longrightarrow> mx_queued m = q \<Longrightarrow>
    mutex_step t m (goto t Won (m\<lparr>mx_locked := True, mx_queued := False\<rparr>))"
| free_loses: "mx_pc m t = Inspect False q \<Longrightarrow> queue_of m = [] \<Longrightarrow> mx_locked m \<or> mx_queued m \<noteq> q \<Longrightarrow>
    mutex_step t m (goto t Slow (m\<lparr>mx_queue_lock := None\<rparr>))"
| won: "mx_pc m t = Won \<Longrightarrow>
    mutex_step t m (goto t Holding (m\<lparr>mx_waiters := None, mx_owner := Some t, mx_queue_lock := None\<rparr>))"
| cannot_park: "mx_pc m t = Inspect True q \<Longrightarrow> mutex_step t m (goto t Slow (m\<lparr>mx_queue_lock := None\<rparr>))"
| push: "mx_pc m t = Inspect True q \<Longrightarrow>
    mutex_step t m (goto t Pushed (m\<lparr>mx_waiters := Some (queue_of m @ [t]),
      mx_granted := (mx_granted m)(t := False), mx_woken := (mx_woken m)(t := False)\<rparr>))"
| announce: "mx_pc m t = Pushed \<Longrightarrow>
    mutex_step t m (goto t (if mx_locked m then Lending else Claim) (m\<lparr>mx_queued := True\<rparr>))"
| claim: "mx_pc m t = Claim \<Longrightarrow> mx_waiters m = Some [t] \<Longrightarrow> \<not> mx_woken m t \<Longrightarrow>
    mutex_step t m (goto t Holding (m\<lparr>mx_waiters := None, mx_locked := True, mx_queued := False,
      mx_owner := Some t, mx_queue_lock := None\<rparr>))"
| claim_fails: "mx_pc m t = Claim \<Longrightarrow> mx_waiters m \<noteq> Some [t] \<or> mx_woken m t \<Longrightarrow> mutex_step t m (goto t Panicked m)"
| park: "mx_pc m t = Lending \<Longrightarrow> mutex_step t m (goto t Parked (m\<lparr>mx_queue_lock := None\<rparr>))"
| resume: "mx_pc m t = Parked \<Longrightarrow> mx_woken m t \<Longrightarrow>
    mutex_step t m (goto t (if mx_granted m t then Holding else Retract) m)"
| retracts: "mx_pc m t = Retract \<Longrightarrow> mx_queue_lock m = None \<Longrightarrow> mutex_step t m (goto t Slow (retract t m))"
| unlock_call: "mx_pc m t = Holding \<Longrightarrow> mutex_step t m (goto t Releasing (m\<lparr>mx_owner := None\<rparr>))"
| release: "mx_pc m t = Releasing \<Longrightarrow> mx_locked m \<Longrightarrow> \<not> mx_queued m \<Longrightarrow>
    mutex_step t m (goto t Idle (m\<lparr>mx_locked := False\<rparr>))"
| release_fails: "mx_pc m t = Releasing \<Longrightarrow> \<not> mx_locked m \<or> mx_queued m \<Longrightarrow> mutex_step t m (goto t Contended m)"
| contend: "mx_pc m t = Contended \<Longrightarrow> mx_queue_lock m = None \<Longrightarrow>
    mutex_step t m (goto t Handing (m\<lparr>mx_queue_lock := Some t\<rparr>))"
| hand: "mx_pc m t = Handing \<Longrightarrow> mutex_step t m (hand_over t m)"
| wake: "mx_pc m t = Waking w \<Longrightarrow> mx_pc m w = Parked \<Longrightarrow> \<not> mx_woken m w \<Longrightarrow>
    mutex_step t m (goto t Idle (m\<lparr>mx_woken := (mx_woken m)(w := True)\<rparr>))"
| wake_fails: "mx_pc m t = Waking w \<Longrightarrow> mx_pc m w \<noteq> Parked \<or> mx_woken m w \<Longrightarrow> mutex_step t m (goto t Panicked m)"

lemmas mutex_run = reaches_step [of mutex_step]

section \<open>The invariant\<close>

fun owning :: "pc \<Rightarrow> bool" where
  "owning p = (p \<in> {Publish, Won, Holding, Releasing, Contended, Handing})"

fun in_queue_lock :: "pc \<Rightarrow> bool" where
  "in_queue_lock (Inspect l q) = True"
| "in_queue_lock p = (p \<in> {Entered, Won, Pushed, Lending, Claim, Handing})"

definition owns :: "mutex \<Rightarrow> nat \<Rightarrow> bool" where
  "owns m t \<longleftrightarrow> owning (mx_pc m t) \<or> mx_pc m t = Parked \<and> mx_granted m t"

definition waits :: "mutex \<Rightarrow> nat \<Rightarrow> bool" where
  "waits m t \<longleftrightarrow> mx_pc m t = Parked \<and> \<not> mx_granted m t \<or> mx_pc m t = Lending"

definition exclusive :: "mutex \<Rightarrow> nat option \<Rightarrow> bool" where
  "exclusive m h \<longleftrightarrow> (\<forall>t. owns m t \<longleftrightarrow> h = Some t) \<and> (mx_locked m \<longleftrightarrow> h \<noteq> None) \<and>
     (\<forall>t. h = Some t \<longrightarrow> mx_pc m t \<in> {Holding, Parked} \<longrightarrow> mx_owner m = h)"

definition queue_lock_ok :: "mutex \<Rightarrow> bool" where
  "queue_lock_ok m \<longleftrightarrow> (\<forall>t. in_queue_lock (mx_pc m t) \<longleftrightarrow> mx_queue_lock m = Some t)"

definition queue_ok :: "mutex \<Rightarrow> bool" where
  "queue_ok m \<longleftrightarrow> distinct (queue_of m) \<and>
     (\<forall>t. t \<in> set (queue_of m) \<longleftrightarrow> waits m t \<or> mx_pc m t \<in> {Pushed, Claim}) \<and>
     (\<forall>t. waits m t \<longrightarrow> mx_queued m \<and> mx_locked m) \<and>
     (\<forall>t. mx_pc m t = Claim \<longrightarrow> mx_queued m \<and> \<not> mx_locked m) \<and>
     (mx_queued m \<longrightarrow> queue_of m \<noteq> []) \<and>
     (\<forall>t. mx_pc m t = Pushed \<longrightarrow> mx_queued m \<longrightarrow> queue_of m \<noteq> [t]) \<and>
     (\<forall>t q. mx_pc m t = Inspect False q \<longrightarrow> queue_of m = []) \<and>
     (\<forall>t. mx_pc m t = Won \<longrightarrow> queue_of m = []) \<and>
     (\<forall>t. mx_pc m t \<in> {Contended, Handing} \<longrightarrow> mx_queued m)"

definition pending :: "mutex \<Rightarrow> nat \<Rightarrow> bool" where
  \<comment> \<open>the thread owns the mutex but has not been woken yet\<close>
  "pending m t \<longleftrightarrow> mx_pc m t = Parked \<and> mx_granted m t \<and> \<not> mx_woken m t"

definition wake_ok :: "mutex \<Rightarrow> bool" where
  "wake_ok m \<longleftrightarrow>
     (\<forall>t w. mx_pc m t = Waking w \<longrightarrow> pending m w) \<and>
     (\<forall>t u w. mx_pc m t = Waking w \<longrightarrow> mx_pc m u = Waking w \<longrightarrow> t = u) \<and>
     (\<forall>t. pending m t \<longrightarrow> (\<exists>u. mx_pc m u = Waking t)) \<and>
     (\<forall>t. mx_pc m t = Parked \<longrightarrow> mx_woken m t \<longrightarrow> mx_granted m t) \<and>
     (\<forall>t. mx_pc m t \<in> {Pushed, Lending, Claim} \<longrightarrow> \<not> mx_granted m t \<and> \<not> mx_woken m t)"

definition mutex_inv :: "mutex \<Rightarrow> nat option \<Rightarrow> bool" where
  "mutex_inv m h \<longleftrightarrow> exclusive m h \<and> queue_lock_ok m \<and> queue_ok m \<and> wake_ok m \<and>
     (\<forall>t. mx_pc m t \<notin> {Panicked, Retract})"

lemma mutex_new_inv: "mutex_inv mutex_new None"
  by (simp add: mutex_inv_def mutex_new_def exclusive_def queue_lock_ok_def queue_ok_def wake_ok_def
      owns_def waits_def queue_of_def pending_def)

section \<open>Preservation\<close>

lemma goto_fields [simp]:
  "mx_pc (goto t p m) u = (if u = t then p else mx_pc m u)" "mx_locked (goto t p m) = mx_locked m"
  "mx_queued (goto t p m) = mx_queued m" "mx_owner (goto t p m) = mx_owner m"
  "mx_waiters (goto t p m) = mx_waiters m" "mx_queue_lock (goto t p m) = mx_queue_lock m"
  "mx_granted (goto t p m) = mx_granted m" "mx_woken (goto t p m) = mx_woken m"
  by (simp_all add: goto_def)

lemma queue_of_fields [simp]:
  "queue_of (goto t p m) = queue_of m" "queue_of (m\<lparr>mx_locked := l\<rparr>) = queue_of m"
  "queue_of (m\<lparr>mx_queued := q\<rparr>) = queue_of m" "queue_of (m\<lparr>mx_owner := x\<rparr>) = queue_of m"
  "queue_of (m\<lparr>mx_queue_lock := x\<rparr>) = queue_of m" "queue_of (m\<lparr>mx_granted := g\<rparr>) = queue_of m"
  "queue_of (m\<lparr>mx_woken := g\<rparr>) = queue_of m"
  "queue_of (m\<lparr>mx_waiters := ws\<rparr>) = (case ws of None \<Rightarrow> [] | Some ws \<Rightarrow> ws)"
  by (simp_all add: queue_of_def)

lemma owns_fields [simp]:
  "owns (goto t p m) u = (if u = t then owning p \<or> p = Parked \<and> mx_granted m t else owns m u)"
  "owns (m\<lparr>mx_locked := l\<rparr>) u = owns m u" "owns (m\<lparr>mx_queued := q\<rparr>) u = owns m u"
  "owns (m\<lparr>mx_owner := x\<rparr>) u = owns m u" "owns (m\<lparr>mx_queue_lock := x\<rparr>) u = owns m u"
  "owns (m\<lparr>mx_waiters := ws\<rparr>) u = owns m u" "owns (m\<lparr>mx_woken := g\<rparr>) u = owns m u"
  by (simp_all add: owns_def)

lemma waits_fields [simp]:
  "waits (goto t p m) u = (if u = t then p = Parked \<and> \<not> mx_granted m t \<or> p = Lending else waits m u)"
  "waits (m\<lparr>mx_locked := l\<rparr>) u = waits m u" "waits (m\<lparr>mx_queued := q\<rparr>) u = waits m u"
  "waits (m\<lparr>mx_owner := x\<rparr>) u = waits m u" "waits (m\<lparr>mx_queue_lock := x\<rparr>) u = waits m u"
  "waits (m\<lparr>mx_waiters := ws\<rparr>) u = waits m u" "waits (m\<lparr>mx_woken := g\<rparr>) u = waits m u"
  by (simp_all add: waits_def)

lemma owns_pc: "owns m t = (owning (mx_pc m t) \<or> mx_pc m t = Parked \<and> mx_granted m t)"
  by (auto simp: owns_def)

lemma waits_pc: "waits m t = (mx_pc m t = Parked \<and> \<not> mx_granted m t \<or> mx_pc m t = Lending)"
  by (auto simp: waits_def)

lemma grant_fields [simp]:
  "owns (m\<lparr>mx_granted := (mx_granted m)(w := b)\<rparr>) u =
     (if u = w then owning (mx_pc m w) \<or> mx_pc m w = Parked \<and> b else owns m u)"
  "waits (m\<lparr>mx_granted := (mx_granted m)(w := b)\<rparr>) u =
     (if u = w then mx_pc m w = Parked \<and> \<not> b \<or> mx_pc m w = Lending else waits m u)"
  by (simp_all add: owns_def waits_def)

lemma queue_update_cong [simp]:
  "owns (m\<lparr>mx_waiters := ws, mx_granted := g\<rparr>) u = owns (m\<lparr>mx_granted := g\<rparr>) u"
  "waits (m\<lparr>mx_waiters := ws, mx_granted := g\<rparr>) u = waits (m\<lparr>mx_granted := g\<rparr>) u"
  "owns (m\<lparr>mx_owner := x, mx_granted := g\<rparr>) u = owns (m\<lparr>mx_granted := g\<rparr>) u"
  "waits (m\<lparr>mx_owner := x, mx_granted := g\<rparr>) u = waits (m\<lparr>mx_granted := g\<rparr>) u"
  by (simp_all add: owns_def waits_def)

definition holder_after :: "nat \<Rightarrow> mutex \<Rightarrow> mutex \<Rightarrow> nat option \<Rightarrow> nat option" where
  \<comment> \<open>who owns the mutex after a step\<close>
  "holder_after t m m' h =
     (if mx_pc m t = Handing then Some (hd (queue_of m))
      else if owns m' t then Some t else if h = Some t then None else h)"

lemma inv_facts:
  assumes "mutex_inv m h"
  shows "\<And>t. owns m t \<longleftrightarrow> h = Some t" "mx_locked m \<longleftrightarrow> h \<noteq> None"
    "\<And>t. h = Some t \<Longrightarrow> mx_pc m t \<in> {Holding, Parked} \<Longrightarrow> mx_owner m = h"
    "\<And>t. in_queue_lock (mx_pc m t) \<longleftrightarrow> mx_queue_lock m = Some t"
    "distinct (queue_of m)" "\<And>t. t \<in> set (queue_of m) \<longleftrightarrow> waits m t \<or> mx_pc m t \<in> {Pushed, Claim}"
    "\<And>t. waits m t \<Longrightarrow> mx_queued m \<and> mx_locked m"
    "\<And>t. mx_pc m t = Claim \<Longrightarrow> mx_queued m \<and> \<not> mx_locked m"
    "mx_queued m \<Longrightarrow> queue_of m \<noteq> []"
    "\<And>t q. mx_pc m t = Inspect False q \<Longrightarrow> queue_of m = []" "\<And>t. mx_pc m t = Won \<Longrightarrow> queue_of m = []"
    "\<And>t. mx_pc m t \<in> {Contended, Handing} \<Longrightarrow> mx_queued m"
    "\<And>t w. mx_pc m t = Waking w \<Longrightarrow> pending m w"
    "\<And>t u w. mx_pc m t = Waking w \<Longrightarrow> mx_pc m u = Waking w \<Longrightarrow> t = u"
    "\<And>t. mx_pc m t = Parked \<Longrightarrow> mx_woken m t \<Longrightarrow> mx_granted m t"
    "\<And>t. pending m t \<Longrightarrow> \<exists>u. mx_pc m u = Waking t"
    "\<And>t. mx_pc m t \<in> {Pushed, Lending, Claim} \<Longrightarrow> \<not> mx_granted m t \<and> \<not> mx_woken m t"
    "\<And>t. mx_pc m t \<noteq> Panicked" "\<And>t. mx_pc m t \<noteq> Retract"
    "\<And>t. mx_pc m t = Pushed \<Longrightarrow> mx_queued m \<Longrightarrow> queue_of m \<noteq> [t]"
proof -
  have parts: "exclusive m h" "queue_lock_ok m" "queue_ok m" "wake_ok m" "\<And>t. mx_pc m t \<notin> {Panicked, Retract}"
    using assms by (simp_all add: mutex_inv_def)
  show "\<And>t. owns m t \<longleftrightarrow> h = Some t" "mx_locked m \<longleftrightarrow> h \<noteq> None"
    "\<And>t. h = Some t \<Longrightarrow> mx_pc m t \<in> {Holding, Parked} \<Longrightarrow> mx_owner m = h"
    using parts(1) unfolding exclusive_def by blast+
  show "\<And>t. in_queue_lock (mx_pc m t) \<longleftrightarrow> mx_queue_lock m = Some t"
    using parts(2) unfolding queue_lock_ok_def by blast
  show "distinct (queue_of m)" "\<And>t. t \<in> set (queue_of m) \<longleftrightarrow> waits m t \<or> mx_pc m t \<in> {Pushed, Claim}"
    "\<And>t. waits m t \<Longrightarrow> mx_queued m \<and> mx_locked m"
    "\<And>t. mx_pc m t = Claim \<Longrightarrow> mx_queued m \<and> \<not> mx_locked m"
    "mx_queued m \<Longrightarrow> queue_of m \<noteq> []"
    "\<And>t q. mx_pc m t = Inspect False q \<Longrightarrow> queue_of m = []" "\<And>t. mx_pc m t = Won \<Longrightarrow> queue_of m = []"
    "\<And>t. mx_pc m t \<in> {Contended, Handing} \<Longrightarrow> mx_queued m"
    "\<And>t. mx_pc m t = Pushed \<Longrightarrow> mx_queued m \<Longrightarrow> queue_of m \<noteq> [t]"
    using parts(3) unfolding queue_ok_def by iprover+
  show "\<And>t w. mx_pc m t = Waking w \<Longrightarrow> pending m w"
    "\<And>t u w. mx_pc m t = Waking w \<Longrightarrow> mx_pc m u = Waking w \<Longrightarrow> t = u"
    "\<And>t. mx_pc m t = Parked \<Longrightarrow> mx_woken m t \<Longrightarrow> mx_granted m t"
    "\<And>t. pending m t \<Longrightarrow> \<exists>u. mx_pc m u = Waking t"
    "\<And>t. mx_pc m t \<in> {Pushed, Lending, Claim} \<Longrightarrow> \<not> mx_granted m t \<and> \<not> mx_woken m t"
    using parts(4) unfolding wake_ok_def by iprover+
  show "\<And>t. mx_pc m t \<noteq> Panicked" "\<And>t. mx_pc m t \<noteq> Retract" using parts(5) by blast+
qed

lemma handing_queue:
  assumes "mutex_inv m h" "mx_pc m t = Handing"
  obtains w ws where "queue_of m = w # ws" "w \<noteq> t" "mx_pc m w = Parked" "\<not> mx_granted m w"
    "\<not> mx_woken m w" "w \<notin> set ws" "\<And>x. x \<in> set ws \<longleftrightarrow> waits m x \<and> x \<noteq> w"
    "\<And>x. mx_pc m x \<notin> {Pushed, Claim, Lending}"
proof -
  note I = inv_facts [OF assms(1)]
  have "mx_queue_lock m = Some t" using I(4) [of t] assms(2) by simp
  then have lock: "in_queue_lock (mx_pc m x) \<Longrightarrow> mx_pc m x = Handing" for x using I(4) [of x] assms(2) by simp
  have none: "mx_pc m x \<notin> {Pushed, Claim, Lending}" for x using lock [of x] by auto
  have "queue_of m \<noteq> []" using I(9) I(12) [of t] assms(2) by simp
  then obtain w ws where q: "queue_of m = w # ws" by (cases "queue_of m") auto
  have w: "waits m w" using I(6) [of w] q none [of w] by auto
  then have "mx_pc m w = Parked" "\<not> mx_granted m w" using none [of w] by (auto simp: waits_def)
  moreover have "x \<in> set ws \<longleftrightarrow> waits m x \<and> x \<noteq> w" for x using I(5) I(6) [of x] none [of x] q by auto
  moreover have "w \<noteq> t" using \<open>mx_pc m w = Parked\<close> assms(2) by auto
  moreover have "\<not> mx_woken m w" using I(15) [of w] calculation(1,2) by blast
  moreover have "w \<notin> set ws" using I(5) q by simp
  ultimately show ?thesis using that [OF q] none by blast
qed

lemma lock_holder:
  assumes "mutex_inv m h" "in_queue_lock (mx_pc m t)" "in_queue_lock (mx_pc m u)"
  shows "u = t"
  using inv_facts(4) [OF assms(1)] assms(2,3) by (metis option.inject)

lemma claim_queue:
  assumes "mutex_inv m h" "mx_pc m t = Claim"
  shows "mx_waiters m = Some [t]" "\<not> mx_woken m t"
proof -
  note I = inv_facts [OF assms(1)]
  show "\<not> mx_woken m t" using I(17) [of t] assms(2) by simp
  have "\<not> waits m x" for x using I(7) [of x] I(8) [of t] assms(2) by blast
  moreover have "mx_pc m x \<in> {Pushed, Claim} \<longleftrightarrow> x = t" for x using lock_holder [OF assms(1), of t x] assms(2) by auto
  ultimately have "set (queue_of m) = {t}" using I(6) by auto
  then have "queue_of m = [t]" using I(5) by (cases "queue_of m" rule: list.exhaust; cases "tl (queue_of m)") auto
  then show "mx_waiters m = Some [t]" by (simp add: queue_of_def split: option.splits)
qed

lemma step_exclusive:
  assumes "mutex_step t m m'" "mutex_inv m h"
  shows "exclusive m' (holder_after t m m' h)"
proof -
  note I = inv_facts [OF assms(2)]
  have X: "\<not> (mx_pc m t = Claim \<and> mx_locked m)" "\<not> (mx_pc m t = Lending \<and> mx_granted m t)"
    "mx_pc m t \<noteq> Retract" "mx_pc m t = Parked \<Longrightarrow> mx_woken m t \<Longrightarrow> mx_granted m t"
    using I(8,15,17,19) by auto
  show ?thesis
    using assms(1)
  proof cases
    case hand
    show ?thesis
      using assms(2) hand(2)
    proof (cases rule: handing_queue)
      case (1 w ws)
      have "h = Some t" "mx_locked m" using I(1) [of t] I(2) owns_pc [of m t] hand(2) by simp_all
      then show ?thesis
        using hand I(1) 1(1-4) by (simp add: exclusive_def holder_after_def hand_over_def)
    qed
  qed (use X I(1,2,3) owns_pc [of m t] in \<open>auto simp: exclusive_def holder_after_def\<close>)
qed

lemma step_queue_lock:
  assumes "mutex_step t m m'" "mutex_inv m h"
  shows "queue_lock_ok m'"
proof -
  have L: "\<And>t. in_queue_lock (mx_pc m t) \<longleftrightarrow> mx_queue_lock m = Some t" and R: "mx_pc m t \<noteq> Retract"
    using inv_facts [OF assms(2)] by auto
  have T: "in_queue_lock (mx_pc m t) \<longleftrightarrow> mx_queue_lock m = Some t" by (rule L)
  have Q: "\<And>q. mx_pc m t = Inspect False q \<Longrightarrow> queue_of m = []" "mx_pc m t = Claim \<Longrightarrow> mx_waiters m = Some [t] \<and> \<not> mx_woken m t"
    using inv_facts(10) [OF assms(2)] claim_queue [OF assms(2)] by blast+
  show ?thesis
    using assms(1)
  proof cases
    case hand
    show ?thesis
      using assms(2) hand(2)
      by (cases rule: handing_queue) (use hand L T in \<open>simp add: queue_lock_ok_def hand_over_def\<close>)
  next
    case (fast_wins once)
    then have "\<not> in_queue_lock (mx_pc m t)" by auto
    then show ?thesis using fast_wins L by (auto simp: queue_lock_ok_def)
  qed (use L T R Q in \<open>auto simp: queue_lock_ok_def\<close>)
qed

lemma step_alive:
  assumes "mutex_step t m m'" "mutex_inv m h"
  shows "mx_pc m' u \<notin> {Panicked, Retract}"
proof -
  note I = inv_facts [OF assms(2)]
  have R: "mx_pc m u \<noteq> Panicked" "mx_pc m u \<noteq> Retract" "mx_pc m t \<noteq> Retract" by (rule I)+
  have P: "mx_pc m t = Parked \<Longrightarrow> mx_woken m t \<Longrightarrow> mx_granted m t" by (rule I)
  show ?thesis
    using assms(1)
  proof cases
    case (free_queue q)
    then show ?thesis using I(10) by auto
  next
    case claim_fails
    then show ?thesis using claim_queue [OF assms(2)] by simp
  next
    case hand
    show ?thesis using assms(2) hand(2) by (cases rule: handing_queue) (use R hand in \<open>simp add: hand_over_def\<close>)
  next
    case (wake_fails w)
    then show ?thesis using I(13) [of t w] by (auto simp: pending_def)
  qed (use R P in \<open>auto simp: hand_over_def\<close>)
qed

lemma lock_excludes:
  assumes "mutex_inv m h" "in_queue_lock (mx_pc m t)" "u \<noteq> t"
  shows "mx_pc m u \<noteq> Entered" "mx_pc m u \<noteq> Inspect l q" "mx_pc m u \<noteq> Won" "mx_pc m u \<noteq> Pushed"
    "mx_pc m u \<noteq> Lending" "mx_pc m u \<noteq> Claim" "mx_pc m u \<noteq> Handing"
proof -
  have "\<not> in_queue_lock (mx_pc m u)" using lock_holder [OF assms(1,2)] assms(3) by blast
  then show "mx_pc m u \<noteq> Entered" "mx_pc m u \<noteq> Inspect l q" "mx_pc m u \<noteq> Won" "mx_pc m u \<noteq> Pushed"
    "mx_pc m u \<noteq> Lending" "mx_pc m u \<noteq> Claim" "mx_pc m u \<noteq> Handing" by auto
qed

lemma step_queue:
  assumes "mutex_step t m m'" "mutex_inv m h"
  shows "queue_ok m'"
proof -
  note I = inv_facts [OF assms(2)]
  have T: "waits m t = (mx_pc m t = Parked \<and> \<not> mx_granted m t \<or> mx_pc m t = Lending)" by (rule waits_pc)
  have R: "mx_pc m t \<noteq> Retract" by (rule I)
  have D: "\<And>u. mx_pc m u = Contended \<Longrightarrow> mx_queued m" "\<And>u. mx_pc m u = Handing \<Longrightarrow> mx_queued m"
    using I(12) by auto
  have U: "\<not> mx_locked m \<Longrightarrow> mx_pc m u \<noteq> Contended" "\<not> mx_locked m \<Longrightarrow> mx_pc m u \<noteq> Handing" for u
    using I(1) [of u] I(2) owns_pc [of m u] by auto
  note L = lock_excludes [OF assms(2), of t]
  have S: "mx_pc m t = Claim \<Longrightarrow> mx_waiters m = Some [t] \<and> \<not> mx_woken m t" "\<not> (mx_pc m t = Lending \<and> mx_granted m t)"
    "mx_pc m t = Parked \<Longrightarrow> mx_woken m t \<Longrightarrow> mx_granted m t" "mx_pc m t = Releasing \<Longrightarrow> mx_locked m"
    using claim_queue [OF assms(2)] I(15) [of t] I(17) [of t] I(1) [of t] I(2) owns_pc [of m t] by auto
  show ?thesis
    using assms(1)
  proof cases
    case load
    have "queue_of m = []" if "\<not> mx_locked m"
    proof -
      have "x \<notin> set (queue_of m)" for x using I(6,7) [of x] that L [of x] load T by (cases "x = t") auto
      then show ?thesis by (cases "queue_of m") auto
    qed
    then show ?thesis using load I(5,6,9) T by (auto simp: queue_ok_def dest: D I(7,8,10,11,20))
  next
    case (push q)
    then show ?thesis using I(5,6,9) T L by (auto simp: queue_ok_def dest: D I(7,8))
  next
    case announce
    then show ?thesis using I(5,6,9) T L by (auto simp: queue_ok_def dest: D I(7,8,10,11))
  next
    case claim
    then show ?thesis using I(5,6,9) T L U I(8) [of t] by (auto simp: queue_ok_def dest: D I(7,8,10,11))
  next
    case hand
    show ?thesis
      using assms(2) hand(2)
    proof (cases rule: handing_queue)
      case (1 w ws)
      have "distinct ws" using I(5) 1(1) by simp
      moreover have "\<not> waits m t" using T hand by simp
      moreover have "u \<noteq> t \<Longrightarrow> mx_pc m u \<noteq> Contended" for u
        using I(1) [of u] I(1) [of t] hand(2) owns_pc [of m u] owns_pc [of m t] by auto
      ultimately show ?thesis using hand(1) 1 L hand(2)
        by (auto simp: queue_ok_def hand_over_def)
    qed
  qed (use I(5,6,9) T R S in \<open>auto simp: queue_ok_def dest: D I(7,8,10,11,20)\<close>)
qed

lemma wake_okI:
  assumes "\<And>t w. mx_pc m t = Waking w \<Longrightarrow> pending m w"
    "\<And>t u w. mx_pc m t = Waking w \<Longrightarrow> mx_pc m u = Waking w \<Longrightarrow> t = u"
    "\<And>t. pending m t \<Longrightarrow> \<exists>u. mx_pc m u = Waking t"
    "\<And>t. mx_pc m t = Parked \<Longrightarrow> mx_woken m t \<Longrightarrow> mx_granted m t"
    "\<And>t. mx_pc m t \<in> {Pushed, Lending, Claim} \<Longrightarrow> \<not> mx_granted m t \<and> \<not> mx_woken m t"
  shows "wake_ok m"
proof -
  have "\<forall>t w. mx_pc m t = Waking w \<longrightarrow> pending m w" using assms(1) by blast
  moreover have "\<forall>t u w. mx_pc m t = Waking w \<longrightarrow> mx_pc m u = Waking w \<longrightarrow> t = u" using assms(2) by iprover
  moreover have "\<forall>t. pending m t \<longrightarrow> (\<exists>u. mx_pc m u = Waking t)" using assms(3) by blast
  moreover have "\<forall>t. mx_pc m t = Parked \<longrightarrow> mx_woken m t \<longrightarrow> mx_granted m t" using assms(4) by blast
  moreover have "\<forall>t. mx_pc m t \<in> {Pushed, Lending, Claim} \<longrightarrow> \<not> mx_granted m t \<and> \<not> mx_woken m t"
    using assms(5) by iprover
  ultimately show ?thesis unfolding wake_ok_def by (intro conjI)
qed

lemma wake_frame:
  assumes "wake_ok m" "\<And>u w. mx_pc m' u = Waking w \<longleftrightarrow> mx_pc m u = Waking w" "\<And>u. pending m' u = pending m u"
    "\<And>u. mx_pc m' u = Parked \<Longrightarrow> mx_woken m' u \<Longrightarrow> mx_granted m' u"
    "\<And>u. mx_pc m' u \<in> {Pushed, Lending, Claim} \<Longrightarrow> \<not> mx_granted m' u \<and> \<not> mx_woken m' u"
  shows "wake_ok m'"
  unfolding wake_ok_def assms(2,3) using assms(1) [unfolded wake_ok_def] assms(4,5) by iprover

lemma step_wake:
  assumes "mutex_step t m m'" "mutex_inv m h"
  shows "wake_ok m'"
proof -
  note I = inv_facts [OF assms(2)]
  have ok: "wake_ok m" using assms(2) by (simp add: mutex_inv_def)
  have R: "mx_pc m t \<noteq> Retract" "mx_pc m t \<in> {Pushed, Lending, Claim} \<Longrightarrow> \<not> mx_granted m t \<and> \<not> mx_woken m t"
    "mx_pc m t = Parked \<Longrightarrow> mx_woken m t \<Longrightarrow> mx_granted m t"
    using I(15) [of t] I(17) [of t] I(19) [of t] by blast+
  have P: "mx_pc m u = Parked \<longrightarrow> mx_woken m u \<longrightarrow> mx_granted m u"
    "mx_pc m u \<in> {Pushed, Lending, Claim} \<longrightarrow> \<not> mx_granted m u \<and> \<not> mx_woken m u" for u
    using I(15) [of u] I(17) [of u] by blast+
  show ?thesis
    using assms(1)
  proof cases
    case hand
    show ?thesis
      using assms(2) hand(2)
    proof (cases rule: handing_queue)
      case (1 w ws)
      have m': "mx_pc m' t = Waking w" "\<And>u. u \<noteq> t \<Longrightarrow> mx_pc m' u = mx_pc m u" "mx_woken m' = mx_woken m"
        "mx_granted m' = (mx_granted m)(w := True)"
        using hand(1) 1(1) by (simp_all add: hand_over_def)
      have pend: "pending m' u \<longleftrightarrow> u = w \<or> pending m u" for u
        using m' 1(2-5) hand(2) by (cases "u = t") (auto simp: pending_def)
      have new: "mx_pc m u \<noteq> Waking w" for u using I(13) [of u w] 1(4) by (auto simp: pending_def)
      have wak: "mx_pc m' u = Waking x \<longleftrightarrow> u = t \<and> x = w \<or> mx_pc m u = Waking x" for u x
        using m'(1,2) hand(2) by (cases "u = t") auto
      show ?thesis
      proof (rule wake_okI)
        show "pending m' x" if "mx_pc m' u = Waking x" for u x
          using that wak [of u x] pend [of x] I(13) [of u x] by auto
        show "u = v" if "mx_pc m' u = Waking x" "mx_pc m' v = Waking x" for u v x
          using that wak [of u x] wak [of v x] new I(14) [of u x v] by auto
        show "\<exists>u. mx_pc m' u = Waking x" if "pending m' x" for x
          using that I(16) [of x] pend [of x] by (auto simp: wak)
        show "mx_granted m' u" if "mx_pc m' u = Parked" "mx_woken m' u" for u
          using P [of u] m' that by (cases "u = t") auto
        show "\<not> mx_granted m' u \<and> \<not> mx_woken m' u" if "mx_pc m' u \<in> {Pushed, Lending, Claim}" for u
          using P [of u] m' 1(3) that by (cases "u = t") auto
      qed
    qed
  next
    case (wake w)
    have m': "mx_pc m' t = Idle" "\<And>u. u \<noteq> t \<Longrightarrow> mx_pc m' u = mx_pc m u" "mx_granted m' = mx_granted m"
      "mx_woken m' = (mx_woken m)(w := True)"
      using wake(1) by simp_all
    have pw: "pending m w" "w \<noteq> t" using I(13) [of t w] wake by (auto simp: pending_def)
    have pend: "pending m' u \<longleftrightarrow> u \<noteq> w \<and> pending m u" for u
      using m' pw wake by (cases "u = t") (auto simp: pending_def)
    have wak: "mx_pc m' u = Waking x \<longleftrightarrow> u \<noteq> t \<and> mx_pc m u = Waking x" for u x
      using m'(1,2) by (cases "u = t") auto
    have only: "mx_pc m u = Waking w \<Longrightarrow> u = t" for u using I(14) [of u w t] wake(2) by simp
    show ?thesis
    proof (rule wake_okI)
      show "pending m' x" if "mx_pc m' u = Waking x" for u x
        using that wak [of u x] pend [of x] I(13) [of u x] only [of u] by auto
      show "u = v" if "mx_pc m' u = Waking x" "mx_pc m' v = Waking x" for u v x
        using that wak [of u x] wak [of v x] I(14) [of u x v] by simp
      show "\<exists>u. mx_pc m' u = Waking x" if px: "pending m' x" for x
      proof -
        obtain u where u: "mx_pc m u = Waking x" "x \<noteq> w" using px I(16) [of x] pend [of x] by blast
        then have "u \<noteq> t" using wake(2) by auto
        then show ?thesis using u wak [of u x] by blast
      qed
      show "mx_granted m' u" if "mx_pc m' u = Parked" "mx_woken m' u" for u
        using P [of u] m' pw that by (cases "u = t"; cases "u = w") (auto simp: pending_def)
      show "\<not> mx_granted m' u \<and> \<not> mx_woken m' u" if "mx_pc m' u \<in> {Pushed, Lending, Claim}" for u
        using P [of u] m' pw that by (cases "u = t"; cases "u = w") (auto simp: pending_def)
    qed
  next
    case (wake_fails w)
    then show ?thesis using I(13) [of t w] by (auto simp: pending_def)
  qed (rule wake_frame [OF ok]; use R P in \<open>auto simp: pending_def split: if_splits\<close>)+
qed

lemma mutex_step_inv:
  assumes "mutex_step t m m'" "mutex_inv m h"
  shows "mutex_inv m' (holder_after t m m' h)"
  using step_exclusive [OF assms] step_queue_lock [OF assms] step_queue [OF assms] step_wake [OF assms]
    step_alive [OF assms] unfolding mutex_inv_def by blast

interpretation mtx: protocol mutex_step mutex_new "\<lambda>m. \<exists>h. mutex_inv m h"
  by unfold_locales (use mutex_new_inv mutex_step_inv in blast)+

section \<open>Properties\<close>

text \<open>
  C28. The mutex excludes: whatever the interleaving of the threads, at most one of them has the
  guard, and while a thread has it the owner that is recorded for priority inheritance is that
  thread. No assertion of the lock and unlock paths on the queue, the state word or a wake-up
  fails.
\<close>

theorem mutex_exclusion:
  assumes "reaches mutex_step mutex_new m"
  shows "(\<forall>t u. mx_pc m t = Holding \<longrightarrow> mx_pc m u = Holding \<longrightarrow> t = u) \<and>
    (\<forall>t. mx_pc m t = Holding \<longrightarrow> mx_locked m \<and> mx_owner m = Some t) \<and> (\<forall>t. mx_pc m t \<noteq> Panicked)"
proof -
  obtain h where inv: "mutex_inv m h" using mtx.inv_reachable [OF assms] by blast
  note I = inv_facts [OF inv]
  have h: "h = Some t" if "mx_pc m t = Holding" for t using I(1) [of t] that by (simp add: owns_def)
  have "mx_locked m \<and> mx_owner m = Some t" if "mx_pc m t = Holding" for t
    using I(2) I(3) [of t] h [OF that] that by simp
  moreover have "t = u" if "mx_pc m t = Holding" "mx_pc m u = Holding" for t u
    using h [OF that(1)] h [OF that(2)] by simp
  ultimately show ?thesis using I(18) by blast
qed

definition held_mutex :: mutex where
  "held_mutex = mutex_new\<lparr>mx_locked := True, mx_owner := Some 0, mx_pc := (\<lambda>t. Idle)(0 := Holding)\<rparr>"

lemma held_reachable: "reaches mutex_step mutex_new held_mutex"
proof -
  have "reaches mutex_step mutex_new (goto 0 (Fast False) mutex_new)"
    by (rule mutex_run [OF _ lock_call]) (simp_all add: mutex_new_def)
  then have "reaches mutex_step mutex_new (goto 0 Publish ((goto 0 (Fast False) mutex_new)\<lparr>mx_locked := True\<rparr>))"
    by (rule mutex_run [OF _ fast_wins [where once = False]]) (simp_all add: mutex_new_def)
  then have "reaches mutex_step mutex_new (goto 0 Holding ((goto 0 Publish ((goto 0 (Fast False) mutex_new)\<lparr>mx_locked := True\<rparr>))\<lparr>mx_owner := Some 0\<rparr>))"
    by (rule mutex_run [OF _ publish]) simp
  then show ?thesis by (simp add: held_mutex_def goto_def mutex_new_def)
qed

theorem mutex_exclusion_witness: "mx_pc held_mutex 0 = Holding \<and> mx_owner held_mutex = Some 0"
  using mutex_exclusion [OF held_reachable] by (simp add: held_mutex_def)

text \<open>
  C29. No wake-up is lost: in every reachable state a sleeping thread either is in the queue of
  the mutex, which is locked by another thread and has its queue bit set so that the release
  takes the contended path, or has been granted the mutex, and then it has been woken or a
  thread is just about to wake it. In particular some thread that does not sleep can go on.
\<close>

theorem mutex_no_lost_wakeup:
  assumes "reaches mutex_step mutex_new m" "mx_pc m t = Parked"
  shows "if mx_granted m t then mx_owner m = Some t \<and> (mx_woken m t \<or> (\<exists>u. mx_pc m u = Waking t))
    else t \<in> set (queue_of m) \<and> mx_locked m \<and> mx_queued m \<and>
      (\<exists>u. u \<noteq> t \<and> (owning (mx_pc m u) \<or> mx_pc m u = Parked \<and> mx_granted m u))"
proof -
  obtain h where inv: "mutex_inv m h" using mtx.inv_reachable [OF assms(1)] by blast
  note I = inv_facts [OF inv]
  show ?thesis
  proof (cases "mx_granted m t")
    case True
    then have "h = Some t" using I(1) [of t] assms(2) by (simp add: owns_def)
    then have "mx_owner m = Some t" using I(3) [of t] assms(2) by simp
    then show ?thesis using True I(16) [of t] assms(2) by (auto simp: pending_def)
  next
    case False
    then have w: "waits m t" using assms(2) by (simp add: waits_def)
    then have l: "mx_queued m" "mx_locked m" using I(7) by blast+
    then obtain u where u: "owns m u" using I(1,2) by auto
    then have "u \<noteq> t" using False assms(2) by (auto simp: owns_def)
    then show ?thesis using False w l u I(6) [of t] unfolding owns_def by auto
  qed
qed

definition waiting_mutex :: mutex where
  "waiting_mutex = held_mutex\<lparr>mx_queued := True, mx_waiters := Some [1], mx_pc := (mx_pc held_mutex)(1 := Parked)\<rparr>"

lemma waiting_reachable: "reaches mutex_step mutex_new waiting_mutex"
proof -
  define m1 where "m1 = goto 1 (Fast False) held_mutex"
  define m2 where "m2 = goto 1 (if False then Idle else Slow) m1"
  define m3 where "m3 = goto 1 Entered (m2\<lparr>mx_queue_lock := Some 1\<rparr>)"
  define m4 where "m4 = goto 1 (Inspect (mx_locked m3) (mx_queued m3)) m3"
  define m5 where "m5 = goto 1 Pushed (m4\<lparr>mx_waiters := Some (queue_of m4 @ [1]),
      mx_granted := (mx_granted m4)(1 := False), mx_woken := (mx_woken m4)(1 := False)\<rparr>)"
  define m6 where "m6 = goto 1 (if mx_locked m5 then Lending else Claim) (m5\<lparr>mx_queued := True\<rparr>)"
  define m7 where "m7 = goto 1 Parked (m6\<lparr>mx_queue_lock := None\<rparr>)"
  note ms = m1_def m2_def m3_def m4_def m5_def m6_def m7_def held_mutex_def mutex_new_def
  have "reaches mutex_step mutex_new m1" unfolding m1_def
    by (rule mutex_run [OF held_reachable lock_call]) (simp add: held_mutex_def mutex_new_def)
  then have "reaches mutex_step mutex_new m2" unfolding m2_def
    by (rule mutex_run [OF _ fast_loses]) (simp_all add: ms)
  then have "reaches mutex_step mutex_new m3" unfolding m3_def by (rule mutex_run [OF _ enter]) (simp_all add: ms)
  then have "reaches mutex_step mutex_new m4" unfolding m4_def by (rule mutex_run [OF _ load]) (simp_all add: ms)
  then have "reaches mutex_step mutex_new m5" unfolding m5_def
    by (rule mutex_run [OF _ push [where q = False]]) (simp_all add: ms)
  then have "reaches mutex_step mutex_new m6" unfolding m6_def by (rule mutex_run [OF _ announce]) (simp_all add: ms)
  then have "reaches mutex_step mutex_new m7" unfolding m7_def by (rule mutex_run [OF _ park]) (simp_all add: ms)
  moreover have "m7 = waiting_mutex"
    by (simp add: ms goto_def waiting_mutex_def queue_of_def fun_upd_idem)
  ultimately show ?thesis by simp
qed

theorem mutex_no_lost_wakeup_witness: "1 \<in> set (queue_of waiting_mutex) \<and> mx_queued waiting_mutex"
  using mutex_no_lost_wakeup [OF waiting_reachable, of 1]
  by (simp add: waiting_mutex_def held_mutex_def mutex_new_def)

end
