(* ===== verification/Rwlock.thy ===== *)
theory Rwlock
  imports Protocol
begin

text \<open>
  Model of the reader/writer lock of \<open>kernel/src/sys/sync/rwlock.rs\<close>, as a step relation like
  that of the mutex: one step is one access of a thread to the shared state. The state word is
  the writer bit and the number of readers below it. The writer gate is a mutex, used by its
  contract that at most one thread holds it; the drained event is signalled or not.
\<close>

section \<open>The protocol\<close>

definition READER_LIMIT :: nat where
  \<comment> \<open>the value of the writer bit\<close>
  "READER_LIMIT = 2 ^ 63"

datatype rwpc =
    RIdle
  | RLoaded nat bool   \<comment> \<open>a reader that has loaded the state word: readers, writer bit\<close>
  | RWait              \<comment> \<open>waits for the gate of a writer\<close>
  | RGate              \<comment> \<open>has the gate and drops it at once\<close>
  | RReload
  | Reading            \<comment> \<open>has a read guard\<close>
  | RSignal            \<comment> \<open>was the last reader before a waiting writer\<close>
  | WWait              \<comment> \<open>a writer before the gate\<close>
  | WGate              \<comment> \<open>has the gate\<close>
  | WReset             \<comment> \<open>has reset the event\<close>
  | WCheck             \<comment> \<open>has set the writer bit\<close>
  | WSleep             \<comment> \<open>waits for the event\<close>
  | Writing            \<comment> \<open>has the write guard\<close>
  | WRelease           \<comment> \<open>has cleared the state word\<close>
  | TryGate            \<comment> \<open>\<open>try_write\<close> with the gate\<close>
  | TryFail
  | RPanicked

record rwlock =
  rw_count :: nat
  rw_writer :: bool
  rw_gate :: "nat option"
  rw_drained :: bool
  rw_pc :: "nat \<Rightarrow> rwpc"

definition rwlock_new :: rwlock where
  "rwlock_new = \<lparr>rw_count = 0, rw_writer = False, rw_gate = None, rw_drained = False, rw_pc = (\<lambda>t. RIdle)\<rparr>"

definition at_pc :: "nat \<Rightarrow> rwpc \<Rightarrow> rwlock \<Rightarrow> rwlock" where
  "at_pc t p l = l\<lparr>rw_pc := (rw_pc l)(t := p)\<rparr>"

inductive rw_step :: "nat \<Rightarrow> rwlock \<Rightarrow> rwlock \<Rightarrow> bool" for t where
  read_call: "rw_pc l t \<in> {RIdle, RReload} \<Longrightarrow> rw_step t l (at_pc t (RLoaded (rw_count l) (rw_writer l)) l)"
| read_blocked: "rw_pc l t = RLoaded n True \<Longrightarrow> rw_step t l (at_pc t RWait l)"
| read_gate: "rw_pc l t = RWait \<Longrightarrow> rw_gate l = None \<Longrightarrow> rw_step t l (at_pc t RGate (l\<lparr>rw_gate := Some t\<rparr>))"
| read_ungate: "rw_pc l t = RGate \<Longrightarrow> rw_step t l (at_pc t RReload (l\<lparr>rw_gate := None\<rparr>))"
| read_overflow: "rw_pc l t = RLoaded n False \<Longrightarrow> \<not> n < READER_LIMIT - 1 \<Longrightarrow> rw_step t l (at_pc t RPanicked l)"
| read_wins: "rw_pc l t = RLoaded n False \<Longrightarrow> n < READER_LIMIT - 1 \<Longrightarrow> rw_count l = n \<Longrightarrow> \<not> rw_writer l \<Longrightarrow>
    rw_step t l (at_pc t Reading (l\<lparr>rw_count := n + 1\<rparr>))"
| read_loses: "rw_pc l t = RLoaded n False \<Longrightarrow> n < READER_LIMIT - 1 \<Longrightarrow>
    rw_step t l (at_pc t (RLoaded (rw_count l) (rw_writer l)) l)"
| read_drop: "rw_pc l t = Reading \<Longrightarrow>
    rw_step t l (at_pc t (if rw_writer l \<and> rw_count l = 1 then RSignal else RIdle) (l\<lparr>rw_count := rw_count l - 1\<rparr>))"
| read_signal: "rw_pc l t = RSignal \<Longrightarrow> rw_step t l (at_pc t RIdle (l\<lparr>rw_drained := True\<rparr>))"
| write_call: "rw_pc l t = RIdle \<Longrightarrow> rw_step t l (at_pc t WWait l)"
| write_gate: "rw_pc l t = WWait \<Longrightarrow> rw_gate l = None \<Longrightarrow> rw_step t l (at_pc t WGate (l\<lparr>rw_gate := Some t\<rparr>))"
| write_reset: "rw_pc l t = WGate \<Longrightarrow> rw_step t l (at_pc t WReset (l\<lparr>rw_drained := False\<rparr>))"
| write_announce: "rw_pc l t = WReset \<Longrightarrow> rw_step t l (at_pc t WCheck (l\<lparr>rw_writer := True\<rparr>))"
| write_wins: "rw_pc l t = WCheck \<Longrightarrow> rw_count l = 0 \<Longrightarrow> rw_step t l (at_pc t Writing l)"
| write_waits: "rw_pc l t = WCheck \<Longrightarrow> rw_count l \<noteq> 0 \<Longrightarrow> p \<in> {WSleep, WCheck} \<Longrightarrow> rw_step t l (at_pc t p l)"
| write_wakes: "rw_pc l t = WSleep \<Longrightarrow> rw_drained l \<Longrightarrow> rw_step t l (at_pc t WCheck l)"
| write_drop: "rw_pc l t = Writing \<Longrightarrow> rw_step t l (at_pc t WRelease (l\<lparr>rw_count := 0, rw_writer := False\<rparr>))"
| write_ungate: "rw_pc l t \<in> {WRelease, TryFail} \<Longrightarrow> rw_step t l (at_pc t RIdle (l\<lparr>rw_gate := None\<rparr>))"
| try_write: "rw_pc l t = RIdle \<Longrightarrow> rw_gate l = None \<Longrightarrow> rw_step t l (at_pc t TryGate (l\<lparr>rw_gate := Some t\<rparr>))"
| try_wins: "rw_pc l t = TryGate \<Longrightarrow> rw_count l = 0 \<Longrightarrow> \<not> rw_writer l \<Longrightarrow>
    rw_step t l (at_pc t Writing (l\<lparr>rw_writer := True\<rparr>))"
| try_loses: "rw_pc l t = TryGate \<Longrightarrow> rw_count l \<noteq> 0 \<or> rw_writer l \<Longrightarrow> rw_step t l (at_pc t TryFail l)"

lemmas rw_run = reaches_step [of rw_step]

section \<open>The invariant\<close>

definition has_gate :: "rwpc \<Rightarrow> bool" where
  "has_gate p \<longleftrightarrow> p \<in> {RGate, WGate, WReset, WCheck, WSleep, Writing, WRelease, TryGate, TryFail}"

definition announced :: "rwpc \<Rightarrow> bool" where
  "announced p \<longleftrightarrow> p \<in> {WCheck, WSleep, Writing}"

definition readers :: "rwlock \<Rightarrow> nat set" where
  "readers l = {t. rw_pc l t = Reading}"

definition signals :: "rwlock \<Rightarrow> nat set" where
  "signals l = {t. rw_pc l t = RSignal}"

definition rw_inv :: "rwlock \<Rightarrow> bool" where
  "rw_inv l \<longleftrightarrow> (\<forall>t. has_gate (rw_pc l t) \<longleftrightarrow> rw_gate l = Some t) \<and>
     finite (readers l) \<and> rw_count l = card (readers l) \<and> rw_count l < READER_LIMIT \<and>
     (\<forall>t. announced (rw_pc l t) \<longrightarrow> rw_writer l) \<and>
     (rw_writer l \<longrightarrow> rw_gate l \<noteq> None) \<and>
     (\<forall>t. rw_writer l \<longrightarrow> rw_gate l = Some t \<longrightarrow> announced (rw_pc l t)) \<and>
     (\<forall>t. rw_pc l t = Writing \<longrightarrow> rw_count l = 0) \<and>
     (\<forall>t. rw_pc l t = WSleep \<longrightarrow> rw_count l = 0 \<longrightarrow> rw_drained l \<or> signals l \<noteq> {})"

lemma rwlock_new_inv: "rw_inv rwlock_new"
  by (simp add: rw_inv_def rwlock_new_def has_gate_def announced_def readers_def signals_def READER_LIMIT_def)

lemma at_pc_fields [simp]:
  "rw_pc (at_pc t p l) u = (if u = t then p else rw_pc l u)" "rw_count (at_pc t p l) = rw_count l"
  "rw_writer (at_pc t p l) = rw_writer l" "rw_gate (at_pc t p l) = rw_gate l" "rw_drained (at_pc t p l) = rw_drained l"
  by (simp_all add: at_pc_def)

lemma pc_kinds [simp]:
  "has_gate RGate" "has_gate WGate" "has_gate WReset" "has_gate WCheck" "has_gate WSleep" "has_gate Writing"
  "has_gate WRelease" "has_gate TryGate" "has_gate TryFail"
  "\<not> has_gate RIdle" "\<not> has_gate (RLoaded n w)" "\<not> has_gate RWait" "\<not> has_gate RReload" "\<not> has_gate Reading"
  "\<not> has_gate RSignal" "\<not> has_gate WWait" "\<not> has_gate RPanicked"
  "announced WCheck" "announced WSleep" "announced Writing"
  "\<not> announced RIdle" "\<not> announced (RLoaded n w)" "\<not> announced RWait" "\<not> announced RGate"
  "\<not> announced RReload" "\<not> announced Reading" "\<not> announced RSignal" "\<not> announced WWait"
  "\<not> announced WGate" "\<not> announced WReset" "\<not> announced WRelease" "\<not> announced TryGate"
  "\<not> announced TryFail" "\<not> announced RPanicked"
  by (simp_all add: has_gate_def announced_def)

lemma signals_at [simp]:
  "signals (at_pc t p l) = (if p = RSignal then insert t (signals l) else signals l - {t})"
  "signals (l\<lparr>rw_count := n\<rparr>) = signals l" "signals (l\<lparr>rw_writer := w\<rparr>) = signals l"
  "signals (l\<lparr>rw_gate := g\<rparr>) = signals l" "signals (l\<lparr>rw_drained := d\<rparr>) = signals l"
  by (auto simp: signals_def)

lemma readers_at [simp]:
  "readers (at_pc t p l) = (if p = Reading then insert t (readers l) else readers l - {t})"
  "readers (l\<lparr>rw_count := n\<rparr>) = readers l" "readers (l\<lparr>rw_writer := w\<rparr>) = readers l"
  "readers (l\<lparr>rw_gate := g\<rparr>) = readers l" "readers (l\<lparr>rw_drained := d\<rparr>) = readers l"
  by (auto simp: readers_def)

lemma readers_pc: "t \<in> readers l \<longleftrightarrow> rw_pc l t = Reading"
  by (simp add: readers_def)

lemma rw_facts:
  assumes "rw_inv l"
  shows "\<And>t. has_gate (rw_pc l t) \<longleftrightarrow> rw_gate l = Some t" "finite (readers l)" "rw_count l = card (readers l)"
    "rw_count l < READER_LIMIT" "\<And>t. announced (rw_pc l t) \<Longrightarrow> rw_writer l"
    "rw_writer l \<Longrightarrow> rw_gate l \<noteq> None" "\<And>t. rw_writer l \<Longrightarrow> rw_gate l = Some t \<Longrightarrow> announced (rw_pc l t)"
    "\<And>t. rw_pc l t = Writing \<Longrightarrow> rw_count l = 0"
    "\<And>t. rw_pc l t = WSleep \<Longrightarrow> rw_count l = 0 \<Longrightarrow> rw_drained l \<or> signals l \<noteq> {}"
  using assms unfolding rw_inv_def by iprover+

lemma rw_invI:
  assumes "\<And>t. has_gate (rw_pc l t) \<longleftrightarrow> rw_gate l = Some t" "finite (readers l)" "rw_count l = card (readers l)"
    "rw_count l < READER_LIMIT" "\<And>t. announced (rw_pc l t) \<Longrightarrow> rw_writer l"
    "rw_writer l \<Longrightarrow> rw_gate l \<noteq> None" "\<And>t. rw_writer l \<Longrightarrow> rw_gate l = Some t \<Longrightarrow> announced (rw_pc l t)"
    "\<And>t. rw_pc l t = Writing \<Longrightarrow> rw_count l = 0"
    "\<And>t. rw_pc l t = WSleep \<Longrightarrow> rw_count l = 0 \<Longrightarrow> rw_drained l \<or> signals l \<noteq> {}"
  shows "rw_inv l"
  using assms unfolding rw_inv_def by iprover

lemma rw_step_inv:
  assumes "rw_step t l l'" "rw_inv l"
  shows "rw_inv l'"
proof -
  note F = rw_facts [OF assms(2)]
  have G: "\<And>u. has_gate (rw_pc l u) \<Longrightarrow> rw_gate l = Some u" "\<And>u. rw_gate l = Some u \<Longrightarrow> has_gate (rw_pc l u)"
    using F(1) by blast+
  have A: "announced (rw_pc l t) \<Longrightarrow> rw_writer l" "rw_writer l \<Longrightarrow> rw_gate l = Some t \<Longrightarrow> announced (rw_pc l t)"
    "rw_pc l t = Writing \<Longrightarrow> rw_count l = 0"
    by (rule F; assumption)+
  have R: "t \<in> readers l \<longleftrightarrow> rw_pc l t = Reading" "t \<in> signals l \<longleftrightarrow> rw_pc l t = RSignal"
    by (simp_all add: readers_def signals_def)
  have W: "rw_pc l u = Writing \<Longrightarrow> rw_writer l" for u using F(5) [of u] by simp
  have W2: "rw_pc l u = WSleep \<Longrightarrow> rw_writer l" for u using F(5) [of u] by simp
  have N: "announced (rw_pc l u) \<Longrightarrow> rw_gate l = Some u" for u
    using G(1) [of u] by (auto simp: announced_def has_gate_def)
  have T: "rw_gate l = Some t \<longleftrightarrow> has_gate (rw_pc l t)" using G by blast
  show ?thesis
    using assms(1)
  proof cases
    case (read_wins n)
    show ?thesis by (rule rw_invI) (use read_wins F(2,3,4,6) T A R in \<open>auto dest: F(5,7,8,9) G W W2 N split: if_splits\<close>)
  next
    case read_drop
    then have "card (readers l) \<noteq> 0" using F(2) R(1) by auto
    then obtain k where k: "card (readers l) = Suc k" using not0_implies_Suc by blast
    show ?thesis
      by (intro rw_invI) (use read_drop k F(2,3,4,6) T A R in \<open>auto dest: F(5,7,8,9) G W W2 N split: if_splits\<close>)
  next
    case write_announce
    show ?thesis by (rule rw_invI) (use write_announce F(2,3,4,6) T A R in \<open>auto dest: F(5,7,8,9) G W W2 N split: if_splits\<close>)
  next
    case write_drop
    show ?thesis by (rule rw_invI) (use write_drop F(2,3,4,6) T A R in \<open>auto dest: F(5,7,8,9) G W W2 N split: if_splits\<close>)
  next
    case read_signal
    show ?thesis by (rule rw_invI) (use read_signal F(2,3,4,6) T A R in \<open>auto dest: F(5,7,8,9) G W W2 N split: if_splits\<close>)
  next
    case write_reset
    show ?thesis by (rule rw_invI) (use write_reset F(2,3,4,6) T A R in \<open>auto dest: F(5,7,8,9) G W W2 N split: if_splits\<close>)
  qed (rule rw_invI; use F(2,3,4,6) T A R in \<open>auto dest: F(5,7,8,9) G W W2 N split: if_splits\<close>; fail)+
qed

interpretation rwl: protocol rw_step rwlock_new rw_inv
  by unfold_locales (use rwlock_new_inv rw_step_inv in blast)+

section \<open>Properties\<close>

text \<open>
  C30. The reader/writer lock excludes: in every reachable state a thread with the write guard is
  the only thread with a guard, the count in the state word is the number of threads with a
  read guard, and it never reaches the writer bit.
\<close>

theorem rwlock_exclusion:
  assumes "reaches rw_step rwlock_new l"
  shows "(\<forall>t. rw_pc l t = Writing \<longrightarrow> (\<forall>u. rw_pc l u \<noteq> Reading \<and> (rw_pc l u = Writing \<longrightarrow> u = t))) \<and>
    rw_count l = card {t. rw_pc l t = Reading} \<and> rw_count l < READER_LIMIT"
proof -
  note F = rw_facts [OF rwl.inv_reachable [OF assms]]
  have gate: "rw_gate l = Some t" if "rw_pc l t = Writing" for t using F(1) [of t] that by simp
  have "rw_pc l u \<noteq> Reading" if "rw_pc l t = Writing" for t u
  proof -
    have "readers l = {}" using F(2,3) F(8) [of t] that by simp
    then show ?thesis by (auto simp: readers_def)
  qed
  moreover have "u = t" if "rw_pc l t = Writing" "rw_pc l u = Writing" for t u
    using gate [OF that(1)] gate [OF that(2)] by simp
  ultimately show ?thesis using F(3,4) unfolding readers_def by blast
qed

lemma no_reader_enters: "rw_step u l l' \<Longrightarrow> rw_writer l \<Longrightarrow> rw_count l' \<le> rw_count l"
  by (erule rw_step.cases) auto

text \<open>
  C31. A sleeping writer is woken: whenever a writer waits for the event and the event is not
  signalled, a reader still has its guard, or the last reader is just about to signal. While a
  writer waits or writes, no reader can enter.
\<close>

theorem rwlock_writer_woken:
  assumes "reaches rw_step rwlock_new l" "rw_pc l t = WSleep"
  shows "(rw_drained l \<or> (\<exists>u. rw_pc l u \<in> {Reading, RSignal})) \<and>
    (\<forall>u l'. rw_step u l l' \<longrightarrow> rw_count l' \<le> rw_count l)"
proof -
  have inv: "rw_inv l" by (rule rwl.inv_reachable [OF assms(1)])
  note F = rw_facts [OF inv]
  have "rw_drained l \<or> (\<exists>u. rw_pc l u \<in> {Reading, RSignal})"
  proof (cases "rw_count l = 0")
    case True
    then show ?thesis using F(9) [OF assms(2)] by (auto simp: signals_def)
  next
    case False
    then show ?thesis using F(2,3) by (auto simp: readers_def)
  qed
  moreover have "rw_writer l" using F(5) [of t] assms(2) by simp
  then have "rw_count l' \<le> rw_count l" if "rw_step u l l'" for u l'
    using that no_reader_enters by blast
  ultimately show ?thesis by blast
qed

definition writing_lock :: rwlock where
  "writing_lock = \<lparr>rw_count = 0, rw_writer = True, rw_gate = Some 0, rw_drained = False, rw_pc = (\<lambda>t. RIdle)(0 := Writing)\<rparr>"

theorem rwlock_exclusion_witness:
  "reaches rw_step rwlock_new writing_lock \<and> rw_pc writing_lock 0 = Writing \<and> (\<forall>u. rw_pc writing_lock u \<noteq> Reading)"
proof -
  have "reaches rw_step rwlock_new (at_pc 0 TryGate (rwlock_new\<lparr>rw_gate := Some 0\<rparr>))"
    by (rule rw_run [OF _ try_write]) (simp_all add: rwlock_new_def)
  then have "reaches rw_step rwlock_new (at_pc 0 Writing ((at_pc 0 TryGate (rwlock_new\<lparr>rw_gate := Some 0\<rparr>))\<lparr>rw_writer := True\<rparr>))"
    by (rule rw_run [OF _ try_wins]) (simp_all add: rwlock_new_def)
  moreover have "at_pc 0 Writing ((at_pc 0 TryGate (rwlock_new\<lparr>rw_gate := Some 0\<rparr>))\<lparr>rw_writer := True\<rparr>) = writing_lock"
    by (simp add: at_pc_def rwlock_new_def writing_lock_def)
  ultimately have run: "reaches rw_step rwlock_new writing_lock" by simp
  have "rw_pc writing_lock 0 = Writing" by (simp add: writing_lock_def)
  then show ?thesis using rwlock_exclusion [OF run] run by blast
qed

definition draining_lock :: rwlock where
  "draining_lock = \<lparr>rw_count = 1, rw_writer = True, rw_gate = Some 0, rw_drained = False,
     rw_pc = (\<lambda>t. RIdle)(1 := Reading, 0 := WSleep)\<rparr>"

theorem rwlock_writer_woken_witness:
  "reaches rw_step rwlock_new draining_lock \<and> rw_pc draining_lock 0 = WSleep \<and>
   (\<exists>u. rw_pc draining_lock u \<in> {Reading, RSignal})"
proof -
  define l1 where "l1 = at_pc 1 (RLoaded (rw_count rwlock_new) (rw_writer rwlock_new)) rwlock_new"
  define l2 where "l2 = at_pc 1 Reading (l1\<lparr>rw_count := 0 + 1\<rparr>)"
  define l3 where "l3 = at_pc 0 WWait l2"
  define l4 where "l4 = at_pc 0 WGate (l3\<lparr>rw_gate := Some 0\<rparr>)"
  define l5 where "l5 = at_pc 0 WReset (l4\<lparr>rw_drained := False\<rparr>)"
  define l6 where "l6 = at_pc 0 WCheck (l5\<lparr>rw_writer := True\<rparr>)"
  define l7 where "l7 = at_pc 0 WSleep l6"
  note ls = l1_def l2_def l3_def l4_def l5_def l6_def l7_def rwlock_new_def READER_LIMIT_def
  have "reaches rw_step rwlock_new l1" unfolding l1_def by (rule rw_run [OF _ read_call]) (simp_all add: ls)
  then have "reaches rw_step rwlock_new l2" unfolding l2_def by (rule rw_run [OF _ read_wins]) (simp_all add: ls)
  then have "reaches rw_step rwlock_new l3" unfolding l3_def by (rule rw_run [OF _ write_call]) (simp_all add: ls)
  then have "reaches rw_step rwlock_new l4" unfolding l4_def by (rule rw_run [OF _ write_gate]) (simp_all add: ls)
  then have "reaches rw_step rwlock_new l5" unfolding l5_def by (rule rw_run [OF _ write_reset]) (simp_all add: ls)
  then have "reaches rw_step rwlock_new l6" unfolding l6_def by (rule rw_run [OF _ write_announce]) (simp_all add: ls)
  then have "reaches rw_step rwlock_new l7" unfolding l7_def by (rule rw_run [OF _ write_waits]) (simp_all add: ls)
  moreover have "l7 = draining_lock" by (simp add: ls at_pc_def draining_lock_def fun_upd_twist)
  ultimately have run: "reaches rw_step rwlock_new draining_lock" by simp
  have "rw_pc draining_lock 0 = WSleep" "\<not> rw_drained draining_lock" by (simp_all add: draining_lock_def)
  then show ?thesis using rwlock_writer_woken [OF run] run by blast
qed

end
