(* ===== verification/Once.thy ===== *)
theory Once
  imports Protocol
begin

text \<open>
  Model of the one-time initialisation \<open>Once\<close> of \<open>kernel/src/sys/sync.rs\<close>, as a step relation:
  one step is one access of a thread to the state byte or to the value. The initialiser of a
  thread may return any value or panic. The storage of the value is optional, none while it has
  not been written, and a call that hands out a reference returns what the storage holds then:
  a reference to uninitialised memory is the outcome \<open>OReturned None\<close>. The record also counts
  the initialisers that were started. The lemmas show that at most one ever is, that every
  reference handed out is to the value it wrote, and that a panic poisons the instance for good.
\<close>

datatype once_state = Incomplete | Running | Complete | Poisoned

datatype 'a once_pc =
    OIdle
  | OGet                \<comment> \<open>before the load of the state\<close>
  | OExchange           \<comment> \<open>before the compare-exchange of \<open>call_once_slow\<close>\<close>
  | OInit               \<comment> \<open>won it and runs the initialiser\<close>
  | OWritten            \<comment> \<open>has written the value\<close>
  | OSpin               \<comment> \<open>waits for the running initialiser\<close>
  | OUnwind             \<comment> \<open>its initialiser panicked\<close>
  | OAbsent             \<comment> \<open>\<open>get\<close> has answered that there is no value\<close>
  | OReturned "'a option"   \<comment> \<open>returned a reference to the storage, with what it held then\<close>
  | OPanicked

record 'a once =
  on_state :: once_state
  on_value :: "'a option"
  on_runs :: nat                \<comment> \<open>how many initialisers were started\<close>
  on_pc :: "nat \<Rightarrow> 'a once_pc"

definition once_new :: "'a once" where
  "once_new = \<lparr>on_state = Incomplete, on_value = None, on_runs = 0, on_pc = (\<lambda>t. OIdle)\<rparr>"

definition move :: "nat \<Rightarrow> 'a once_pc \<Rightarrow> 'a once \<Rightarrow> 'a once" where
  "move t p x = x\<lparr>on_pc := (on_pc x)(t := p)\<rparr>"

inductive once_step :: "nat \<Rightarrow> 'a once \<Rightarrow> 'a once \<Rightarrow> bool" for t where
  get_hit: "on_pc x t = OIdle \<Longrightarrow> on_state x = Complete \<Longrightarrow> once_step t x (move t (OReturned (on_value x)) x)"
| get_miss: "on_pc x t = OIdle \<Longrightarrow> on_state x \<noteq> Complete \<Longrightarrow> once_step t x (move t OAbsent x)"
| call_once: "on_pc x t = OIdle \<Longrightarrow> once_step t x (move t OGet x)"
| fast_hit: "on_pc x t = OGet \<Longrightarrow> on_state x = Complete \<Longrightarrow> once_step t x (move t (OReturned (on_value x)) x)"
| fast_miss: "on_pc x t = OGet \<Longrightarrow> on_state x \<noteq> Complete \<Longrightarrow> once_step t x (move t OExchange x)"
| exchange_wins: "on_pc x t = OExchange \<Longrightarrow> on_state x = Incomplete \<Longrightarrow>
    once_step t x (move t OInit (x\<lparr>on_state := Running, on_runs := Suc (on_runs x)\<rparr>))"
| exchange_complete: "on_pc x t = OExchange \<Longrightarrow> on_state x = Complete \<Longrightarrow>
    once_step t x (move t (OReturned (on_value x)) x)"
| exchange_running: "on_pc x t = OExchange \<Longrightarrow> on_state x = Running \<Longrightarrow> once_step t x (move t OSpin x)"
| exchange_poisoned: "on_pc x t = OExchange \<Longrightarrow> on_state x = Poisoned \<Longrightarrow> once_step t x (move t OPanicked x)"
| spin: "on_pc x t = OSpin \<Longrightarrow> on_state x = Running \<Longrightarrow> once_step t x x"
| spin_ends: "on_pc x t = OSpin \<Longrightarrow> on_state x \<noteq> Running \<Longrightarrow> once_step t x (move t OExchange x)"
| init_returns: "on_pc x t = OInit \<Longrightarrow> once_step t x (move t OWritten (x\<lparr>on_value := Some v\<rparr>))"
| init_panics: "on_pc x t = OInit \<Longrightarrow> once_step t x (move t OUnwind x)"
| finish: "on_pc x t = OWritten \<Longrightarrow>
    once_step t x (move t (OReturned (on_value x)) (x\<lparr>on_state := Complete\<rparr>))"
| poison: "on_pc x t = OUnwind \<Longrightarrow> once_step t x (move t OPanicked (x\<lparr>on_state := Poisoned\<rparr>))"
| call_again: "on_pc x t = OAbsent \<or> on_pc x t = OReturned r \<Longrightarrow> once_step t x (move t OIdle x)"

lemmas once_run = reaches_step [of once_step]

section \<open>The invariant\<close>

definition initialising :: "'a once_pc \<Rightarrow> bool" where
  "initialising p \<longleftrightarrow> p \<in> {OInit, OWritten, OUnwind}"

definition once_inv :: "'a once \<Rightarrow> nat option \<Rightarrow> bool" where
  \<comment> \<open>the second argument is the thread that runs the initialiser\<close>
  "once_inv x w \<longleftrightarrow> (\<forall>t. initialising (on_pc x t) \<longleftrightarrow> w = Some t) \<and> (on_state x = Running \<longleftrightarrow> w \<noteq> None) \<and>
     on_runs x = (if on_state x = Incomplete then 0 else 1) \<and>
     (on_state x = Complete \<longrightarrow> on_value x \<noteq> None) \<and>
     (\<forall>t. on_pc x t = OWritten \<longrightarrow> on_value x \<noteq> None) \<and>
     (\<forall>t r. on_pc x t = OReturned r \<longrightarrow> on_state x = Complete \<and> on_value x = r) \<and>
     (\<forall>t. on_pc x t = OPanicked \<longrightarrow> on_state x = Poisoned)"

lemma move_fields [simp]:
  "on_pc (move t p x) u = (if u = t then p else on_pc x u)" "on_state (move t p x) = on_state x"
  "on_value (move t p x) = on_value x" "on_runs (move t p x) = on_runs x"
  by (simp_all add: move_def)

lemma initialising_simps [simp]:
  "initialising OInit" "initialising OWritten" "initialising OUnwind" "\<not> initialising OIdle" "\<not> initialising OGet"
  "\<not> initialising OExchange" "\<not> initialising OSpin" "\<not> initialising OAbsent" "\<not> initialising (OReturned v)" "\<not> initialising OPanicked"
  by (simp_all add: initialising_def)

lemma once_new_inv: "once_inv once_new None"
  by (simp add: once_inv_def once_new_def)

definition runner_after :: "nat \<Rightarrow> 'a once \<Rightarrow> 'a once \<Rightarrow> nat option \<Rightarrow> nat option" where
  "runner_after t x y w = (if initialising (on_pc y t) then Some t else if w = Some t then None else w)"

lemma once_invD:
  assumes "once_inv x w"
  shows "initialising (on_pc x u) \<longleftrightarrow> w = Some u" "on_state x = Running \<longleftrightarrow> w \<noteq> None"
    "on_runs x = (if on_state x = Incomplete then 0 else 1)"
    "on_state x = Complete \<Longrightarrow> on_value x \<noteq> None" "on_pc x u = OWritten \<Longrightarrow> on_value x \<noteq> None"
    "on_pc x u = OReturned r \<Longrightarrow> on_state x = Complete" "on_pc x u = OReturned r \<Longrightarrow> on_value x = r"
    "on_pc x u = OPanicked \<Longrightarrow> on_state x = Poisoned"
  using assms unfolding once_inv_def by blast+

lemma once_step_inv:
  assumes "once_step t x y" "once_inv x w"
  shows "once_inv y (runner_after t x y w)"
proof -
  note I = once_invD [OF assms(2)]
  have T: "w = Some t \<longleftrightarrow> initialising (on_pc x t)" "on_pc x t = OWritten \<Longrightarrow> on_value x \<noteq> None"
    using I(1) [of t] I(5) [of t] by simp_all
  have G: "initialising (on_pc x u) \<Longrightarrow> w = Some u" "w = Some u \<Longrightarrow> initialising (on_pc x u)"
    "on_pc x u = OWritten \<Longrightarrow> w = Some u" for u
    using I(1) [of u] by auto
  show ?thesis
    using assms(1)
    by cases (use I(2,3,4) T in \<open>auto simp: once_inv_def runner_after_def dest: G I(5-8) split: if_splits\<close>)
qed

lemma once_step_settled:
  assumes "once_step t x y" "once_inv x w" "on_state x = Complete \<or> on_state x = Poisoned"
  shows "on_state y = on_state x \<and> on_value y = on_value x"
proof -
  have "\<not> initialising (on_pc x t)" using once_invD(1,2) [OF assms(2)] assms(3) by (cases w) auto
  with assms(1) show ?thesis by cases (use assms(3) in auto)
qed

lemma once_settled:
  assumes "reaches once_step x y" "once_inv x w" "on_state x = Complete \<or> on_state x = Poisoned"
  shows "(\<exists>w. once_inv y w) \<and> on_state y = on_state x \<and> on_value y = on_value x"
  by (rule reaches_keeps [OF assms(1)]) (use assms(2,3) once_step_inv once_step_settled in metis)+

interpretation onc: protocol once_step once_new "\<lambda>x. \<exists>w. once_inv x w"
  by unfold_locales (use once_new_inv once_step_inv in blast)+

text \<open>
  C32. One-time initialisation: however the calls that get and that initialise it interleave, at most one
  initialiser is ever started. Every reference that a call returns is to memory that has been
  written, and from then on the instance is complete and keeps that value, so that all callers
  see the same one. Once a call has panicked because an initialiser did, the instance is
  poisoned for good and no call ever returns a reference.
\<close>

theorem once_single_value:
  assumes "reaches once_step once_new x"
  shows "on_runs x \<le> 1 \<and>
    (\<forall>t r y. on_pc x t = OReturned r \<longrightarrow> reaches once_step x y \<longrightarrow>
       r \<noteq> None \<and> on_state y = Complete \<and> on_value y = r) \<and>
    (\<forall>t y. on_pc x t = OPanicked \<longrightarrow> reaches once_step x y \<longrightarrow>
       on_state y = Poisoned \<and> (\<forall>u r. on_pc y u \<noteq> OReturned r))"
proof -
  obtain w where w: "once_inv x w" using onc.inv_reachable [OF assms] by blast
  note I = once_invD [OF w]
  have "r \<noteq> None \<and> on_state y = Complete \<and> on_value y = r"
    if "on_pc x t = OReturned r" "reaches once_step x y" for t r y
    using once_settled [OF that(2) w] I(4) I(6,7) [OF that(1)] by auto
  moreover have "on_state y = Poisoned \<and> (\<forall>u r. on_pc y u \<noteq> OReturned r)"
    if "on_pc x t = OPanicked" "reaches once_step x y" for t y
  proof -
    have p: "on_state y = Poisoned" "\<exists>w. once_inv y w" using once_settled [OF that(2) w] I(8) [OF that(1)] by auto
    then show ?thesis using once_invD(6) by fastforce
  qed
  moreover have "on_runs x \<le> 1" using I(3) by simp
  ultimately show ?thesis by blast
qed

theorem once_single_value_witness:
  "\<exists>x :: nat once. reaches once_step once_new x \<and> on_pc x 0 = OReturned (Some 5) \<and> on_runs x \<le> 1 \<and>
     on_state x = Complete \<and> on_value x = Some 5"
proof -
  define x1 :: "nat once" where "x1 = move 0 OGet once_new"
  define x2 where "x2 = move 0 OExchange x1"
  define x3 where "x3 = move 0 OInit (x2\<lparr>on_state := Running, on_runs := Suc (on_runs x2)\<rparr>)"
  define x4 where "x4 = move 0 OWritten (x3\<lparr>on_value := Some 5\<rparr>)"
  define x5 where "x5 = move 0 (OReturned (on_value x4)) (x4\<lparr>on_state := Complete\<rparr>)"
  note xs = x1_def x2_def x3_def x4_def x5_def once_new_def
  have "reaches once_step once_new x1" unfolding x1_def by (rule once_run [OF _ call_once]) (simp_all add: xs)
  then have "reaches once_step once_new x2" unfolding x2_def by (rule once_run [OF _ fast_miss]) (simp_all add: xs)
  then have "reaches once_step once_new x3" unfolding x3_def by (rule once_run [OF _ exchange_wins]) (simp_all add: xs)
  then have "reaches once_step once_new x4" unfolding x4_def by (rule once_run [OF _ init_returns]) (simp_all add: xs)
  then have run: "reaches once_step once_new x5" unfolding x5_def by (rule once_run [OF _ finish]) (simp_all add: xs)
  have "on_pc x5 0 = OReturned (Some 5)" by (simp add: xs)
  then show ?thesis using once_single_value [OF run] run by blast
qed

end
