(* ===== verification/Namecache.thy ===== *)
theory Namecache
  imports Protocol Errors Bytes "HOL-Library.Multiset"
begin

text \<open>
  Model of the name cache of \<open>kernel/src/fs/namecache.rs\<close>: buckets of eight entries found by a
  hash of the directory and the name, replaced least recently used first, and the protocol
  between lookups and mutations. The protocol is a step relation: one step is one access of a
  thread to a directory sequence, one section of code under a bucket lock that reads no other
  shared state, or one call of the file system. The file system is the map from a directory and
  a name to the node it holds; a lookup in it returns the content at one moment or an error, and
  a thread changes it only at names for which it has a mutation guard, which is what the code
  asks of its callers.

  The sequence of a directory is a 64-bit word whose low 16 bits count the active mutations. The
  runs considered are those with fewer than \<open>2^16\<close> active mutations of a directory and fewer
  than \<open>2^48\<close> beginnings and ends of mutations of it; beyond that the word wraps around.
\<close>

unbundle bit_operations_syntax

section \<open>Buckets\<close>

definition NC_BUCKETS :: nat where
  "NC_BUCKETS = 256"

definition WAYS :: nat where
  "WAYS = 8"

definition NC_WRITER :: nat where
  "NC_WRITER = 65536"

record vnode_key =
  vk_filesystem :: u64
  vk_node :: u64

record name_entry =
  ne_parent :: vnode_key
  ne_name :: "u8 list"
  ne_target :: "nat option"
  ne_used :: nat

record name_bucket =
  nb_entries :: "name_entry option list"
  nb_clock :: nat

definition name_bucket_new :: name_bucket where
  "name_bucket_new = \<lparr>nb_entries = replicate WAYS None, nb_clock = 0\<rparr>"

definition fnv_step :: "u64 \<Rightarrow> u8 \<Rightarrow> u64" where
  "fnv_step h b = (h XOR ucast b) * 0x100000001b3"

definition name_hash :: "vnode_key \<Rightarrow> u8 list \<Rightarrow> u64" where
  "name_hash k name = foldl fnv_step 0xcbf29ce484222325
     (to_le_bytes 8 (unat (vk_filesystem k)) @ to_le_bytes 8 (unat (vk_node k)) @ name)"

definition name_bucket_of :: "vnode_key \<Rightarrow> u8 list \<Rightarrow> nat" where
  "name_bucket_of k name = (let h = name_hash k name in unat ((h XOR drop_bit 32 h) AND 255))"

definition names_entry :: "vnode_key \<Rightarrow> u8 list \<Rightarrow> name_entry option \<Rightarrow> bool" where
  \<comment> \<open>the test of a slot in the searches\<close>
  "names_entry k name slot = (case slot of None \<Rightarrow> False | Some e \<Rightarrow> ne_parent e = k \<and> ne_name e = name)"

fun position_of :: "('a \<Rightarrow> bool) \<Rightarrow> 'a list \<Rightarrow> nat option" where
  \<comment> \<open>\<open>Iterator::position\<close>\<close>
  "position_of P [] = None"
| "position_of P (x # xs) = (if P x then Some 0 else map_option Suc (position_of P xs))"

definition find_name :: "vnode_key \<Rightarrow> u8 list \<Rightarrow> name_bucket \<Rightarrow> name_entry option" where
  "find_name k name b =
     (case position_of (names_entry k name) (nb_entries b) of None \<Rightarrow> None | Some i \<Rightarrow> nb_entries b ! i)"

definition remove_name :: "vnode_key \<Rightarrow> u8 list \<Rightarrow> name_bucket \<Rightarrow> name_bucket" where
  \<comment> \<open>the retired entry of a mutation\<close>
  "remove_name k name b =
     (case position_of (names_entry k name) (nb_entries b) of None \<Rightarrow> b
      | Some i \<Rightarrow> b\<lparr>nb_entries := (nb_entries b)[i := None]\<rparr>)"

definition tick_bucket :: "name_bucket \<Rightarrow> name_bucket" where
  "tick_bucket b = b\<lparr>nb_clock := (nb_clock b + 1) mod u64_limit\<rparr>"

definition touch_name :: "vnode_key \<Rightarrow> u8 list \<Rightarrow> name_bucket \<Rightarrow> name_bucket" where
  \<comment> \<open>a hit marks its entry as used now\<close>
  "touch_name k name b =
     (case position_of (names_entry k name) (nb_entries b) of None \<Rightarrow> b
      | Some i \<Rightarrow> b\<lparr>nb_entries := (nb_entries b)[i := map_option (\<lambda>e. e\<lparr>ne_used := nb_clock b\<rparr>) (nb_entries b ! i)]\<rparr>)"

fun oldest :: "name_entry option list \<Rightarrow> (nat \<times> nat) panics" where
  \<comment> \<open>\<open>min_by_key\<close>: the first slot of least use, with that use; an empty slot panics\<close>
  "oldest [] = None"
| "oldest [Some e] = Some (0, ne_used e)"
| "oldest (Some e # es) =
     (case oldest es of None \<Rightarrow> None
      | Some (i, u) \<Rightarrow> if ne_used e \<le> u then Some (0, ne_used e) else Some (Suc i, u))"
| "oldest (None # es) = None"

definition slot_for :: "vnode_key \<Rightarrow> u8 list \<Rightarrow> name_bucket \<Rightarrow> nat panics" where
  "slot_for k name b =
     (case position_of (names_entry k name) (nb_entries b) of Some i \<Rightarrow> Some i
      | None \<Rightarrow> (case position_of (\<lambda>slot. slot = None) (nb_entries b) of Some i \<Rightarrow> Some i
          | None \<Rightarrow> map_option fst (oldest (nb_entries b))))"

definition publish_name :: "vnode_key \<Rightarrow> u8 list \<Rightarrow> nat option \<Rightarrow> name_bucket \<Rightarrow> name_bucket panics" where
  "publish_name k name target b =
     map_option (\<lambda>i. b\<lparr>nb_entries := (nb_entries b)
         [i := Some \<lparr>ne_parent = k, ne_name = name, ne_target = target, ne_used = nb_clock b\<rparr>]\<rparr>)
       (slot_for k name b)"

definition reclaim_bucket :: "name_bucket \<Rightarrow> name_bucket" where
  "reclaim_bucket b = b\<lparr>nb_entries := replicate WAYS None\<rparr>"

definition purge_slot :: "u64 \<Rightarrow> name_entry option \<Rightarrow> name_entry option" where
  "purge_slot fs slot = (case slot of None \<Rightarrow> None
     | Some e \<Rightarrow> if vk_filesystem (ne_parent e) = fs then None else Some e)"

definition purge_bucket :: "u64 \<Rightarrow> name_bucket \<Rightarrow> name_bucket" where
  "purge_bucket fs b = b\<lparr>nb_entries := map (purge_slot fs) (nb_entries b)\<rparr>"

definition reclaim_order :: "nat \<Rightarrow> nat \<Rightarrow> nat list" where
  \<comment> \<open>the buckets that a reclaim visits, from the hand on\<close>
  "reclaim_order start buckets = map (\<lambda>offset. (start + offset) mod u64_limit mod NC_BUCKETS) [0..<min buckets NC_BUCKETS]"

section \<open>The protocol\<close>

type_synonym name_result = "fs_error + nat"
type_synonym name_guard = "vnode_key \<times> u8 list"

definition result_of :: "nat option \<Rightarrow> name_result" where
  \<comment> \<open>the answer of a hit\<close>
  "result_of target = (case target of None \<Rightarrow> Inl NotFound | Some v \<Rightarrow> Inr v)"

definition target_of :: "name_result \<Rightarrow> nat option" where
  "target_of r = (case r of Inl e \<Rightarrow> None | Inr v \<Rightarrow> Some v)"

definition cacheable :: "name_result \<Rightarrow> bool" where
  "cacheable r = (case r of Inl e \<Rightarrow> e = NotFound | Inr v \<Rightarrow> True)"

datatype nc_pc =
    Outside "name_guard list"                             \<comment> \<open>between calls, with these mutation guards\<close>
  | Removing vnode_key "u8 list" "name_guard list"        \<comment> \<open>\<open>write\<close>: the gate is closed, the entry not yet removed\<close>
  | Snapshot vnode_key "u8 list"                          \<comment> \<open>\<open>lookup\<close>: before the first snapshot\<close>
  | Probe vnode_key "u8 list" nat                         \<comment> \<open>with a stamp, before the bucket lock\<close>
  | Locked vnode_key "u8 list" nat                        \<comment> \<open>has the bucket lock\<close>
  | Loading vnode_key "u8 list" "nat option"              \<comment> \<open>before the call of the file system\<close>
  | Loaded vnode_key "u8 list" "nat option" name_result
  | Publishing vnode_key "u8 list" nat name_result        \<comment> \<open>before the second bucket lock\<close>
  | Storing vnode_key "u8 list" nat name_result           \<comment> \<open>has it\<close>
  | Admitted vnode_key "u8 list" name_result              \<comment> \<open>has checked the stamp under the lock\<close>
  | Answered vnode_key "u8 list" name_result              \<comment> \<open>the lookup has returned\<close>
  | Reclaiming "nat list"                                 \<comment> \<open>buckets still to visit\<close>
  | Purging u64 "nat list"
  | NamePanic

record name_cache =
  nc_seq :: "vnode_key \<Rightarrow> nat"
  nc_cache :: "nat \<Rightarrow> name_bucket"
  nc_lock :: "nat \<Rightarrow> nat option"
  nc_hand :: nat
  nc_dir :: "vnode_key \<Rightarrow> u8 list \<Rightarrow> nat option"        \<comment> \<open>the file system\<close>
  nc_pc :: "nat \<Rightarrow> nc_pc"
  nc_turns :: "vnode_key \<Rightarrow> nat"                          \<comment> \<open>beginnings and ends of mutations so far\<close>
  nc_writers :: "vnode_key \<Rightarrow> nat multiset"               \<comment> \<open>threads by active mutation\<close>
  nc_seen :: "nat \<Rightarrow> nat option set"                      \<comment> \<open>what the file system held during a lookup\<close>

definition name_cache_new :: "(vnode_key \<Rightarrow> u8 list \<Rightarrow> nat option) \<Rightarrow> name_cache" where
  "name_cache_new dir = \<lparr>nc_seq = (\<lambda>k. 0), nc_cache = (\<lambda>b. name_bucket_new), nc_lock = (\<lambda>b. None), nc_hand = 0,
     nc_dir = dir, nc_pc = (\<lambda>t. Outside []), nc_turns = (\<lambda>k. 0), nc_writers = (\<lambda>k. {#}), nc_seen = (\<lambda>t. {})\<rparr>"

definition snapshot :: "vnode_key \<Rightarrow> name_cache \<Rightarrow> nat option" where
  "snapshot k x = (if nc_seq x k mod 65536 = 0 then Some (nc_seq x k) else None)"

fun looking_at :: "nc_pc \<Rightarrow> name_guard option" where
  \<comment> \<open>the name of a lookup in progress\<close>
  "looking_at (Snapshot k n) = Some (k, n)" | "looking_at (Probe k n s) = Some (k, n)"
| "looking_at (Locked k n s) = Some (k, n)" | "looking_at (Loading k n s) = Some (k, n)"
| "looking_at (Loaded k n s r) = Some (k, n)" | "looking_at (Publishing k n s r) = Some (k, n)"
| "looking_at (Storing k n s r) = Some (k, n)" | "looking_at (Admitted k n r) = Some (k, n)"
| "looking_at (Answered k n r) = None" | "looking_at (Outside gs) = None" | "looking_at (Removing k n gs) = None"
| "looking_at (Reclaiming bs) = None" | "looking_at (Purging fs bs) = None" | "looking_at NamePanic = None"

definition names_at :: "nat \<Rightarrow> nc_pc \<Rightarrow> name_cache \<Rightarrow> name_cache" where
  "names_at t p x = x\<lparr>nc_pc := (nc_pc x)(t := p)\<rparr>"

definition lock_bucket :: "nat \<Rightarrow> nat option \<Rightarrow> name_cache \<Rightarrow> name_cache" where
  "lock_bucket b h x = x\<lparr>nc_lock := (nc_lock x)(b := h)\<rparr>"

definition set_names :: "nat \<Rightarrow> name_bucket \<Rightarrow> name_cache \<Rightarrow> name_cache" where
  "set_names b v x = x\<lparr>nc_cache := (nc_cache x)(b := v)\<rparr>"

definition count_writer :: "vnode_key \<Rightarrow> nat \<Rightarrow> nat multiset \<Rightarrow> name_cache \<Rightarrow> name_cache" where
  \<comment> \<open>an addition to the sequence of a directory\<close>
  "count_writer k d w x = x\<lparr>nc_seq := (nc_seq x)(k := (nc_seq x k + d) mod u64_limit),
     nc_turns := (nc_turns x)(k := nc_turns x k + 1), nc_writers := (nc_writers x)(k := w)\<rparr>"

definition change_dir :: "(vnode_key \<Rightarrow> u8 list \<Rightarrow> nat option) \<Rightarrow> name_cache \<Rightarrow> name_cache" where
  \<comment> \<open>the file system changes; lookups in progress see it\<close>
  "change_dir dir x = x\<lparr>nc_dir := dir, nc_seen := (\<lambda>u. case looking_at (nc_pc x u) of None \<Rightarrow> nc_seen x u
     | Some (k, n) \<Rightarrow> insert (dir k n) (nc_seen x u))\<rparr>"

inductive nc_step :: "nat \<Rightarrow> name_cache \<Rightarrow> name_cache \<Rightarrow> bool" for t where
  lookup_call: "nc_pc x t = Outside [] \<Longrightarrow>
    nc_step t x (names_at t (Snapshot k n) (x\<lparr>nc_seen := (nc_seen x)(t := {nc_dir x k n})\<rparr>))"
| snapshot_taken: "nc_pc x t = Snapshot k n \<Longrightarrow> snapshot k x = Some s \<Longrightarrow> nc_step t x (names_at t (Probe k n s) x)"
| snapshot_busy: "nc_pc x t = Snapshot k n \<Longrightarrow> snapshot k x = None \<Longrightarrow> nc_step t x (names_at t (Loading k n None) x)"
| probe: "nc_pc x t = Probe k n s \<Longrightarrow> b = name_bucket_of k n \<Longrightarrow> nc_lock x b = None \<Longrightarrow>
    nc_step t x (names_at t (Locked k n s) (lock_bucket b (Some t) (set_names b (tick_bucket (nc_cache x b)) x)))"
| hit: "nc_pc x t = Locked k n s \<Longrightarrow> b = name_bucket_of k n \<Longrightarrow> find_name k n (nc_cache x b) = Some e \<Longrightarrow>
    snapshot k x = Some s \<Longrightarrow>
    nc_step t x (names_at t (Answered k n (result_of (ne_target e)))
      (lock_bucket b None (set_names b (touch_name k n (nc_cache x b)) x)))"
| miss: "nc_pc x t = Locked k n s \<Longrightarrow> b = name_bucket_of k n \<Longrightarrow>
    find_name k n (nc_cache x b) = None \<or> snapshot k x \<noteq> Some s \<Longrightarrow>
    nc_step t x (names_at t (Loading k n (Some s)) (lock_bucket b None x))"
| load: "nc_pc x t = Loading k n so \<Longrightarrow> r = result_of (nc_dir x k n) \<or> r = Inl e \<and> e \<noteq> NotFound \<Longrightarrow>
    nc_step t x (names_at t (Loaded k n so r) x)"
| uncached: "nc_pc x t = Loaded k n None r \<Longrightarrow> nc_step t x (names_at t (Answered k n r) x)"
| not_cached: "nc_pc x t = Loaded k n (Some s) r \<Longrightarrow> \<not> cacheable r \<or> snapshot k x \<noteq> Some s \<Longrightarrow>
    nc_step t x (names_at t (Answered k n r) x)"
| caches: "nc_pc x t = Loaded k n (Some s) r \<Longrightarrow> cacheable r \<Longrightarrow> snapshot k x = Some s \<Longrightarrow>
    nc_step t x (names_at t (Publishing k n s r) x)"
| no_memory: "nc_pc x t = Publishing k n s r \<Longrightarrow> nc_step t x (names_at t (Answered k n r) x)"
| store_lock: "nc_pc x t = Publishing k n s r \<Longrightarrow> b = name_bucket_of k n \<Longrightarrow> nc_lock x b = None \<Longrightarrow>
    nc_step t x (names_at t (Storing k n s r) (lock_bucket b (Some t) x))"
| stale: "nc_pc x t = Storing k n s r \<Longrightarrow> b = name_bucket_of k n \<Longrightarrow> snapshot k x \<noteq> Some s \<Longrightarrow>
    nc_step t x (names_at t (Answered k n r) (lock_bucket b None x))"
| admit: "nc_pc x t = Storing k n s r \<Longrightarrow> snapshot k x = Some s \<Longrightarrow> nc_step t x (names_at t (Admitted k n r) x)"
| publish: "nc_pc x t = Admitted k n r \<Longrightarrow> b = name_bucket_of k n \<Longrightarrow>
    publish_name k n (target_of r) (nc_cache x b) = Some v \<Longrightarrow>
    nc_step t x (names_at t (Answered k n r) (lock_bucket b None (set_names b v x)))"
| publish_fails: "nc_pc x t = Admitted k n r \<Longrightarrow>
    publish_name k n (target_of r) (nc_cache x (name_bucket_of k n)) = None \<Longrightarrow> nc_step t x (names_at t NamePanic x)"
| returns: "nc_pc x t = Answered k n r \<Longrightarrow> nc_step t x (names_at t (Outside []) x)"
| write_begin: "nc_pc x t = Outside gs \<Longrightarrow>
    nc_step t x (names_at t (Removing k n gs) (count_writer k (NC_WRITER + 1) (add_mset t (nc_writers x k)) x))"
| write_remove: "nc_pc x t = Removing k n gs \<Longrightarrow> b = name_bucket_of k n \<Longrightarrow> nc_lock x b = None \<Longrightarrow>
    nc_step t x (names_at t (Outside ((k, n) # gs)) (set_names b (remove_name k n (nc_cache x b)) x))"
| change: "nc_pc x t = Outside gs \<Longrightarrow> (\<And>k n. (k, n) \<notin> set gs \<Longrightarrow> dir k n = nc_dir x k n) \<Longrightarrow>
    nc_step t x (change_dir dir x)"
| write_end: "nc_pc x t = Outside ((k, n) # gs) \<Longrightarrow>
    nc_step t x (names_at t (Outside gs) (count_writer k (NC_WRITER - 1) (nc_writers x k - {#t#}) x))"
| vnode_new: "nc_writers x k = {#} \<Longrightarrow> (\<And>u n. looking_at (nc_pc x u) \<noteq> Some (k, n)) \<Longrightarrow>
    nc_step t x (x\<lparr>nc_seq := (nc_seq x)(k := 0), nc_turns := (nc_turns x)(k := 0)\<rparr>)"
| reclaim_call: "nc_pc x t = Outside [] \<Longrightarrow>
    nc_step t x (names_at t (Reclaiming (reclaim_order (nc_hand x) m)) (x\<lparr>nc_hand := (nc_hand x + m) mod u64_limit\<rparr>))"
| reclaim_one: "nc_pc x t = Reclaiming (b # bs) \<Longrightarrow> nc_lock x b = None \<Longrightarrow>
    nc_step t x (names_at t (Reclaiming bs) (set_names b (reclaim_bucket (nc_cache x b)) x))"
| reclaim_busy: "nc_pc x t = Reclaiming (b # bs) \<Longrightarrow> nc_lock x b \<noteq> None \<Longrightarrow> nc_step t x (names_at t (Reclaiming bs) x)"
| reclaim_done: "nc_pc x t = Reclaiming [] \<Longrightarrow> nc_step t x (names_at t (Outside []) x)"
| purge_call: "nc_pc x t = Outside [] \<Longrightarrow> nc_step t x (names_at t (Purging fs [0..<NC_BUCKETS]) x)"
| purge_one: "nc_pc x t = Purging fs (b # bs) \<Longrightarrow> nc_lock x b = None \<Longrightarrow>
    nc_step t x (names_at t (Purging fs bs) (set_names b (purge_bucket fs (nc_cache x b)) x))"
| purge_done: "nc_pc x t = Purging fs [] \<Longrightarrow> nc_step t x (names_at t (Outside []) x)"

definition nc_fits :: "name_cache \<Rightarrow> bool" where
  "nc_fits x \<longleftrightarrow> (\<forall>k. size (nc_writers x k) < 65536 \<and> nc_turns x k < 2 ^ 48)"

definition nc_run :: "nat \<Rightarrow> name_cache \<Rightarrow> name_cache \<Rightarrow> bool" where
  \<comment> \<open>a step within the bounds of the sequence word\<close>
  "nc_run t x y \<longleftrightarrow> nc_step t x y \<and> nc_fits y"

section \<open>Lemmas on buckets\<close>

lemma position_of_Some: "position_of P xs = Some i \<longleftrightarrow> i < length xs \<and> P (xs ! i) \<and> (\<forall>j<i. \<not> P (xs ! j))"
proof (induction xs arbitrary: i)
  case (Cons x xs)
  show ?case
    by (cases i) (use Cons in \<open>auto simp: less_Suc_eq_0_disj\<close>)
qed simp

lemma position_of_None: "position_of P xs = None \<longleftrightarrow> (\<forall>x\<in>set xs. \<not> P x)"
  by (induction xs) auto

definition entry_in :: "name_entry \<Rightarrow> name_bucket \<Rightarrow> bool" where
  "entry_in e b \<longleftrightarrow> Some e \<in> set (nb_entries b)"

definition bucket_ok :: "nat \<Rightarrow> name_bucket \<Rightarrow> bool" where
  \<comment> \<open>eight slots, every name at most once, and only names of this bucket\<close>
  "bucket_ok i b \<longleftrightarrow> length (nb_entries b) = WAYS \<and>
     (\<forall>p q e. p < WAYS \<longrightarrow> q < WAYS \<longrightarrow> nb_entries b ! p = Some e \<longrightarrow>
        names_entry (ne_parent e) (ne_name e) (nb_entries b ! q) \<longrightarrow> p = q) \<and>
     (\<forall>e. entry_in e b \<longrightarrow> name_bucket_of (ne_parent e) (ne_name e) = i)"

lemma names_entry_Some [simp]: "names_entry k n (Some e) \<longleftrightarrow> ne_parent e = k \<and> ne_name e = n"
  "\<not> names_entry k n None"
  by (simp_all add: names_entry_def)

lemma names_entryE: "names_entry k n slot \<Longrightarrow> (\<And>e. slot = Some e \<Longrightarrow> ne_parent e = k \<Longrightarrow> ne_name e = n \<Longrightarrow> thesis) \<Longrightarrow> thesis"
  by (cases slot) auto

lemma bucket_okD:
  assumes "bucket_ok i b"
  shows "length (nb_entries b) = WAYS"
    and "p < WAYS \<Longrightarrow> q < WAYS \<Longrightarrow> nb_entries b ! p = Some e \<Longrightarrow> nb_entries b ! q = Some e' \<Longrightarrow>
      ne_parent e = ne_parent e' \<Longrightarrow> ne_name e = ne_name e' \<Longrightarrow> p = q"
    and "entry_in e b \<Longrightarrow> name_bucket_of (ne_parent e) (ne_name e) = i"
  using assms by (auto simp: bucket_ok_def)

lemma entry_in_nth: "length (nb_entries b) = WAYS \<Longrightarrow> entry_in e b \<longleftrightarrow> (\<exists>p<WAYS. nb_entries b ! p = Some e)"
  by (auto simp: entry_in_def in_set_conv_nth)

lemma bucket_new_ok: "bucket_ok i name_bucket_new" "\<not> entry_in e name_bucket_new"
  by (simp_all add: bucket_ok_def name_bucket_new_def entry_in_def)

lemma bucket_ok_clock [simp]: "bucket_ok i (b\<lparr>nb_clock := c\<rparr>) = bucket_ok i b" "entry_in e (b\<lparr>nb_clock := c\<rparr>) = entry_in e b"
  by (simp_all add: bucket_ok_def entry_in_def)

lemma find_name_Some:
  assumes "find_name k n b = Some e"
  shows "entry_in e b \<and> ne_parent e = k \<and> ne_name e = n"
proof -
  obtain p where p: "position_of (names_entry k n) (nb_entries b) = Some p" "nb_entries b ! p = Some e"
    using assms by (auto simp: find_name_def split: option.splits)
  then show ?thesis by (auto simp: position_of_Some entry_in_def in_set_conv_nth)
qed

lemma find_name_complete:
  assumes "bucket_ok i b" "entry_in e b"
  shows "find_name (ne_parent e) (ne_name e) b = Some e"
proof -
  note B = bucket_okD [OF assms(1)]
  obtain p where p: "p < WAYS" "nb_entries b ! p = Some e" using assms(2) B(1) by (auto simp: entry_in_nth)
  then have "position_of (names_entry (ne_parent e) (ne_name e)) (nb_entries b) \<noteq> None"
    using B(1) by (auto simp: position_of_None in_set_conv_nth intro!: bexI [of _ "Some e"] exI [of _ p])
  then obtain q where q: "position_of (names_entry (ne_parent e) (ne_name e)) (nb_entries b) = Some q" by blast
  obtain e' where e': "q < WAYS" "nb_entries b ! q = Some e'" "ne_parent e' = ne_parent e" "ne_name e' = ne_name e"
    using q B(1) by (auto simp: position_of_Some elim: names_entryE)
  then have "p = q" using B(2) p by metis
  then show ?thesis using q p by (simp add: find_name_def)
qed

lemma update_slot_ok:
  assumes ok: "bucket_ok i b" and p: "p < WAYS"
    and fresh: "\<And>q e e'. slot = Some e \<Longrightarrow> q < WAYS \<Longrightarrow> q \<noteq> p \<Longrightarrow> nb_entries b ! q = Some e' \<Longrightarrow>
      ne_parent e = ne_parent e' \<Longrightarrow> ne_name e \<noteq> ne_name e'"
    and place: "\<And>e. slot = Some e \<Longrightarrow> name_bucket_of (ne_parent e) (ne_name e) = i"
  shows "bucket_ok i (b\<lparr>nb_entries := (nb_entries b)[p := slot]\<rparr>)"
    and "entry_in e (b\<lparr>nb_entries := (nb_entries b)[p := slot]\<rparr>) \<longleftrightarrow>
      slot = Some e \<or> (\<exists>q<WAYS. q \<noteq> p \<and> nb_entries b ! q = Some e)"
proof -
  note B = bucket_okD [OF ok]
  show in_iff: "entry_in e (b\<lparr>nb_entries := (nb_entries b)[p := slot]\<rparr>) \<longleftrightarrow>
      slot = Some e \<or> (\<exists>q<WAYS. q \<noteq> p \<and> nb_entries b ! q = Some e)" for e
    using p B(1) by (subst entry_in_nth) (auto simp: nth_list_update)
  have kept: "entry_in e b" if "q < WAYS" "nb_entries b ! q = Some e" for q e
    using that B(1) by (auto simp: entry_in_nth)
  show "bucket_ok i (b\<lparr>nb_entries := (nb_entries b)[p := slot]\<rparr>)"
    unfolding bucket_ok_def
  proof (intro conjI allI impI)
    show "length (nb_entries (b\<lparr>nb_entries := (nb_entries b)[p := slot]\<rparr>)) = WAYS" using B(1) by simp
    show "name_bucket_of (ne_parent e) (ne_name e) = i"
      if "entry_in e (b\<lparr>nb_entries := (nb_entries b)[p := slot]\<rparr>)" for e
      using that place kept B(3) unfolding in_iff by blast
    fix u v e
    assume u: "u < WAYS" "v < WAYS" "nb_entries (b\<lparr>nb_entries := (nb_entries b)[p := slot]\<rparr>) ! u = Some e"
      and "names_entry (ne_parent e) (ne_name e) (nb_entries (b\<lparr>nb_entries := (nb_entries b)[p := slot]\<rparr>) ! v)"
    then obtain e' where v: "(nb_entries b)[p := slot] ! v = Some e'" "ne_parent e' = ne_parent e" "ne_name e' = ne_name e"
      by (auto elim: names_entryE)
    show "u = v"
    proof (cases "u = p \<or> v = p")
      case True
      then show ?thesis using u v p B(1) fresh [of e v e'] fresh [of e' u e]
        by (auto simp: nth_list_update split: if_splits)
    next
      case False
      then show ?thesis using u v B(1) B(2) [of u v e e'] by simp
    qed
  qed
qed

lemma put_slot_ok:
  assumes "bucket_ok i b" "p < WAYS" and alone: "\<And>q. q < WAYS \<Longrightarrow> q \<noteq> p \<Longrightarrow> \<not> names_entry k n (nb_entries b ! q)"
    and e: "ne_parent e = k" "ne_name e = n" "name_bucket_of k n = i"
  shows "bucket_ok i (b\<lparr>nb_entries := (nb_entries b)[p := Some e]\<rparr>)"
    and "entry_in e' (b\<lparr>nb_entries := (nb_entries b)[p := Some e]\<rparr>) \<longleftrightarrow>
      e' = e \<or> (\<exists>q<WAYS. q \<noteq> p \<and> nb_entries b ! q = Some e')"
proof -
  have fresh: "ne_name d \<noteq> ne_name d'"
    if "Some e = Some d" "q < WAYS" "q \<noteq> p" "nb_entries b ! q = Some d'" "ne_parent d = ne_parent d'" for q d d'
    using that alone [of q] e by auto
  have place: "name_bucket_of (ne_parent d) (ne_name d) = i" if "Some e = Some d" for d using that e by simp
  show "bucket_ok i (b\<lparr>nb_entries := (nb_entries b)[p := Some e]\<rparr>)"
    by (rule update_slot_ok(1) [OF assms(1,2) fresh place])
  show "entry_in e' (b\<lparr>nb_entries := (nb_entries b)[p := Some e]\<rparr>) \<longleftrightarrow>
      e' = e \<or> (\<exists>q<WAYS. q \<noteq> p \<and> nb_entries b ! q = Some e')"
    by (subst update_slot_ok(2) [OF assms(1,2) fresh place]) auto
qed

lemma remove_name_spec:
  assumes ok: "bucket_ok i b"
  shows "bucket_ok i (remove_name k n b)"
    and "entry_in e (remove_name k n b) \<longleftrightarrow> entry_in e b \<and> \<not> (ne_parent e = k \<and> ne_name e = n)"
proof -
  note B = bucket_okD [OF ok]
  have "bucket_ok i (remove_name k n b) \<and> (entry_in e (remove_name k n b) \<longleftrightarrow> entry_in e b \<and> \<not> (ne_parent e = k \<and> ne_name e = n))"
  proof (cases "position_of (names_entry k n) (nb_entries b)")
    case None
    then have "\<not> (ne_parent e = k \<and> ne_name e = n)" if "entry_in e b"
      using that by (auto simp: position_of_None entry_in_def)
    then show ?thesis using None ok by (auto simp: remove_name_def)
  next
    case (Some p)
    then obtain e0 where e0: "p < WAYS" "nb_entries b ! p = Some e0" "ne_parent e0 = k" "ne_name e0 = n"
      using B(1) by (auto simp: position_of_Some elim: names_entryE)
    have r: "remove_name k n b = b\<lparr>nb_entries := (nb_entries b)[p := None]\<rparr>" using Some by (simp add: remove_name_def)
    have U: "bucket_ok i (b\<lparr>nb_entries := (nb_entries b)[p := None]\<rparr>)"
      "entry_in e (b\<lparr>nb_entries := (nb_entries b)[p := None]\<rparr>) \<longleftrightarrow> (\<exists>q<WAYS. q \<noteq> p \<and> nb_entries b ! q = Some e)"
      using update_slot_ok [OF ok e0(1), of None] by simp_all
    have "(\<exists>q<WAYS. q \<noteq> p \<and> nb_entries b ! q = Some e) \<longleftrightarrow> entry_in e b \<and> \<not> (ne_parent e = k \<and> ne_name e = n)"
    proof
      assume "\<exists>q<WAYS. q \<noteq> p \<and> nb_entries b ! q = Some e"
      then obtain q where q: "q < WAYS" "q \<noteq> p" "nb_entries b ! q = Some e" by blast
      then show "entry_in e b \<and> \<not> (ne_parent e = k \<and> ne_name e = n)"
        using B(2) [OF q(1) e0(1) q(3) e0(2)] e0 by (auto simp: entry_in_nth [OF B(1)])
    next
      assume e: "entry_in e b \<and> \<not> (ne_parent e = k \<and> ne_name e = n)"
      then obtain q where "q < WAYS" "nb_entries b ! q = Some e" by (auto simp: entry_in_nth [OF B(1)])
      moreover have "q \<noteq> p" using calculation e e0 by auto
      ultimately show "\<exists>q<WAYS. q \<noteq> p \<and> nb_entries b ! q = Some e" by blast
    qed
    then show ?thesis using U r by simp
  qed
  then show "bucket_ok i (remove_name k n b)"
    "entry_in e (remove_name k n b) \<longleftrightarrow> entry_in e b \<and> \<not> (ne_parent e = k \<and> ne_name e = n)" by simp_all
qed

lemma touch_name_spec:
  assumes ok: "bucket_ok i b"
  shows "bucket_ok i (touch_name k n b)"
    and "entry_in e (touch_name k n b) \<Longrightarrow>
      \<exists>e'. entry_in e' b \<and> ne_parent e' = ne_parent e \<and> ne_name e' = ne_name e \<and> ne_target e' = ne_target e"
proof -
  note B = bucket_okD [OF ok]
  have "bucket_ok i (touch_name k n b) \<and> (entry_in e (touch_name k n b) \<longrightarrow>
      (\<exists>e'. entry_in e' b \<and> ne_parent e' = ne_parent e \<and> ne_name e' = ne_name e \<and> ne_target e' = ne_target e))"
  proof (cases "position_of (names_entry k n) (nb_entries b)")
    case None
    then show ?thesis using ok by (auto simp: touch_name_def)
  next
    case (Some p)
    then obtain e0 where e0: "p < WAYS" "nb_entries b ! p = Some e0" "ne_parent e0 = k" "ne_name e0 = n"
      using B(1) by (auto simp: position_of_Some elim: names_entryE)
    let ?e = "e0\<lparr>ne_used := nb_clock b\<rparr>"
    have r: "touch_name k n b = b\<lparr>nb_entries := (nb_entries b)[p := Some ?e]\<rparr>" using Some e0 by (simp add: touch_name_def)
    have "entry_in e0 b" using e0 B(1) by (auto simp: entry_in_nth)
    moreover have alone: "\<not> names_entry k n (nb_entries b ! q)" if "q < WAYS" "q \<noteq> p" for q
    proof
      assume "names_entry k n (nb_entries b ! q)"
      then obtain e' where "nb_entries b ! q = Some e'" "ne_parent e' = k" "ne_name e' = n" by (rule names_entryE)
      then show False using B(2) [OF that(1) e0(1) _ e0(2)] e0 that(2) by simp
    qed
    moreover have "bucket_ok i (b\<lparr>nb_entries := (nb_entries b)[p := Some ?e]\<rparr>)"
      "entry_in e (b\<lparr>nb_entries := (nb_entries b)[p := Some ?e]\<rparr>) \<longleftrightarrow> e = ?e \<or> (\<exists>q<WAYS. q \<noteq> p \<and> nb_entries b ! q = Some e)"
      using put_slot_ok [OF ok e0(1) alone, of ?e] B(3) [OF \<open>entry_in e0 b\<close>] e0 by simp_all
    ultimately show ?thesis using r B(1) by (auto simp: entry_in_nth)
  qed
  then show "bucket_ok i (touch_name k n b)"
    "entry_in e (touch_name k n b) \<Longrightarrow>
      \<exists>e'. entry_in e' b \<and> ne_parent e' = ne_parent e \<and> ne_name e' = ne_name e \<and> ne_target e' = ne_target e" by simp_all
qed

lemma oldest_spec:
  assumes "es \<noteq> []" "None \<notin> set es"
  shows "\<exists>p e. oldest es = Some (p, ne_used e) \<and> p < length es \<and> es ! p = Some e \<and>
    (\<forall>e'. Some e' \<in> set es \<longrightarrow> ne_used e \<le> ne_used e')"
  using assms
proof (induction es rule: oldest.induct)
  case (3 e e2 es)
  then obtain p d where IH: "oldest (e2 # es) = Some (p, ne_used d)" "p < length (e2 # es)" "(e2 # es) ! p = Some d"
    "\<forall>e'. Some e' \<in> set (e2 # es) \<longrightarrow> ne_used d \<le> ne_used e'" by (metis list.set_intros(2) list.distinct(1))
  show ?case
  proof (cases "ne_used e \<le> ne_used d")
    case True
    then have "oldest (Some e # e2 # es) = Some (0, ne_used e)" using IH(1) by simp
    moreover have "\<forall>e'. Some e' \<in> set (Some e # e2 # es) \<longrightarrow> ne_used e \<le> ne_used e'"
      using True IH(4) by (metis le_trans list.set_cases option.inject order_refl set_ConsD)
    ultimately show ?thesis by (intro exI [of _ 0] exI [of _ e]) simp
  next
    case False
    then have "oldest (Some e # e2 # es) = Some (Suc p, ne_used d)" using IH(1) by simp
    moreover have "\<forall>e'. Some e' \<in> set (Some e # e2 # es) \<longrightarrow> ne_used d \<le> ne_used e'"
      using False IH(4) by (metis nle_le option.inject set_ConsD)
    ultimately show ?thesis using IH(2,3) by (intro exI [of _ "Suc p"] exI [of _ d]) simp
  qed
qed simp_all

definition full_bucket :: "name_bucket \<Rightarrow> bool" where
  "full_bucket b \<longleftrightarrow> None \<notin> set (nb_entries b)"

lemma slot_for_spec:
  assumes ok: "bucket_ok i b"
  shows "\<exists>p<WAYS. slot_for k n b = Some p \<and> (\<forall>q<WAYS. q \<noteq> p \<longrightarrow> \<not> names_entry k n (nb_entries b ! q)) \<and>
    (\<forall>e. nb_entries b ! p = Some e \<longrightarrow> \<not> (ne_parent e = k \<and> ne_name e = n) \<longrightarrow> full_bucket b \<and>
      (\<forall>e'. entry_in e' b \<longrightarrow> ne_used e \<le> ne_used e' \<and> \<not> (ne_parent e' = k \<and> ne_name e' = n)))"
proof (cases "position_of (names_entry k n) (nb_entries b)")
  note B = bucket_okD [OF ok]
  case (Some p)
  then obtain e0 where e0: "p < WAYS" "nb_entries b ! p = Some e0" "ne_parent e0 = k" "ne_name e0 = n"
    using B(1) by (auto simp: position_of_Some elim: names_entryE)
  have "\<not> names_entry k n (nb_entries b ! q)" if "q < WAYS" "q \<noteq> p" for q
  proof
    assume "names_entry k n (nb_entries b ! q)"
    then obtain e' where "nb_entries b ! q = Some e'" "ne_parent e' = k" "ne_name e' = n" by (rule names_entryE)
    then show False using B(2) [OF that(1) e0(1) _ e0(2)] e0 that(2) by simp
  qed
  then show ?thesis using Some e0 by (intro exI [of _ p]) (simp add: slot_for_def)
next
  note B = bucket_okD [OF ok]
  case None
  then have free: "\<not> names_entry k n (nb_entries b ! q)" if "q < WAYS" for q
    using that B(1) by (simp add: position_of_None)
  then have others: "\<not> (ne_parent e' = k \<and> ne_name e' = n)" if "entry_in e' b" for e'
    using that B(1) by (metis entry_in_nth names_entry_Some(1))
  show ?thesis
  proof (cases "position_of (\<lambda>slot. slot = None) (nb_entries b)")
    case (Some p)
    then have "p < WAYS" "nb_entries b ! p = None" using B(1) by (auto simp: position_of_Some)
    then show ?thesis using None Some free by (intro exI [of _ p]) (simp add: slot_for_def)
  next
    case full: None
    then have f: "None \<notin> set (nb_entries b)" by (auto simp: position_of_None)
    have ne: "nb_entries b \<noteq> []" using B(1) by (auto simp: WAYS_def)
    obtain p e where p: "oldest (nb_entries b) = Some (p, ne_used e)" "p < WAYS" "nb_entries b ! p = Some e"
      "\<forall>e'. Some e' \<in> set (nb_entries b) \<longrightarrow> ne_used e \<le> ne_used e'"
      using oldest_spec [OF ne f] B(1) by auto
    then show ?thesis using None full free others f
      by (intro exI [of _ p]) (simp add: slot_for_def full_bucket_def entry_in_def)
  qed
qed

lemma publish_name_spec:
  assumes ok: "bucket_ok (name_bucket_of k n) b" and new: "new = \<lparr>ne_parent = k, ne_name = n, ne_target = v, ne_used = nb_clock b\<rparr>"
  shows "\<exists>b'. publish_name k n v b = Some b' \<and> bucket_ok (name_bucket_of k n) b' \<and> entry_in new b' \<and>
    (\<forall>e. entry_in e b' \<longrightarrow> e = new \<or> entry_in e b \<and> \<not> (ne_parent e = k \<and> ne_name e = n)) \<and>
    (\<forall>e. entry_in e b \<longrightarrow> \<not> (ne_parent e = k \<and> ne_name e = n) \<longrightarrow> \<not> entry_in e b' \<longrightarrow>
      full_bucket b \<and> find_name k n b = None \<and> (\<forall>e'. entry_in e' b \<longrightarrow> ne_used e \<le> ne_used e'))"
proof -
  note B = bucket_okD [OF ok]
  obtain p where p: "p < WAYS" "slot_for k n b = Some p" and alone: "\<And>q. q < WAYS \<Longrightarrow> q \<noteq> p \<Longrightarrow> \<not> names_entry k n (nb_entries b ! q)"
    and victim: "\<And>e. nb_entries b ! p = Some e \<Longrightarrow> \<not> (ne_parent e = k \<and> ne_name e = n) \<Longrightarrow> full_bucket b \<and>
      (\<forall>e'. entry_in e' b \<longrightarrow> ne_used e \<le> ne_used e' \<and> \<not> (ne_parent e' = k \<and> ne_name e' = n))"
    using slot_for_spec [OF ok, of k n] by blast
  define b' where "b' = b\<lparr>nb_entries := (nb_entries b)[p := Some new]\<rparr>"
  have P: "bucket_ok (name_bucket_of k n) b'" "\<And>e. entry_in e b' \<longleftrightarrow> e = new \<or> (\<exists>q<WAYS. q \<noteq> p \<and> nb_entries b ! q = Some e)"
    unfolding b'_def using put_slot_ok [OF ok p(1) alone, of new] by (simp_all add: new)
  have kept: "entry_in e b \<and> \<not> (ne_parent e = k \<and> ne_name e = n)" if "q < WAYS" "q \<noteq> p" "nb_entries b ! q = Some e" for q e
  proof
    show "entry_in e b" unfolding entry_in_nth [OF B(1)] using that by blast
    show "\<not> (ne_parent e = k \<and> ne_name e = n)" using alone [OF that(1,2)] that(3) by simp
  qed
  have lost: "full_bucket b \<and> find_name k n b = None \<and> (\<forall>e'. entry_in e' b \<longrightarrow> ne_used e \<le> ne_used e')"
    if e: "entry_in e b" "\<not> (ne_parent e = k \<and> ne_name e = n)" "\<not> entry_in e b'" for e
  proof -
    obtain q where "q < WAYS" "nb_entries b ! q = Some e" using e(1) by (auto simp: entry_in_nth [OF B(1)])
    then have "nb_entries b ! p = Some e" using e(3) P(2) by blast
    note V = victim [OF this e(2)]
    moreover have "find_name k n b = None"
    proof (rule ccontr)
      assume "find_name k n b \<noteq> None"
      then obtain d where "find_name k n b = Some d" by blast
      then show False using find_name_Some V by blast
    qed
    ultimately show ?thesis by simp
  qed
  show ?thesis
  proof (intro exI [of _ b'] conjI)
    show "publish_name k n v b = Some b'" using p(2) by (simp add: publish_name_def b'_def new)
    show "bucket_ok (name_bucket_of k n) b'" by (rule P(1))
    show "entry_in new b'" by (simp add: P(2))
    show "\<forall>e. entry_in e b' \<longrightarrow> e = new \<or> entry_in e b \<and> \<not> (ne_parent e = k \<and> ne_name e = n)"
      using kept unfolding P(2) by blast
    show "\<forall>e. entry_in e b \<longrightarrow> \<not> (ne_parent e = k \<and> ne_name e = n) \<longrightarrow> \<not> entry_in e b' \<longrightarrow>
      full_bucket b \<and> find_name k n b = None \<and> (\<forall>e'. entry_in e' b \<longrightarrow> ne_used e \<le> ne_used e')"
      using lost by iprover
  qed
qed

lemma purge_bucket_spec:
  assumes ok: "bucket_ok i b"
  shows "bucket_ok i (purge_bucket fs b)"
    and "entry_in e (purge_bucket fs b) \<longleftrightarrow> entry_in e b \<and> vk_filesystem (ne_parent e) \<noteq> fs"
proof -
  have slot: "purge_slot fs s = Some e \<longleftrightarrow> s = Some e \<and> vk_filesystem (ne_parent e) \<noteq> fs" for s e
    by (auto simp: purge_slot_def split: option.splits)
  have len: "length (nb_entries b) = WAYS" using ok by (simp add: bucket_ok_def)
  show in_iff: "entry_in e (purge_bucket fs b) \<longleftrightarrow> entry_in e b \<and> vk_filesystem (ne_parent e) \<noteq> fs" for e
    using len slot by (auto simp: purge_bucket_def entry_in_nth)
  show "bucket_ok i (purge_bucket fs b)" unfolding bucket_ok_def
  proof (intro conjI allI impI)
    show "length (nb_entries (purge_bucket fs b)) = WAYS" using len by (simp add: purge_bucket_def)
    show "name_bucket_of (ne_parent e) (ne_name e) = i" if "entry_in e (purge_bucket fs b)" for e
      using that bucket_okD(3) [OF ok] in_iff by blast
    fix p q e
    assume "p < WAYS" "q < WAYS" "nb_entries (purge_bucket fs b) ! p = Some e"
      "names_entry (ne_parent e) (ne_name e) (nb_entries (purge_bucket fs b) ! q)"
    then show "p = q" using len slot bucket_okD(2) [OF ok, of p q e] by (auto simp: purge_bucket_def elim!: names_entryE)
  qed
qed

end
