(* ===== verification/Namecache_Sync.thy ===== *)
theory Namecache_Sync
  imports Namecache
begin

text \<open>
  The protocol of the name cache keeps the cache coherent: the invariant below holds in every
  reachable state, and from it follows that a lookup returns what the directory held at some
  moment between its call and its return.
\<close>

section \<open>The invariant of the protocol\<close>

lemma names_at_fields [simp]:
  "nc_pc (names_at t p x) u = (if u = t then p else nc_pc x u)" "nc_seq (names_at t p x) = nc_seq x"
  "nc_cache (names_at t p x) = nc_cache x" "nc_lock (names_at t p x) = nc_lock x" "nc_dir (names_at t p x) = nc_dir x"
  "nc_turns (names_at t p x) = nc_turns x" "nc_writers (names_at t p x) = nc_writers x" "nc_seen (names_at t p x) = nc_seen x"
  by (simp_all add: names_at_def)

lemma lock_bucket_fields [simp]:
  "nc_lock (lock_bucket b h x) c = (if c = b then h else nc_lock x c)" "nc_seq (lock_bucket b h x) = nc_seq x"
  "nc_cache (lock_bucket b h x) = nc_cache x" "nc_pc (lock_bucket b h x) = nc_pc x" "nc_dir (lock_bucket b h x) = nc_dir x"
  "nc_turns (lock_bucket b h x) = nc_turns x" "nc_writers (lock_bucket b h x) = nc_writers x" "nc_seen (lock_bucket b h x) = nc_seen x"
  by (simp_all add: lock_bucket_def)

lemma set_names_fields [simp]:
  "nc_cache (set_names b v x) c = (if c = b then v else nc_cache x c)" "nc_seq (set_names b v x) = nc_seq x"
  "nc_lock (set_names b v x) = nc_lock x" "nc_pc (set_names b v x) = nc_pc x" "nc_dir (set_names b v x) = nc_dir x"
  "nc_turns (set_names b v x) = nc_turns x" "nc_writers (set_names b v x) = nc_writers x" "nc_seen (set_names b v x) = nc_seen x"
  by (simp_all add: set_names_def)

lemma count_writer_fields [simp]:
  "nc_seq (count_writer k d w x) j = (if j = k then (nc_seq x k + d) mod u64_limit else nc_seq x j)"
  "nc_turns (count_writer k d w x) j = (if j = k then nc_turns x k + 1 else nc_turns x j)"
  "nc_writers (count_writer k d w x) j = (if j = k then w else nc_writers x j)"
  "nc_cache (count_writer k d w x) = nc_cache x" "nc_lock (count_writer k d w x) = nc_lock x"
  "nc_pc (count_writer k d w x) = nc_pc x" "nc_dir (count_writer k d w x) = nc_dir x" "nc_seen (count_writer k d w x) = nc_seen x"
  by (simp_all add: count_writer_def)

lemma change_dir_fields [simp]:
  "nc_dir (change_dir dir x) = dir" "nc_seq (change_dir dir x) = nc_seq x" "nc_turns (change_dir dir x) = nc_turns x"
  "nc_writers (change_dir dir x) = nc_writers x" "nc_cache (change_dir dir x) = nc_cache x"
  "nc_lock (change_dir dir x) = nc_lock x" "nc_pc (change_dir dir x) = nc_pc x"
  by (simp_all add: change_dir_def)

fun guards_of :: "nc_pc \<Rightarrow> name_guard list" where
  "guards_of (Outside gs) = gs" | "guards_of (Removing k n gs) = (k, n) # gs" | "guards_of (Snapshot k n) = []"
| "guards_of (Probe k n s) = []" | "guards_of (Locked k n s) = []" | "guards_of (Loading k n s) = []"
| "guards_of (Loaded k n s r) = []" | "guards_of (Publishing k n s r) = []" | "guards_of (Storing k n s r) = []"
| "guards_of (Admitted k n r) = []" | "guards_of (Answered k n r) = []" | "guards_of (Reclaiming bs) = []"
| "guards_of (Purging fs bs) = []" | "guards_of NamePanic = []"

fun held_of :: "nc_pc \<Rightarrow> name_guard list" where
  \<comment> \<open>the guards whose name has left the cache\<close>
  "held_of (Outside gs) = gs" | "held_of (Removing k n gs) = gs" | "held_of (Snapshot k n) = []"
| "held_of (Probe k n s) = []" | "held_of (Locked k n s) = []" | "held_of (Loading k n s) = []"
| "held_of (Loaded k n s r) = []" | "held_of (Publishing k n s r) = []" | "held_of (Storing k n s r) = []"
| "held_of (Admitted k n r) = []" | "held_of (Answered k n r) = []" | "held_of (Reclaiming bs) = []"
| "held_of (Purging fs bs) = []" | "held_of NamePanic = []"

fun lock_of :: "nc_pc \<Rightarrow> nat option" where
  "lock_of (Locked k n s) = Some (name_bucket_of k n)" | "lock_of (Storing k n s r) = Some (name_bucket_of k n)"
| "lock_of (Admitted k n r) = Some (name_bucket_of k n)" | "lock_of (Outside gs) = None" | "lock_of (Removing k n gs) = None"
| "lock_of (Snapshot k n) = None" | "lock_of (Probe k n s) = None" | "lock_of (Loading k n s) = None"
| "lock_of (Loaded k n s r) = None" | "lock_of (Publishing k n s r) = None" | "lock_of (Answered k n r) = None"
| "lock_of (Reclaiming bs) = None" | "lock_of (Purging fs bs) = None" | "lock_of NamePanic = None"

fun stamp_of :: "nc_pc \<Rightarrow> (vnode_key \<times> nat) option" where
  "stamp_of (Probe k n s) = Some (k, s)" | "stamp_of (Locked k n s) = Some (k, s)"
| "stamp_of (Loading k n so) = map_option (Pair k) so" | "stamp_of (Loaded k n so r) = map_option (Pair k) so"
| "stamp_of (Publishing k n s r) = Some (k, s)" | "stamp_of (Storing k n s r) = Some (k, s)"
| "stamp_of (Outside gs) = None" | "stamp_of (Removing k n gs) = None" | "stamp_of (Snapshot k n) = None"
| "stamp_of (Admitted k n r) = None" | "stamp_of (Answered k n r) = None"
| "stamp_of (Reclaiming bs) = None" | "stamp_of (Purging fs bs) = None" | "stamp_of NamePanic = None"

fun answer_of :: "nc_pc \<Rightarrow> (name_guard \<times> name_result) option" where
  \<comment> \<open>the result that a lookup has\<close>
  "answer_of (Loaded k n so r) = Some ((k, n), r)" | "answer_of (Publishing k n s r) = Some ((k, n), r)"
| "answer_of (Storing k n s r) = Some ((k, n), r)" | "answer_of (Admitted k n r) = Some ((k, n), r)"
| "answer_of (Answered k n r) = Some ((k, n), r)" | "answer_of (Outside gs) = None" | "answer_of (Removing k n gs) = None"
| "answer_of (Snapshot k n) = None" | "answer_of (Probe k n s) = None" | "answer_of (Locked k n s) = None"
| "answer_of (Loading k n so) = None" | "answer_of (Reclaiming bs) = None" | "answer_of (Purging fs bs) = None"
| "answer_of NamePanic = None"

fun admitted_of :: "nc_pc \<Rightarrow> (name_guard \<times> name_result) option" where
  "admitted_of (Admitted k n r) = Some ((k, n), r)" | "admitted_of p = None"

fun storing_of :: "nc_pc \<Rightarrow> name_result option" where
  "storing_of (Publishing k n s r) = Some r" | "storing_of (Storing k n s r) = Some r" | "storing_of p = None"

lemma held_in_guards: "g \<in> set (held_of p) \<Longrightarrow> g \<in> set (guards_of p)"
  by (cases p) auto

lemma stamp_looking: "stamp_of p = Some (k, s) \<Longrightarrow> \<exists>n. looking_at p = Some (k, n)"
  by (cases p) auto

definition seq_inv :: "name_cache \<Rightarrow> bool" where
  "seq_inv x \<longleftrightarrow> (\<forall>k. nc_seq x k = 65536 * nc_turns x k + size (nc_writers x k))"

definition writers_inv :: "name_cache \<Rightarrow> bool" where
  "writers_inv x \<longleftrightarrow> (\<forall>k t. count (nc_writers x k) t = length (filter (\<lambda>g. fst g = k) (guards_of (nc_pc x t))))"

definition locks_inv :: "name_cache \<Rightarrow> bool" where
  "locks_inv x \<longleftrightarrow> (\<forall>b t. nc_lock x b = Some t \<longleftrightarrow> lock_of (nc_pc x t) = Some b)"

definition buckets_inv :: "name_cache \<Rightarrow> bool" where
  "buckets_inv x \<longleftrightarrow> (\<forall>b. bucket_ok b (nc_cache x b))"

definition unheld :: "name_cache \<Rightarrow> name_guard \<Rightarrow> bool" where
  "unheld x g \<longleftrightarrow> (\<forall>t. g \<notin> set (held_of (nc_pc x t)))"

definition entries_inv :: "name_cache \<Rightarrow> bool" where
  \<comment> \<open>every entry agrees with the file system, and nobody may change its name\<close>
  "entries_inv x \<longleftrightarrow> (\<forall>b e. entry_in e (nc_cache x b) \<longrightarrow>
     ne_target e = nc_dir x (ne_parent e) (ne_name e) \<and> unheld x (ne_parent e, ne_name e))"

definition stamps_inv :: "name_cache \<Rightarrow> bool" where
  "stamps_inv x \<longleftrightarrow> (\<forall>t k s. stamp_of (nc_pc x t) = Some (k, s) \<longrightarrow>
     s \<le> 65536 * nc_turns x k \<and> (s = 65536 * nc_turns x k \<longrightarrow> nc_writers x k = {#}))"

definition results_inv :: "name_cache \<Rightarrow> bool" where
  \<comment> \<open>a result is current as long as its stamp is\<close>
  "results_inv x \<longleftrightarrow> (\<forall>t k n r. answer_of (nc_pc x t) = Some ((k, n), r) \<longrightarrow>
     stamp_of (nc_pc x t) = Some (k, 65536 * nc_turns x k) \<longrightarrow> cacheable r \<longrightarrow> target_of r = nc_dir x k n) \<and>
     (\<forall>t r. storing_of (nc_pc x t) = Some r \<longrightarrow> cacheable r)"

definition admitted_inv :: "name_cache \<Rightarrow> bool" where
  "admitted_inv x \<longleftrightarrow> (\<forall>t k n r. admitted_of (nc_pc x t) = Some ((k, n), r) \<longrightarrow>
     target_of r = nc_dir x k n \<and> unheld x (k, n))"

definition seen_inv :: "name_cache \<Rightarrow> bool" where
  "seen_inv x \<longleftrightarrow> (\<forall>t k n. looking_at (nc_pc x t) = Some (k, n) \<longrightarrow> nc_dir x k n \<in> nc_seen x t) \<and>
     (\<forall>t g r. answer_of (nc_pc x t) = Some (g, r) \<longrightarrow> cacheable r \<longrightarrow> target_of r \<in> nc_seen x t)"

definition nc_inv :: "name_cache \<Rightarrow> bool" where
  "nc_inv x \<longleftrightarrow> nc_fits x \<and> seq_inv x \<and> writers_inv x \<and> locks_inv x \<and> buckets_inv x \<and> entries_inv x \<and>
     stamps_inv x \<and> results_inv x \<and> admitted_inv x \<and> seen_inv x \<and> (\<forall>t. nc_pc x t \<noteq> NamePanic)"

lemma nc_new_inv: "nc_inv (name_cache_new dir)"
  by (simp add: nc_inv_def nc_fits_def seq_inv_def writers_inv_def locks_inv_def buckets_inv_def entries_inv_def stamps_inv_def
      results_inv_def admitted_inv_def seen_inv_def name_cache_new_def bucket_new_ok)

lemma snapshot_iff:
  assumes "nc_fits x" "seq_inv x"
  shows "snapshot k x = Some s \<longleftrightarrow> nc_writers x k = {#} \<and> s = 65536 * nc_turns x k"
proof -
  have seq: "nc_seq x k = 65536 * nc_turns x k + size (nc_writers x k)" "size (nc_writers x k) < 65536"
    using assms by (auto simp: nc_fits_def seq_inv_def)
  then have "nc_seq x k mod 65536 = size (nc_writers x k)" by simp
  then show ?thesis using seq by (auto simp: snapshot_def)
qed

lemma no_writers_unheld:
  assumes "writers_inv x" "nc_writers x k = {#}"
  shows "unheld x (k, n)"
proof -
  have "(k, n) \<notin> set (guards_of (nc_pc x t))" for t
  proof
    assume g: "(k, n) \<in> set (guards_of (nc_pc x t))"
    have "length (filter (\<lambda>g. fst g = k) (guards_of (nc_pc x t))) = 0" using assms unfolding writers_inv_def by (metis count_empty)
    then show False using g by (auto simp: filter_empty_conv)
  qed
  then show ?thesis using held_in_guards by (auto simp: unheld_def)
qed

lemma step_seq:
  assumes "nc_step t x y" "seq_inv x" "writers_inv x" "nc_fits y"
  shows "seq_inv y"
proof -
  note S = assms(2) [unfolded seq_inv_def, rule_format]
  have fits: "65536 * nc_turns y k + size (nc_writers y k) < u64_limit" for k
    using assms(4) [unfolded nc_fits_def, rule_format, of k] by simp
  show ?thesis using assms(1)
  proof (cases rule: nc_step.cases)
    case (write_begin gs k n)
    show ?thesis unfolding seq_inv_def
    proof
      show "nc_seq y j = 65536 * nc_turns y j + size (nc_writers y j)" for j
        using fits [of j] S [of j] by (cases "j = k") (simp_all add: write_begin(1) NC_WRITER_def)
    qed
  next
    case (write_end k n gs)
    have "count (nc_writers x k) t \<noteq> 0"
      using assms(3) [unfolded writers_inv_def, rule_format, of k t] write_end(2) by simp
    then have mem: "t \<in># nc_writers x k" by (simp add: count_eq_zero_iff)
    then have size: "size (nc_writers x k) = Suc (size (nc_writers x k - {#t#}))"
      by (metis insert_DiffM size_add_mset)
    show ?thesis unfolding seq_inv_def
    proof
      show "nc_seq y j = 65536 * nc_turns y j + size (nc_writers y j)" for j
        using fits [of j] S [of j] size by (cases "j = k") (simp_all add: write_end(1) NC_WRITER_def)
    qed
  qed (use S in \<open>simp_all add: seq_inv_def\<close>)
qed

lemma step_writers:
  assumes "nc_step t x y" "writers_inv x"
  shows "writers_inv y"
proof -
  note W = assms(2) [unfolded writers_inv_def, rule_format]
  show ?thesis using assms(1)
  proof (cases rule: nc_step.cases)
    case (write_end k n gs)
    then show ?thesis using W by (auto simp: writers_inv_def)
  next
    case (vnode_new k)
    then show ?thesis using W by (simp add: writers_inv_def)
  qed (use W in \<open>auto simp: writers_inv_def\<close>)
qed

lemma nc_step_alive:
  assumes "nc_step t x y" "buckets_inv x" "\<And>u. nc_pc x u \<noteq> NamePanic"
  shows "nc_pc y u \<noteq> NamePanic"
  using assms(1)
proof (cases rule: nc_step.cases)
  case (publish_fails k n r)
  then show ?thesis
    using publish_name_spec [OF assms(2) [unfolded buckets_inv_def, rule_format] refl, of k n "target_of r"] by auto
qed (use assms(3) in \<open>auto split: if_splits\<close>)

lemma step_locks:
  assumes "nc_step t x y" "locks_inv x" "nc_pc y t \<noteq> NamePanic"
  shows "locks_inv y"
proof -
  note L = assms(2) [unfolded locks_inv_def, rule_format]
  have free: "lock_of (nc_pc x u) \<noteq> Some b" if "nc_lock x b = None" for u b using L [of b u] that by simp
  have only: "u = t" if "lock_of (nc_pc x u) = Some b" "lock_of (nc_pc x t) = Some b" for u b
    using that L [of b u] L [of b t] by simp
  show ?thesis using assms(1)
  proof (cases rule: nc_step.cases)
    case (probe k n s b)
    then show ?thesis using L free [OF probe(4)] by (auto simp: locks_inv_def)
  next
    case (store_lock k n s r b)
    then show ?thesis using L free [OF store_lock(4)] by (auto simp: locks_inv_def)
  next
    case (hit k n s b e)
    then show ?thesis using L only [of _ b] by (auto simp: locks_inv_def)
  next
    case (miss k n s b)
    then show ?thesis using L only [of _ b] by (auto simp: locks_inv_def)
  next
    case (stale k n s r b)
    then show ?thesis using L only [of _ b] by (auto simp: locks_inv_def)
  next
    case (publish k n r b v)
    then show ?thesis using L only [of _ b] by (auto simp: locks_inv_def)
  qed (use L assms(3) in \<open>auto simp: locks_inv_def\<close>)
qed

lemma step_buckets:
  assumes "nc_step t x y" "buckets_inv x"
  shows "buckets_inv y"
proof -
  note B = assms(2) [unfolded buckets_inv_def, rule_format]
  show ?thesis using assms(1)
  proof (cases rule: nc_step.cases)
    case (publish k n r b v)
    then have "bucket_ok b v" using publish_name_spec [OF B [of b, unfolded publish(3)] refl, of "target_of r"] by auto
    then show ?thesis using B publish(1) by (simp add: buckets_inv_def)
  next
    case (reclaim_one b bs)
    then show ?thesis using B bucket_new_ok(1) [of b]
      by (simp add: buckets_inv_def reclaim_bucket_def bucket_ok_def name_bucket_new_def entry_in_def)
  qed (use B in \<open>simp_all add: buckets_inv_def tick_bucket_def touch_name_spec remove_name_spec purge_bucket_spec\<close>)
qed

lemma step_stamps:
  assumes "nc_step t x y" "stamps_inv x" "nc_fits x" "seq_inv x"
  shows "stamps_inv y"
proof -
  note S = assms(2) [unfolded stamps_inv_def, rule_format]
  note snap = snapshot_iff [OF assms(3,4)]
  show ?thesis using assms(1)
  proof (cases rule: nc_step.cases)
    case (snapshot_taken k n s)
    then show ?thesis using S snap by (auto simp: stamps_inv_def)
  next
    case (write_begin gs k n)
    have "s \<le> 65536 * nc_turns y j \<and> (s = 65536 * nc_turns y j \<longrightarrow> nc_writers y j = {#})"
      if "stamp_of (nc_pc y u) = Some (j, s)" for u j s
      using that S [of u j s] by (cases "u = t"; cases "j = k") (auto simp: write_begin(1))
    then show ?thesis by (simp add: stamps_inv_def)
  next
    case (write_end k n gs)
    have "s \<le> 65536 * nc_turns y j \<and> (s = 65536 * nc_turns y j \<longrightarrow> nc_writers y j = {#})"
      if "stamp_of (nc_pc y u) = Some (j, s)" for u j s
      using that S [of u j s] by (cases "u = t"; cases "j = k") (auto simp: write_end(1))
    then show ?thesis by (simp add: stamps_inv_def)
  next
    case (vnode_new k)
    have "j \<noteq> k" if "stamp_of (nc_pc x u) = Some (j, s)" for u j s
      using stamp_looking [OF that] vnode_new(3) by auto
    then show ?thesis using S by (auto simp: stamps_inv_def vnode_new(1))
  qed (use S S [of t] in \<open>auto simp: stamps_inv_def\<close>)
qed

lemma target_result [simp]: "target_of (result_of v) = v" "cacheable (result_of v)" "cacheable (Inl e) \<longleftrightarrow> e = NotFound"
  by (auto simp: target_of_def result_of_def cacheable_def split: option.splits)

lemma change_unheld: "unheld x (k, n) \<Longrightarrow> nc_pc x t = Outside gs \<Longrightarrow> (\<And>k n. (k, n) \<notin> set gs \<Longrightarrow> dir k n = nc_dir x k n) \<Longrightarrow> dir k n = nc_dir x k n"
  unfolding unheld_def by (metis held_of.simps(1))

lemma step_results:
  assumes "nc_step t x y" "results_inv x" "stamps_inv x" "writers_inv x"
  shows "results_inv y"
proof -
  have R: "target_of r = nc_dir x k n"
    if "answer_of (nc_pc x u) = Some ((k, n), r)" "stamp_of (nc_pc x u) = Some (k, 65536 * nc_turns x k)" "cacheable r" for u k n r
    using assms(2) that unfolding results_inv_def by blast
  have P: "cacheable r" if "storing_of (nc_pc x u) = Some r" for u r using assms(2) that unfolding results_inv_def by blast
  have S: "s \<le> 65536 * nc_turns x k \<and> (s = 65536 * nc_turns x k \<longrightarrow> nc_writers x k = {#})"
    if "stamp_of (nc_pc x u) = Some (k, s)" for u k s using assms(3) that unfolding stamps_inv_def by blast
  show ?thesis using assms(1)
  proof (cases rule: nc_step.cases)
    case (load k n so r e)
    then show ?thesis using R P by (auto simp: results_inv_def)
  next
    case (write_begin gs k n)
    have "target_of r = nc_dir y j m" if "answer_of (nc_pc y u) = Some ((j, m), r)"
      "stamp_of (nc_pc y u) = Some (j, 65536 * nc_turns y j)" "cacheable r" for u j m r
      using that R [of u j m r] S [of u j "65536 * nc_turns y j"] by (cases "u = t"; cases "j = k") (auto simp: write_begin(1))
    then show ?thesis using P by (auto simp: results_inv_def write_begin(1))
  next
    case (write_end k n gs)
    have "target_of r = nc_dir y j m" if "answer_of (nc_pc y u) = Some ((j, m), r)"
      "stamp_of (nc_pc y u) = Some (j, 65536 * nc_turns y j)" "cacheable r" for u j m r
      using that R [of u j m r] S [of u j "65536 * nc_turns y j"] by (cases "u = t"; cases "j = k") (auto simp: write_end(1))
    then show ?thesis using P by (auto simp: results_inv_def write_end(1))
  next
    case (vnode_new k)
    have "j \<noteq> k" if "stamp_of (nc_pc x u) = Some (j, s)" for u j s
      using stamp_looking [OF that] vnode_new(3) by auto
    then show ?thesis using R P by (auto simp: results_inv_def vnode_new(1))
  next
    case (change gs dir)
    have "dir k n = nc_dir x k n" if "stamp_of (nc_pc x u) = Some (k, 65536 * nc_turns x k)" for u k n
      using no_writers_unheld [OF assms(4)] S [OF that] change(2,3) by (metis change_unheld)
    then show ?thesis using R P by (auto simp: results_inv_def change(1))
  qed (use R P R [of t] P [of t] in \<open>auto simp: results_inv_def\<close>)
qed

definition takes_name :: "nat \<Rightarrow> name_cache \<Rightarrow> name_cache \<Rightarrow> vnode_key \<Rightarrow> u8 list \<Rightarrow> bool" where
  \<comment> \<open>the step by which a mutation gets the right to change a name\<close>
  "takes_name t x y k n \<longleftrightarrow> (\<exists>gs. nc_pc x t = Removing k n gs \<and> nc_pc y t = Outside ((k, n) # gs)) \<and>
     nc_lock x (name_bucket_of k n) = None"

lemma step_held:
  assumes "nc_step t x y" "unheld x (k, n)" "\<not> takes_name t x y k n"
  shows "unheld y (k, n)"
proof -
  have "set (held_of (nc_pc y u)) \<subseteq> set (held_of (nc_pc x u)) \<or> (\<exists>j m gs. nc_pc x t = Removing j m gs \<and>
      nc_pc y t = Outside ((j, m) # gs) \<and> u = t \<and> nc_lock x (name_bucket_of j m) = None)" for u
    using assms(1) by (cases rule: nc_step.cases) (simp_all add: subset_insertI subsetI)
  moreover have "(k, n) \<notin> set (held_of (nc_pc y t))" if "nc_pc x t = Removing j m gs"
    "nc_pc y t = Outside ((j, m) # gs)" "nc_lock x (name_bucket_of j m) = None" for j m gs
    using that assms(2,3) spec [OF assms(2) [unfolded unheld_def], of t] by (auto simp: takes_name_def)
  ultimately show ?thesis using assms(2) unfolding unheld_def by blast
qed

lemma step_dir:
  assumes "nc_step t x y" "unheld x (k, n)"
  shows "nc_dir y k n = nc_dir x k n"
  using assms(1)
proof (cases rule: nc_step.cases)
  case (change gs dir)
  then show ?thesis using change_unheld [OF assms(2) change(2,3)] by simp
qed simp_all

lemma step_admitted:
  assumes "nc_step t x y" "nc_inv x"
  shows "admitted_inv y"
  unfolding admitted_inv_def
proof (intro allI impI)
  have I: "nc_fits x" "seq_inv x" "writers_inv x" "locks_inv x" "results_inv x" "admitted_inv x"
    using assms(2) by (simp_all add: nc_inv_def)
  fix u k n r
  assume adm: "admitted_of (nc_pc y u) = Some ((k, n), r)"
  have "target_of r = nc_dir x k n \<and> unheld x (k, n) \<and> \<not> takes_name t x y k n"
  proof (cases "admitted_of (nc_pc x u) = Some ((k, n), r)")
    case True
    then have "lock_of (nc_pc x u) = Some (name_bucket_of k n)" by (cases "nc_pc x u") auto
    then have "nc_lock x (name_bucket_of k n) \<noteq> None" using I(4) by (auto simp: locks_inv_def)
    then show ?thesis using True I(6) unfolding admitted_inv_def takes_name_def by blast
  next
    case False
    obtain s where "nc_pc x t = Storing k n s r" "snapshot k x = Some s" "u = t"
      using assms(1) adm False by (cases rule: nc_step.cases) (auto split: if_splits)
    then have st: "nc_pc x t = Storing k n (65536 * nc_turns x k) r" "nc_writers x k = {#}"
      by (simp_all add: snapshot_iff [OF I(1,2)])
    then have "cacheable r" using I(5) by (auto simp: results_inv_def dest: spec [of _ t])
    then have "target_of r = nc_dir x k n" using st(1) I(5) unfolding results_inv_def
      by (metis answer_of.simps(3) stamp_of.simps(6))
    then show ?thesis using st no_writers_unheld [OF I(3)] by (simp add: takes_name_def)
  qed
  then show "target_of r = nc_dir y k n \<and> unheld y (k, n)" using step_dir [OF assms(1)] step_held [OF assms(1)] by metis
qed

lemma step_entry:
  assumes "nc_step t x y" "buckets_inv x" "entry_in e (nc_cache y b)"
  shows "(\<exists>e'. entry_in e' (nc_cache x b) \<and> ne_parent e' = ne_parent e \<and> ne_name e' = ne_name e \<and> ne_target e' = ne_target e) \<and>
      \<not> takes_name t x y (ne_parent e) (ne_name e) \<or>
    (\<exists>r. admitted_of (nc_pc x t) = Some ((ne_parent e, ne_name e), r) \<and> ne_target e = target_of r)"
proof -
  note B = assms(2) [unfolded buckets_inv_def, rule_format]
  show ?thesis using assms(1)
  proof (cases rule: nc_step.cases)
    case (hit k n s c d)
    then show ?thesis using touch_name_spec(2) [OF B [of c], of e k n] assms(3)
      by (cases "b = c") (auto simp: takes_name_def)
  next
    case (publish k n r c v)
    show ?thesis
    proof (cases "b = c")
      case True
      then have "entry_in e v" using assms(3) publish(1) by simp
      then have "e = \<lparr>ne_parent = k, ne_name = n, ne_target = target_of r, ne_used = nb_clock (nc_cache x c)\<rparr> \<or> entry_in e (nc_cache x c)"
        using publish_name_spec [OF B [of c, unfolded publish(3)] refl, of "target_of r"] publish(3,4) by auto
      then show ?thesis using publish True by (auto simp: takes_name_def)
    next
      case False
      then show ?thesis using assms(3) publish by (auto simp: takes_name_def)
    qed
  next
    case (write_remove k n gs c)
    have "entry_in e (nc_cache x b) \<and> \<not> (ne_parent e = k \<and> ne_name e = n)"
    proof (cases "b = c")
      case True
      then show ?thesis using remove_name_spec(2) [OF B [of c], of e k n] assms(3) write_remove(1) by simp
    next
      case False
      then show ?thesis using bucket_okD(3) [OF B [of b], of e] assms(3) write_remove(1,3) by auto
    qed
    then show ?thesis using write_remove by (auto simp: takes_name_def)
  next
    case (reclaim_one c bs)
    then show ?thesis using assms(3) by (cases "b = c") (auto simp: takes_name_def reclaim_bucket_def entry_in_def)
  next
    case (purge_one fs c bs)
    then show ?thesis using purge_bucket_spec(2) [OF B [of c], of e fs] assms(3) by (cases "b = c") (auto simp: takes_name_def)
  qed (use assms(3) in \<open>auto simp: takes_name_def tick_bucket_def split: if_splits\<close>)
qed

lemma step_entries:
  assumes "nc_step t x y" "nc_inv x"
  shows "entries_inv y"
  unfolding entries_inv_def
proof (intro allI impI)
  fix b e
  assume "entry_in e (nc_cache y b)"
  have I: "buckets_inv x" "entries_inv x" "admitted_inv x" "locks_inv x" using assms(2) by (simp_all add: nc_inv_def)
  let ?k = "ne_parent e" and ?n = "ne_name e"
  have "ne_target e = nc_dir x ?k ?n \<and> unheld x (?k, ?n) \<and> \<not> takes_name t x y ?k ?n"
    using step_entry [OF assms(1) I(1) \<open>entry_in e (nc_cache y b)\<close>]
  proof
    assume "(\<exists>e'. entry_in e' (nc_cache x b) \<and> ne_parent e' = ?k \<and> ne_name e' = ?n \<and> ne_target e' = ne_target e) \<and>
      \<not> takes_name t x y ?k ?n"
    then show ?thesis using I(2) unfolding entries_inv_def by metis
  next
    assume "\<exists>r. admitted_of (nc_pc x t) = Some ((?k, ?n), r) \<and> ne_target e = target_of r"
    then obtain r where r: "admitted_of (nc_pc x t) = Some ((?k, ?n), r)" "ne_target e = target_of r" by blast
    then have "\<not> takes_name t x y ?k ?n" by (auto simp: takes_name_def)
    then show ?thesis using r I(3) unfolding admitted_inv_def by metis
  qed
  then show "ne_target e = nc_dir y ?k ?n \<and> unheld y (?k, ?n)" using step_dir [OF assms(1)] step_held [OF assms(1)] by metis
qed

lemma step_seen:
  assumes "nc_step t x y" "nc_inv x"
  shows "seen_inv y"
proof -
  have I: "seen_inv x" "entries_inv x" using assms(2) by (simp_all add: nc_inv_def)
  have D: "nc_dir x k n \<in> nc_seen x u" if "looking_at (nc_pc x u) = Some (k, n)" for u k n
    using I(1) that unfolding seen_inv_def by blast
  have A: "target_of r \<in> nc_seen x u" if "answer_of (nc_pc x u) = Some (g, r)" "cacheable r" for u g r
    using I(1) that unfolding seen_inv_def by blast
  have E: "ne_target e = nc_dir x k n" if "find_name k n (nc_cache x b) = Some e" for e k n b
    using find_name_Some [OF that] I(2) unfolding entries_inv_def by blast
  show ?thesis using assms(1)
  proof (cases rule: nc_step.cases)
    case (hit k n s b e)
    then show ?thesis using D D [of t k n] A E [of k n b e] by (auto simp: seen_inv_def)
  next
    case (load k n so r e)
    then show ?thesis using D D [of t k n] A by (auto simp: seen_inv_def)
  next
    case (change gs dir)
    then show ?thesis using D A by (auto simp: seen_inv_def change_dir_def split: option.splits)
  qed (use D A D [of t] A [of t] in \<open>auto simp: seen_inv_def\<close>)
qed

lemma nc_step_inv:
  assumes "nc_inv x" "nc_run t x y"
  shows "nc_inv y"
proof -
  have r: "nc_step t x y" "nc_fits y" using assms(2) by (simp_all add: nc_run_def)
  have I: "nc_fits x" "seq_inv x" "writers_inv x" "locks_inv x" "buckets_inv x" "stamps_inv x" "results_inv x" "\<And>t. nc_pc x t \<noteq> NamePanic"
    using assms(1) by (simp_all add: nc_inv_def)
  note alive = nc_step_alive [OF r(1) I(5,8)]
  show ?thesis unfolding nc_inv_def
    using r(2) alive step_seq [OF r(1) I(2,3) r(2)] step_writers [OF r(1) I(3)] step_locks [OF r(1) I(4) alive]
      step_buckets [OF r(1) I(5)] step_entries [OF r(1) assms(1)] step_stamps [OF r(1) I(6,1,2)]
      step_results [OF r(1) I(7,6,3)] step_admitted [OF r(1) assms(1)] step_seen [OF r(1) assms(1)] by blast
qed

interpretation ncache: protocol nc_run "name_cache_new dir" nc_inv
  by unfold_locales (use nc_new_inv nc_step_inv in blast)+

section \<open>Properties\<close>

text \<open>
  C33. The name cache is coherent. In every state that lookups, mutations, reclaims and purges
  reach in any interleaving, every entry, negative ones included, holds what the directory holds
  now, and a lookup that returned a node or that the name does not exist has returned what the
  directory held at some moment between its call and its return: a slow lookup cannot bring back
  a name that was removed meanwhile. No lookup panics.
\<close>

theorem namecache_coherent:
  assumes "reaches nc_run (name_cache_new dir) x"
  shows "(\<forall>b e. entry_in e (nc_cache x b) \<longrightarrow> ne_target e = nc_dir x (ne_parent e) (ne_name e)) \<and>
    (\<forall>t k n r. nc_pc x t = Answered k n r \<longrightarrow> cacheable r \<longrightarrow> target_of r \<in> nc_seen x t) \<and>
    (\<forall>t. nc_pc x t \<noteq> NamePanic)"
proof -
  have inv: "nc_inv x" by (rule ncache.inv_reachable [OF assms])
  then have "entries_inv x" "seen_inv x" by (simp_all add: nc_inv_def)
  then have "\<forall>b e. entry_in e (nc_cache x b) \<longrightarrow> ne_target e = nc_dir x (ne_parent e) (ne_name e)"
    "target_of r \<in> nc_seen x t" if "nc_pc x t = Answered k n r" "cacheable r" for t k n r
    using that unfolding entries_inv_def seen_inv_def by (blast, metis answer_of.simps(5))
  then show ?thesis using inv unfolding nc_inv_def entries_inv_def by blast
qed

lemmas nc_reaches = reaches_step [of nc_run]

definition demo_key :: vnode_key where
  "demo_key = \<lparr>vk_filesystem = 1, vk_node = 2\<rparr>"

definition demo_bucket :: name_bucket where
  "demo_bucket = \<lparr>nb_entries = Some \<lparr>ne_parent = demo_key, ne_name = [97], ne_target = Some 7, ne_used = 1\<rparr> # replicate 7 None,
     nb_clock = 1\<rparr>"

lemma empty_slots: "replicate 8 x = [x, x, x, x, x, x, x, x]" "replicate 7 x = [x, x, x, x, x, x, x]"
  by (simp_all add: numeral_eq_Suc)

lemma demo_lookups:
  "find_name k n (tick_bucket name_bucket_new) = None"
  "publish_name demo_key [97] (Some 7) (tick_bucket name_bucket_new) = Some demo_bucket"
  by (simp_all add: find_name_def publish_name_def slot_for_def tick_bucket_def name_bucket_new_def WAYS_def
      demo_bucket_def empty_slots)

theorem namecache_coherent_witness:
  "\<exists>x. reaches nc_run (name_cache_new (\<lambda>k n. Some 7)) x \<and> nc_pc x 0 = Answered demo_key [97] (Inr 7) \<and>
    nc_cache x (name_bucket_of demo_key [97]) = demo_bucket \<and> Some 7 \<in> nc_seen x 0"
proof -
  let ?k = demo_key and ?n = "[97] :: u8 list" and ?b = "name_bucket_of demo_key [97]" and ?r = "Inr 7 :: name_result"
  define x0 where "x0 = name_cache_new (\<lambda>k n. Some 7)"
  define x1 where "x1 = names_at 0 (Snapshot ?k ?n) (x0\<lparr>nc_seen := (nc_seen x0)(0 := {nc_dir x0 ?k ?n})\<rparr>)"
  define x2 where "x2 = names_at 0 (Probe ?k ?n 0) x1"
  define x3 where "x3 = names_at 0 (Locked ?k ?n 0) (lock_bucket ?b (Some 0) (set_names ?b (tick_bucket (nc_cache x2 ?b)) x2))"
  define x4 where "x4 = names_at 0 (Loading ?k ?n (Some 0)) (lock_bucket ?b None x3)"
  define x5 where "x5 = names_at 0 (Loaded ?k ?n (Some 0) ?r) x4"
  define x6 where "x6 = names_at 0 (Publishing ?k ?n 0 ?r) x5"
  define x7 where "x7 = names_at 0 (Storing ?k ?n 0 ?r) (lock_bucket ?b (Some 0) x6)"
  define x8 where "x8 = names_at 0 (Admitted ?k ?n ?r) x7"
  define x9 where "x9 = names_at 0 (Answered ?k ?n ?r) (lock_bucket ?b None (set_names ?b demo_bucket x8))"
  note xs = x1_def x2_def x3_def x4_def x5_def x6_def x7_def x8_def x9_def x0_def
  have new: "nc_seq x0 k = 0" "nc_cache x0 b = name_bucket_new" "nc_lock x0 b = None" "nc_pc x0 t = Outside []"
    "nc_writers x0 k = {#}" "nc_turns x0 k = 0" for k b t by (simp_all add: x0_def name_cache_new_def)
  have fits: "nc_fits y" if "nc_writers y = nc_writers x0" "nc_turns y = nc_turns x0" for y
    using that new by (simp add: nc_fits_def)
  have run: "reaches nc_run x0 z" if "reaches nc_run x0 y" "nc_step 0 y z" "nc_writers z = nc_writers x0" "nc_turns z = nc_turns x0" for y z
    using that fits [of z] nc_reaches [OF that(1), of 0 z] by (simp add: nc_run_def)
  note frame = x1_def x2_def x3_def x4_def x5_def x6_def x7_def x8_def x9_def
  have "reaches nc_run x0 x1" unfolding x1_def by (rule run [OF _ lookup_call]) (simp_all add: new)
  then have "reaches nc_run x0 x2" unfolding x2_def
    by (rule run [OF _ snapshot_taken]) (simp_all add: frame new snapshot_def)
  then have "reaches nc_run x0 x3" unfolding x3_def by (rule run [OF _ probe]) (simp_all add: frame new)
  then have "reaches nc_run x0 x4" unfolding x4_def by (rule run [OF _ miss]) (simp_all add: frame new demo_lookups)
  then have "reaches nc_run x0 x5" unfolding x5_def
    by (rule run [OF _ load]) (simp_all add: frame new x0_def name_cache_new_def result_of_def)
  then have "reaches nc_run x0 x6" unfolding x6_def
    by (rule run [OF _ caches]) (simp_all add: frame new snapshot_def cacheable_def)
  then have "reaches nc_run x0 x7" unfolding x7_def by (rule run [OF _ store_lock]) (simp_all add: frame new)
  then have "reaches nc_run x0 x8" unfolding x8_def by (rule run [OF _ admit]) (simp_all add: frame new snapshot_def)
  then have reach: "reaches nc_run x0 x9" unfolding x9_def
    by (rule run [OF _ publish]) (simp_all add: frame new demo_lookups target_of_def)
  moreover have at: "nc_pc x9 0 = Answered ?k ?n ?r" "nc_cache x9 ?b = demo_bucket" by (simp_all add: x9_def)
  moreover have "cacheable ?r" "target_of ?r = Some 7" by (simp_all add: target_of_def cacheable_def)
  then have "Some 7 \<in> nc_seen x9 0"
    using namecache_coherent [OF reach [unfolded x0_def], THEN conjunct2, THEN conjunct1, rule_format, OF at(1)] by simp
  ultimately show ?thesis unfolding x0_def by blast
qed

end
