(* ===== verification/Tty.thy ===== *)
theory Tty
  imports Errors Bytes Poll "HOL-Library.Monad_Syntax"
begin

text \<open>
  Model of the terminal line discipline of \<open>kernel/src/dev/tty.rs\<close>. The state of a terminal is
  what its mutexes protect, together with its two events, each of which is signalled or not, and
  the list of the signals it has sent to process groups. The byte-level backend is an argument:
  a record of operations on a state \<open>'b\<close>, each of which may fail. Queues are lists with the
  front first. A blocking read is one iteration of its loop under the state lock; it returns or
  it goes to sleep. The column of the output is a 64-bit number; the one sum that is not
  saturating can overflow, which is a panic.
\<close>

unbundle bit_operations_syntax

section \<open>Constants\<close>

definition INPUT_CAPACITY :: nat where "INPUT_CAPACITY = 4096"
definition ECHO_CAPACITY :: nat where "ECHO_CAPACITY = 4096"
definition INPUT_BATCH_SIZE :: nat where "INPUT_BATCH_SIZE = 512"
definition OUTPUT_BATCH_SIZE :: nat where "OUTPUT_BATCH_SIZE = 512"
definition NCCS :: nat where "NCCS = 32"

datatype control_char =
    VINTR | VQUIT | VERASE | VKILL | VEOF | VTIME | VMIN | VSTART | VSTOP | VSUSP | VEOL | VREPRINT | VDISCARD
  | VWERASE | VLNEXT | VEOL2

fun control_index :: "control_char \<Rightarrow> nat" where
  "control_index VINTR = 0"
| "control_index VQUIT = 1"
| "control_index VERASE = 2"
| "control_index VKILL = 3"
| "control_index VEOF = 4"
| "control_index VTIME = 5"
| "control_index VMIN = 6"
| "control_index VSTART = 8"
| "control_index VSTOP = 9"
| "control_index VSUSP = 10"
| "control_index VEOL = 11"
| "control_index VREPRINT = 12"
| "control_index VDISCARD = 13"
| "control_index VWERASE = 14"
| "control_index VLNEXT = 15"
| "control_index VEOL2 = 16"

datatype input_flag =
    ISTRIP | INLCR | IGNCR | ICRNL | IXON | IXANY | IMAXBEL | IUTF8

fun input_bit :: "input_flag \<Rightarrow> u32" where
  "input_bit ISTRIP = 0x20"
| "input_bit INLCR = 0x40"
| "input_bit IGNCR = 0x80"
| "input_bit ICRNL = 0x100"
| "input_bit IXON = 0x400"
| "input_bit IXANY = 0x800"
| "input_bit IMAXBEL = 0x2000"
| "input_bit IUTF8 = 0x4000"

datatype output_flag =
    OPOST | OLCUC | ONLCR | OCRNL | ONOCR | ONLRET | TABDLY | TAB3

fun output_bit :: "output_flag \<Rightarrow> u32" where
  "output_bit OPOST = 0x1"
| "output_bit OLCUC = 0x2"
| "output_bit ONLCR = 0x4"
| "output_bit OCRNL = 0x8"
| "output_bit ONOCR = 0x10"
| "output_bit ONLRET = 0x20"
| "output_bit TABDLY = 0x1800"
| "output_bit TAB3 = 0x1800"

datatype control_flag =
    CSIZE | CS5 | CS6 | CS7 | CS8 | CSTOPB | CREAD | PARENB | PARODD | CLOCAL | CBAUD | B9600

fun control_bit :: "control_flag \<Rightarrow> u32" where
  "control_bit CSIZE = 0x30"
| "control_bit CS5 = 0x0"
| "control_bit CS6 = 0x10"
| "control_bit CS7 = 0x20"
| "control_bit CS8 = 0x30"
| "control_bit CSTOPB = 0x40"
| "control_bit CREAD = 0x80"
| "control_bit PARENB = 0x100"
| "control_bit PARODD = 0x200"
| "control_bit CLOCAL = 0x800"
| "control_bit CBAUD = 0x100f"
| "control_bit B9600 = 13"

datatype local_flag =
    ISIG | ICANON | ECHO | ECHOE | ECHOK | ECHONL | NOFLSH | TOSTOP | ECHOCTL | ECHOKE | FLUSHO | IEXTEN

fun local_bit :: "local_flag \<Rightarrow> u32" where
  "local_bit ISIG = 0x1"
| "local_bit ICANON = 0x2"
| "local_bit ECHO = 0x8"
| "local_bit ECHOE = 0x10"
| "local_bit ECHOK = 0x20"
| "local_bit ECHONL = 0x40"
| "local_bit NOFLSH = 0x80"
| "local_bit TOSTOP = 0x100"
| "local_bit ECHOCTL = 0x200"
| "local_bit ECHOKE = 0x800"
| "local_bit FLUSHO = 0x1000"
| "local_bit IEXTEN = 0x8000"

datatype tty_signal =
    SIGHUP | SIGINT | SIGQUIT | SIGCONT | SIGTSTP | SIGWINCH

definition TERMIOS_SIZE :: nat where "TERMIOS_SIZE = 60"
definition WINSIZE_SIZE :: nat where "WINSIZE_SIZE = 8"
definition TTY_PATH_SIZE :: nat where "TTY_PATH_SIZE = 32"

section \<open>State\<close>

record termios =
  input_flags :: u32
  output_flags :: u32
  control_flags :: u32
  local_flags :: u32
  t_line :: u8
  t_control :: "u8 list"
  input_baud :: u32
  output_baud :: u32

record winsize =
  ws_rows :: u16
  ws_columns :: u16
  ws_x_pixels :: u16
  ws_y_pixels :: u16

datatype input_item = IByte u8 | IEof

record tty =
  tt_termios :: termios
  tt_winsize :: winsize
  tt_input :: "input_item list"
  tt_echo :: "u8 list"
  tt_canonical_ready :: nat
  tt_input_bytes :: nat
  tt_literal_next :: bool
  tt_output_stopped :: bool
  tt_interrupted :: bool
  tt_exclusive :: bool
  tt_soft_carrier :: bool
  tt_foreground_group :: int
  tt_session :: int
  tt_hung_up :: bool
  tt_column :: nat                        \<comment> \<open>under the output lock\<close>
  tt_input_ready :: bool                  \<comment> \<open>events\<close>
  tt_output_resumed :: bool
  tt_opens :: nat
  tt_sent :: "(int \<times> tty_signal) list"           \<comment> \<open>signals sent, latest first\<close>

definition has_in :: "termios \<Rightarrow> input_flag \<Rightarrow> bool" where
  "has_in t f \<longleftrightarrow> input_flags t AND input_bit f \<noteq> 0"

definition has_out :: "termios \<Rightarrow> output_flag \<Rightarrow> bool" where
  "has_out t f \<longleftrightarrow> output_flags t AND output_bit f \<noteq> 0"

definition has_control :: "termios \<Rightarrow> control_flag \<Rightarrow> bool" where
  "has_control t f \<longleftrightarrow> control_flags t AND control_bit f \<noteq> 0"

definition has_local :: "termios \<Rightarrow> local_flag \<Rightarrow> bool" where
  "has_local t f \<longleftrightarrow> local_flags t AND local_bit f \<noteq> 0"

section \<open>Settings\<close>

definition control_at :: "termios \<Rightarrow> control_char \<Rightarrow> u8" where
  "control_at t i = t_control t ! control_index i"

definition control_matches :: "termios \<Rightarrow> control_char \<Rightarrow> u8 \<Rightarrow> bool" where
  "control_matches t i b \<longleftrightarrow> control_at t i \<noteq> 0 \<and> b = control_at t i"

definition termios_default :: termios where
  "termios_default = \<lparr>input_flags = input_bit ICRNL OR input_bit IXON, output_flags = output_bit OPOST OR output_bit ONLCR,
     control_flags = control_bit CREAD OR control_bit CS8 OR control_bit CLOCAL OR control_bit B9600,
     local_flags = foldr (\<lambda>f m. local_bit f OR m) [ISIG, ICANON, ECHO, ECHOE, ECHOK, ECHOCTL, ECHOKE, IEXTEN] 0,
     t_line = 0,
     t_control = foldl (\<lambda>cs (c, v). cs[control_index c := v]) (replicate NCCS 0)
       [(VINTR, 3), (VQUIT, 28), (VERASE, 0x7f), (VKILL, 21), (VEOF, 4), (VMIN, 1), (VSTART, 17), (VSTOP, 19),
        (VSUSP, 26), (VREPRINT, 18), (VDISCARD, 15), (VWERASE, 23), (VLNEXT, 22)],
     input_baud = 9600, output_baud = 9600\<rparr>"

definition baud_table :: "(u32 \<times> u32) list" where
  \<comment> \<open>codes and rates\<close>
  "baud_table = [(1, 50), (2, 75), (3, 110), (4, 134), (5, 150), (6, 200), (7, 300), (8, 600), (9, 1200), (10, 1800),
     (11, 2400), (12, 4800), (13, 9600), (14, 19200), (15, 38400), (0x1001, 57600), (0x1002, 115200),
     (0x1003, 230400), (0x1004, 460800), (0x1005, 500000), (0x1006, 576000), (0x1007, 921600), (0x1008, 1000000),
     (0x1009, 1152000), (0x100a, 1500000), (0x100b, 2000000), (0x100c, 2500000), (0x100d, 3000000),
     (0x100e, 3500000), (0x100f, 4000000)]"

definition baud_rate :: "u32 \<Rightarrow> u32 option" where
  "baud_rate code = map_of baud_table code"

definition baud_code :: "u32 \<Rightarrow> u32 option" where
  "baud_code baud = map_of (map prod.swap baud_table) baud"

definition with_baud :: "u32 \<Rightarrow> termios option" where
  "with_baud baud = map_option (\<lambda>code. termios_default
     \<lparr>control_flags := (control_flags termios_default AND NOT (control_bit CBAUD)) OR code, input_baud := baud, output_baud := baud\<rparr>)
     (baud_code baud)"

record serial_settings =
  ss_baud :: u32
  ss_data_bits :: nat
  ss_stop_bits :: nat
  ss_parity :: bool
  ss_odd_parity :: bool

definition serial_settings_of :: "termios \<Rightarrow> fs_error + serial_settings" where
  "serial_settings_of t =
     (let size = control_flags t AND control_bit CSIZE in
      if size \<notin> control_bit ` {CS5, CS6, CS7, CS8} then Inl InvalidArgument
      else case baud_rate (control_flags t AND control_bit CBAUD) of None \<Rightarrow> Inl InvalidArgument
        | Some baud \<Rightarrow> Inr \<lparr>ss_baud = baud,
            ss_data_bits = (if size = control_bit CS5 then 5 else if size = control_bit CS6 then 6 else if size = control_bit CS7 then 7 else 8),
            ss_stop_bits = (if has_control t CSTOPB then 2 else 1),
            ss_parity = has_control t PARENB, ss_odd_parity = has_control t PARODD\<rparr>)"

definition termios_encode :: "termios \<Rightarrow> u8 list \<Rightarrow> fs_error + u8 list" where
  \<comment> \<open>the buffer after the call\<close>
  "termios_encode t buf =
     (if length buf \<noteq> TERMIOS_SIZE then Inl InvalidArgument
      else Inr (to_le_bytes 4 (unat (input_flags t)) @ to_le_bytes 4 (unat (output_flags t)) @
        to_le_bytes 4 (unat (control_flags t)) @ to_le_bytes 4 (unat (local_flags t)) @ [t_line t] @ t_control t @
        [0, 0, 0] @ to_le_bytes 4 (unat (input_baud t)) @ to_le_bytes 4 (unat (output_baud t))))"

definition field :: "u8 list \<Rightarrow> nat \<Rightarrow> nat \<Rightarrow> nat" where
  "field buf a b = from_le_bytes (take (b - a) (drop a buf))"

definition termios_decode :: "u8 list \<Rightarrow> fs_error + termios" where
  "termios_decode buf =
     (if length buf \<noteq> TERMIOS_SIZE then Inl InvalidArgument
      else Inr \<lparr>input_flags = word_of_nat (field buf 0 4), output_flags = word_of_nat (field buf 4 8),
        control_flags = word_of_nat (field buf 8 12), local_flags = word_of_nat (field buf 12 16), t_line = buf ! 16,
        t_control = take 32 (drop 17 buf), input_baud = word_of_nat (field buf 52 56),
        output_baud = word_of_nat (field buf 56 60)\<rparr>)"

definition winsize_encode :: "winsize \<Rightarrow> u8 list \<Rightarrow> fs_error + u8 list" where
  "winsize_encode w buf =
     (if length buf \<noteq> WINSIZE_SIZE then Inl InvalidArgument
      else Inr (to_le_bytes 2 (unat (ws_rows w)) @ to_le_bytes 2 (unat (ws_columns w)) @
        to_le_bytes 2 (unat (ws_x_pixels w)) @ to_le_bytes 2 (unat (ws_y_pixels w))))"

definition winsize_decode :: "u8 list \<Rightarrow> fs_error + winsize" where
  "winsize_decode buf =
     (if length buf \<noteq> WINSIZE_SIZE then Inl InvalidArgument
      else Inr \<lparr>ws_rows = word_of_nat (field buf 0 2), ws_columns = word_of_nat (field buf 2 4),
        ws_x_pixels = word_of_nat (field buf 4 6), ws_y_pixels = word_of_nat (field buf 6 8)\<rparr>)"

section \<open>The input queue\<close>

definition is_delimiter :: "input_item \<Rightarrow> termios \<Rightarrow> bool" where
  "is_delimiter i t =
     (case i of IEof \<Rightarrow> True
      | IByte b \<Rightarrow> b = 10 \<or> control_at t VEOL \<noteq> 0 \<and> b = control_at t VEOL \<or>
          has_local t IEXTEN \<and> control_at t VEOL2 \<noteq> 0 \<and> b = control_at t VEOL2)"

definition is_control :: "u8 \<Rightarrow> bool" where
  "is_control b \<longleftrightarrow> b < 32 \<and> b \<noteq> 10 \<and> b \<noteq> 9 \<or> b = 0x7f"

definition is_ascii_whitespace :: "u8 \<Rightarrow> bool" where
  "is_ascii_whitespace b \<longleftrightarrow> b \<in> {32, 9, 10, 12, 13}"

definition item_bytes :: "input_item \<Rightarrow> nat" where
  \<comment> \<open>1 for \<open>InputItem::Byte\<close>\<close>
  "item_bytes i = (case i of IByte b \<Rightarrow> 1 | IEof \<Rightarrow> 0)"

definition push_input :: "input_item \<Rightarrow> tty \<Rightarrow> tty" where
  "push_input i s = s\<lparr>tt_input_bytes := tt_input_bytes s + item_bytes i, tt_input := tt_input s @ [i]\<rparr>"

definition pop_input :: "tty \<Rightarrow> input_item option \<times> tty" where
  "pop_input s =
     (case tt_input s of [] \<Rightarrow> (None, s)
      | i # is \<Rightarrow> (Some i, s\<lparr>tt_input := is, tt_canonical_ready := tt_canonical_ready s - 1,
          tt_input_bytes := tt_input_bytes s - item_bytes i\<rparr>))"

definition clear_input :: "tty \<Rightarrow> tty" where
  "clear_input s = s\<lparr>tt_input := [], tt_canonical_ready := 0, tt_input_bytes := 0, tt_literal_next := False\<rparr>"

fun last_delimiter :: "termios \<Rightarrow> input_item list \<Rightarrow> nat" where
  \<comment> \<open>the length up to and including the last delimiter\<close>
  "last_delimiter t [] = 0"
| "last_delimiter t (i # is) =
     (let n = last_delimiter t is in if n \<noteq> 0 then Suc n else if is_delimiter i t then 1 else 0)"

definition recalculate_canonical_ready :: "tty \<Rightarrow> tty" where
  "recalculate_canonical_ready s =
     (if \<not> has_local (tt_termios s) ICANON then s\<lparr>tt_canonical_ready := length (tt_input s)\<rparr>
      else s\<lparr>tt_canonical_ready := last_delimiter (tt_termios s) (tt_input s)\<rparr>)"

definition current_line_start :: "input_item list \<Rightarrow> termios \<Rightarrow> nat" where
  "current_line_start input t = last_delimiter t input"

fun discard_loop :: "termios \<Rightarrow> input_item list \<Rightarrow> nat \<times> input_item list" where
  \<comment> \<open>on the queue from its back; counts the bytes removed\<close>
  "discard_loop t [] = (0, [])"
| "discard_loop t (i # is) =
     (if is_delimiter i t then (0, i # is)
      else let (n, rest) = discard_loop t is in (n + item_bytes i, rest))"

definition discard_current_line :: "input_item list \<Rightarrow> termios \<Rightarrow> nat \<times> input_item list" where
  "discard_current_line input t = (let (n, rest) = discard_loop t (rev input) in (n, rev rest))"

fun utf8_loop :: "termios \<Rightarrow> u8 \<Rightarrow> input_item list \<Rightarrow> nat \<times> u8 \<times> input_item list" where
  \<comment> \<open>removes the bytes of a character before a continuation byte; the last one removed\<close>
  "utf8_loop t b (IByte p # is) =
     (if is_delimiter (IByte p) t then (0, b, IByte p # is)
      else if p AND 0xc0 \<noteq> 0x80 then (1, p, is)
      else let (n, c, rest) = utf8_loop t p is in (Suc n, c, rest))"
| "utf8_loop t b is = (0, b, is)"

definition erase_last_character :: "input_item list \<Rightarrow> termios \<Rightarrow> nat \<times> nat \<times> input_item list" where
  \<comment> \<open>bytes and columns erased, and the queue\<close>
  "erase_last_character input t =
     (case rev input of [] \<Rightarrow> (0, 0, input)
      | IEof # is \<Rightarrow> (0, 0, input)
      | IByte b # is \<Rightarrow>
          if is_delimiter (IByte b) t then (0, 0, input)
          else let (n, c, rest) = (if has_in t IUTF8 \<and> b AND 0xc0 = 0x80 then utf8_loop t b is else (0, b, is))
               in (Suc n, if is_control c \<and> has_local t ECHOCTL then 2 else 1, rev rest))"

fun erase_while :: "(u8 \<Rightarrow> bool) \<Rightarrow> termios \<Rightarrow> input_item list \<Rightarrow> nat \<times> input_item list" where
  "erase_while P t (IByte b # is) =
     (if \<not> is_delimiter (IByte b) t \<and> P b then let (n, rest) = erase_while P t is in (Suc n, rest)
      else (0, IByte b # is))"
| "erase_while P t is = (0, is)"

definition erase_word :: "input_item list \<Rightarrow> termios \<Rightarrow> nat \<times> input_item list" where
  "erase_word input t =
     (let (n, is) = erase_while is_ascii_whitespace t (rev input);
          (m, js) = erase_while (\<lambda>b. \<not> is_ascii_whitespace b) t is
      in (n + m, rev js))"

section \<open>Echo\<close>

definition queue_echo :: "u8 list \<Rightarrow> tty \<Rightarrow> tty" where
  "queue_echo bs s =
     (if has_local (tt_termios s) FLUSHO then s
      else s\<lparr>tt_echo := drop (length (tt_echo s) + length bs - ECHO_CAPACITY) (tt_echo s) @ bs\<rparr>)"

definition echo_control :: "u8 \<Rightarrow> tty \<Rightarrow> tty" where
  "echo_control b = queue_echo [0x5e, if b = 0x7f then 0x3f else b XOR 0x40]"

definition echo_input :: "termios \<Rightarrow> u8 \<Rightarrow> tty \<Rightarrow> tty" where
  "echo_input t b =
     (if b = 10 then queue_echo (if has_out t OPOST \<and> has_out t ONLCR then [13, 10] else [10])
      else if is_control b \<and> has_local t ECHOCTL then echo_control b
      else queue_echo [b])"

definition rub_out :: "nat \<Rightarrow> tty \<Rightarrow> tty" where
  \<comment> \<open>the loops that echo a backspace, a blank and a backspace\<close>
  "rub_out n s = (queue_echo [8, 32, 8] ^^ n) s"

fun reprint :: "termios \<Rightarrow> input_item list \<Rightarrow> tty \<Rightarrow> tty" where
  "reprint t [] s = s"
| "reprint t (IByte b # is) s = reprint t is (echo_input t b s)"
| "reprint t (IEof # is) s = reprint t is s"

section \<open>Input processing\<close>

definition enqueue :: "input_item \<Rightarrow> tty \<Rightarrow> tty" where
  "enqueue i s =
     (let t = tt_termios s in
      if INPUT_CAPACITY \<le> length (tt_input s) then
        if is_delimiter i t \<and> has_local t ICANON then
          let s1 = s\<lparr>tt_input := butlast (tt_input s), tt_input_bytes := tt_input_bytes s - item_bytes (last (tt_input s))\<rparr>;
              s2 = push_input i s1
          in s2\<lparr>tt_canonical_ready := length (tt_input s2)\<rparr>
        else if has_in t IMAXBEL then queue_echo [7] s else s
      else
        let s1 = push_input i s in
        if \<not> has_local t ICANON \<or> is_delimiter i t \<or> length (tt_input s1) = INPUT_CAPACITY
        then s1\<lparr>tt_canonical_ready := length (tt_input s1)\<rparr> else s1)"

type_synonym input_run = "tty \<times> tty_signal set \<times> bool"

definition map_byte :: "termios \<Rightarrow> u8 \<Rightarrow> u8 option" where
  \<comment> \<open>stripping and the mapping of returns and newlines; an ignored return has no value\<close>
  "map_byte t b0 =
     (let b = (if has_in t ISTRIP then b0 AND 0x7f else b0) in
      if b = 13 \<and> has_in t IGNCR then None
      else if b = 13 \<and> has_in t ICRNL then Some 10
      else if b = 10 \<and> has_in t INLCR then Some 13
      else Some b)"

definition flow_control :: "termios \<Rightarrow> u8 \<Rightarrow> tty \<Rightarrow> bool \<times> tty" where
  \<comment> \<open>start and stop characters; whether the byte was used up\<close>
  "flow_control t b s =
     (if \<not> has_in t IXON then (False, s)
      else if control_matches t VSTOP b \<and> \<not> tt_output_stopped s
        then (True, s\<lparr>tt_output_stopped := True, tt_output_resumed := False\<rparr>)
      else if control_matches t VSTOP b \<and> \<not> control_matches t VSTART b then (True, s)
      else if control_matches t VSTART b \<or> tt_output_stopped s \<and> has_in t IXANY
        then (control_matches t VSTART b, s\<lparr>tt_output_stopped := False, tt_output_resumed := True\<rparr>)
      else (False, s))"

definition discard_output :: "termios \<Rightarrow> u8 \<Rightarrow> tty \<Rightarrow> bool \<times> tty" where
  \<comment> \<open>the discard character; whether the backend has to flush\<close>
  "discard_output t b s =
     (if \<not> has_local (tt_termios s) FLUSHO then
        let s1 = s\<lparr>tt_echo := []\<rparr>;
            s2 = (if has_local t ECHO then echo_input t b s1 else s1)
        in (True, s2\<lparr>tt_termios := (tt_termios s2)\<lparr>local_flags := local_flags (tt_termios s2) OR local_bit FLUSHO\<rparr>\<rparr>)
      else
        let s1 = s\<lparr>tt_termios := (tt_termios s)\<lparr>local_flags := local_flags (tt_termios s) AND NOT (local_bit FLUSHO)\<rparr>\<rparr>
        in (False, if has_local t ECHO then echo_input t b s1 else s1))"

definition signal_of :: "termios \<Rightarrow> u8 \<Rightarrow> tty_signal option" where
  "signal_of t b =
     (if \<not> has_local t ISIG then None
      else if control_matches t VINTR b then Some SIGINT
      else if control_matches t VQUIT b then Some SIGQUIT
      else if control_matches t VSUSP b then Some SIGTSTP
      else None)"

definition raise_signal :: "termios \<Rightarrow> u8 \<Rightarrow> tty \<Rightarrow> bool \<times> tty" where
  "raise_signal t b s =
     (let flush = \<not> has_local t NOFLSH;
          s1 = (if flush then (clear_input s)\<lparr>tt_echo := []\<rparr> else s);
          s2 = s1\<lparr>tt_output_stopped := False, tt_output_resumed := True, tt_interrupted := True\<rparr>
      in (flush, if has_local t ECHO then echo_input t b s2 else s2))"

definition erase_key :: "termios \<Rightarrow> u8 \<Rightarrow> tty \<Rightarrow> tty" where
  "erase_key t b s =
     (let (erased, columns, input) = erase_last_character (tt_input s) t;
          s1 = s\<lparr>tt_input := input\<rparr>
      in if erased = 0 then s1
         else let s2 = s1\<lparr>tt_input_bytes := tt_input_bytes s1 - erased\<rparr> in
              if has_local t ECHOE then rub_out columns s2
              else if has_local t ECHO then echo_input t b s2 else s2)"

definition kill_key :: "termios \<Rightarrow> tty \<Rightarrow> tty" where
  "kill_key t s =
     (let (erased, input) = discard_current_line (tt_input s) t;
          s1 = s\<lparr>tt_input := input, tt_input_bytes := tt_input_bytes s - erased\<rparr>
      in if has_local t ECHO \<and> has_local t ECHOE \<and> has_local t ECHOKE then rub_out erased s1
         else if has_local t ECHO \<and> has_local t ECHOK then echo_input t 10 s1 else s1)"

definition word_erase_key :: "termios \<Rightarrow> tty \<Rightarrow> tty" where
  "word_erase_key t s =
     (let (erased, input) = erase_word (tt_input s) t;
          s1 = s\<lparr>tt_input := input, tt_input_bytes := tt_input_bytes s - erased\<rparr>
      in if has_local t ECHOE then rub_out erased s1 else s1)"

definition reprint_key :: "termios \<Rightarrow> u8 \<Rightarrow> tty \<Rightarrow> tty" where
  "reprint_key t b s =
     reprint t (drop (current_line_start (tt_input s) t) (tt_input s)) (echo_input t 10 (echo_input t b s))"

definition plain_byte :: "termios \<Rightarrow> u8 \<Rightarrow> tty \<Rightarrow> tty" where
  "plain_byte t b s =
     (let s1 = enqueue (IByte b) s in
      if has_local t ECHO \<or> b = 10 \<and> has_local t ECHONL then echo_input t b s1 else s1)"

definition line_byte :: "termios \<Rightarrow> u8 \<Rightarrow> tty \<Rightarrow> tty" where
  \<comment> \<open>a byte that is no signal: editing in canonical mode, or data\<close>
  "line_byte t b s =
     (if has_local t ICANON \<and> control_matches t VERASE b then erase_key t b s
      else if has_local t ICANON \<and> control_matches t VKILL b then kill_key t s
      else if has_local t ICANON \<and> has_local t IEXTEN \<and> control_matches t VWERASE b then word_erase_key t s
      else if has_local t ICANON \<and> has_local t IEXTEN \<and> has_local t ECHO \<and> control_matches t VREPRINT b
        then reprint_key t b s
      else if has_local t ICANON \<and> control_matches t VEOF b then enqueue IEof s
      else plain_byte t b s)"

definition process_input_byte :: "u8 \<Rightarrow> input_run \<Rightarrow> input_run" where
  "process_input_byte b0 run =
     (let (s, signals, flush) = run; t = tt_termios s in
      if \<not> has_control t CREAD then run
      else case map_byte t b0 of None \<Rightarrow> run
      | Some b \<Rightarrow>
        let (used, s1) = flow_control t b s in
        if used then (s1, signals, flush)
        else if tt_literal_next s1 then (echo_input t b (enqueue (IByte b) (s1\<lparr>tt_literal_next := False\<rparr>)), signals, flush)
        else if has_local t IEXTEN \<and> control_matches t VLNEXT b then
          let s2 = s1\<lparr>tt_literal_next := True\<rparr> in
          (if has_local t ECHO then if has_local t ECHOE then queue_echo [0x5e, 8] s2 else echo_input t b s2 else s2,
           signals, flush)
        else if has_local t IEXTEN \<and> control_matches t VDISCARD b then
          let (f, s2) = discard_output t b s1 in (s2, signals, flush \<or> f)
        else case signal_of t b of
          Some sig \<Rightarrow> let (f, s2) = raise_signal t b s1 in (s2, insert sig signals, flush \<or> f)
        | None \<Rightarrow> (line_byte t b s1, signals, flush))"

definition input_ready :: "tty \<Rightarrow> bool" where
  "input_ready s = (if has_local (tt_termios s) ICANON then tt_canonical_ready s \<noteq> 0 else tt_input_bytes s \<noteq> 0)"

definition refresh_input_event :: "tty \<Rightarrow> tty" where
  "refresh_input_event s = s\<lparr>tt_input_ready := tt_interrupted s \<or> tt_hung_up s \<or> input_ready s\<rparr>"

definition raw_mode :: "tty \<Rightarrow> bool" where
  \<comment> \<open>the settings under which input needs no processing\<close>
  "raw_mode s \<longleftrightarrow> (let t = tt_termios s in has_control t CREAD \<and>
     input_flags t AND (input_bit ISTRIP OR input_bit INLCR OR input_bit IGNCR OR input_bit ICRNL OR input_bit IXON) = 0 \<and>
     local_flags t AND (local_bit ISIG OR local_bit ICANON OR local_bit ECHO OR local_bit ECHONL OR local_bit IEXTEN) = 0 \<and>
     \<not> tt_literal_next s)"

definition accept_raw :: "u8 list \<Rightarrow> tty \<Rightarrow> tty panics" where
  \<comment> \<open>the block transfer of raw mode; the queue longer than its capacity would overflow the subtraction\<close>
  "accept_raw input s =
     (if INPUT_CAPACITY < length (tt_input s) then None
      else let accepted = min (length input) (INPUT_CAPACITY - length (tt_input s));
               s1 = s\<lparr>tt_input := tt_input s @ map IByte (take accepted input), tt_input_bytes := tt_input_bytes s + accepted\<rparr>;
               s2 = s1\<lparr>tt_canonical_ready := length (tt_input s1)\<rparr>
           in Some (if accepted \<noteq> 0 then s2\<lparr>tt_input_ready := True\<rparr> else s2))"

section \<open>The backend\<close>

record 'b console =
  cb_open :: "'b \<Rightarrow> (fs_error + unit) \<times> 'b"
  cb_close :: "'b \<Rightarrow> 'b"
  cb_read :: "nat \<Rightarrow> 'b \<Rightarrow> (fs_error + u8 list) \<times> 'b"      \<comment> \<open>at most that many bytes\<close>
  cb_write :: "u8 list \<Rightarrow> bool \<Rightarrow> 'b \<Rightarrow> (fs_error + unit) \<times> 'b"   \<comment> \<open>the flag: without blocking\<close>
  cb_configure :: "serial_settings \<Rightarrow> 'b \<Rightarrow> (fs_error + unit) \<times> 'b"
  cb_flush :: "'b \<Rightarrow> (fs_error + unit) \<times> 'b"
  cb_flush_input :: "'b \<Rightarrow> (fs_error + unit) \<times> 'b"
  cb_flush_output :: "'b \<Rightarrow> (fs_error + unit) \<times> 'b"
  cb_send_break :: "nat \<Rightarrow> 'b \<Rightarrow> (fs_error + unit) \<times> 'b"
  cb_hung_up :: "'b \<Rightarrow> bool"
  cb_writable :: "'b \<Rightarrow> bool"
  cb_queued_output :: "'b \<Rightarrow> nat"
  cb_reset_on_last_close :: bool

definition send_group :: "int \<Rightarrow> tty_signal \<Rightarrow> tty \<Rightarrow> tty" where
  "send_group g sig s = s\<lparr>tt_sent := (g, sig) # tt_sent s\<rparr>"

definition observe_hangup :: "'b console \<Rightarrow> tty \<times> 'b \<Rightarrow> bool \<times> tty" where
  "observe_hangup cb x =
     (let (s, b) = x in
      if \<not> cb_hung_up cb b then (False, s)
      else if tt_hung_up s then (True, s)
      else let s1 = s\<lparr>tt_hung_up := True, tt_output_stopped := False, tt_input_ready := True, tt_output_resumed := True\<rparr>
           in (True, if 0 < tt_foreground_group s
                     then send_group (tt_foreground_group s) SIGCONT (send_group (tt_foreground_group s) SIGHUP s1) else s1))"

definition update_output_column :: "nat \<Rightarrow> u8 \<Rightarrow> nat panics" where
  "update_output_column column b =
     (if b = 13 \<or> b = 10 then Some 0
      else if b = 8 then Some (column - 1)
      else if b = 9 then checked_add column (8 - column mod 8)
      else if \<not> is_control b then Some (saturating_add column 1)
      else Some column)"

fun update_columns :: "nat \<Rightarrow> u8 list \<Rightarrow> nat panics" where
  "update_columns column [] = Some column"
| "update_columns column (b # bs) = Option.bind (update_output_column column b) (\<lambda>c. update_columns c bs)"

function echo_write :: "'b console \<Rightarrow> bool \<Rightarrow> u8 list \<Rightarrow> 'b \<Rightarrow> nat option \<times> 'b" where
  \<comment> \<open>the inner loop: how many of the bytes the backend took, halving the batch when it would block\<close>
  "echo_write cb nonblocking bs b =
     (case cb_write cb bs nonblocking b of
        (Inr u, b') \<Rightarrow> (Some (length bs), b')
      | (Inl e, b') \<Rightarrow>
          if e = WouldBlock \<and> nonblocking \<and> 1 < length bs
          then echo_write cb nonblocking (take (length bs div 2) bs) b' else (None, b'))"
  by pat_completeness auto
termination by (relation "measure (\<lambda>(cb, nonblocking, bs, b). length bs)") auto

text \<open>
  The batch of the next loop is never empty, and neither is what the backend took of it; the case
  of no bytes only makes the end of the loop evident.
\<close>

function flush_echo :: "'b console \<Rightarrow> bool \<Rightarrow> tty \<times> 'b \<Rightarrow> (tty \<times> 'b) panics" where
  "flush_echo cb nonblocking x =
     (let (s, b) = x in
      if tt_echo s = [] then Some (s, b)
      else let batch = take OUTPUT_BATCH_SIZE (tt_echo s) in
        case echo_write cb nonblocking batch b of
          (None, b') \<Rightarrow> Some (s, b')
        | (Some n, b') \<Rightarrow>
            if n = 0 then Some (s, b')
            else Option.bind (update_columns (tt_column s) (take n batch)) (\<lambda>c.
              flush_echo cb nonblocking (s\<lparr>tt_column := c, tt_echo := drop n (tt_echo s)\<rparr>, b')))"
  by pat_completeness auto
termination by (relation "measure (\<lambda>(cb, nonblocking, s, b). length (tt_echo s))") auto

declare echo_write.simps [simp del] flush_echo.simps [simp del]

definition process_input_generation :: "'b console \<Rightarrow> u8 list \<Rightarrow> bool \<Rightarrow> tty \<times> 'b \<Rightarrow> (tty \<times> 'b) panics" where
  "process_input_generation cb input nonblocking x =
     (let (s, b) = x in
      if raw_mode s then map_option (\<lambda>s'. (s', b)) (accept_raw input s)
      else let (s1, signals, flush) = fold process_input_byte input (s, {}, False);
               b1 = (if flush then snd (cb_flush_output cb b) else b);
               wake = tt_interrupted s1 \<or> input_ready s1;
               group = tt_foreground_group s1
           in Option.bind (flush_echo cb nonblocking (s1, b1)) (\<lambda>(s2, b2).
             let s3 = (if wake then s2\<lparr>tt_input_ready := True\<rparr> else s2) in
             Some (if 0 < group
                   then fold (\<lambda>sig. if sig \<in> signals then send_group group sig else id) [SIGINT, SIGQUIT, SIGTSTP] s3
                   else s3, b2)))"

fun pump_loop :: "nat \<Rightarrow> 'b console \<Rightarrow> bool \<Rightarrow> nat \<Rightarrow> tty \<times> 'b \<Rightarrow> (nat \<times> tty \<times> 'b) panics" where
  \<comment> \<open>at most \<open>INPUT_CAPACITY\<close> bytes, and every round but the last takes a full batch; no flush runs meanwhile\<close>
  "pump_loop 0 cb nonblocking n x = Some (n, x)"
| "pump_loop (Suc fuel) cb nonblocking n x =
     (let (s, b) = x in
      if \<not> n < INPUT_CAPACITY then Some (n, x)
      else case cb_read cb INPUT_BATCH_SIZE b of
        (Inl e, b') \<Rightarrow> Some (n, s, b')
      | (Inr bytes, b') \<Rightarrow>
          if bytes = [] then Some (n, s, b')
          else Option.bind (process_input_generation cb bytes nonblocking (s, b')) (\<lambda>y.
            if length bytes < INPUT_BATCH_SIZE then Some (n + length bytes, y)
            else pump_loop fuel cb nonblocking (n + length bytes) y))"

definition pump_input :: "'b console \<Rightarrow> bool \<Rightarrow> tty \<times> 'b \<Rightarrow> (nat \<times> tty \<times> 'b) panics" where
  "pump_input cb nonblocking x = pump_loop INPUT_CAPACITY cb nonblocking 0 x"

section \<open>Reading\<close>

datatype tty_read = Done "fs_error + u8 list" | Sleep

fun take_line :: "nat \<Rightarrow> tty \<Rightarrow> u8 list \<times> tty" where
  \<comment> \<open>the loop that fills the buffer up to a delimiter\<close>
  "take_line 0 s = ([], s)"
| "take_line (Suc n) s =
     (case pop_input s of
        (Some (IByte b), s1) \<Rightarrow>
          if is_delimiter (IByte b) (tt_termios s1) then ([b], s1)
          else let (bs, s2) = take_line n s1 in (b # bs, s2)
      | (_, s1) \<Rightarrow> ([], s1))"

definition canonical_attempt :: "nat \<Rightarrow> bool \<Rightarrow> tty \<Rightarrow> tty_read \<times> tty" where
  \<comment> \<open>one iteration of \<open>read_canonical\<close> under the lock, for a buffer of that size\<close>
  "canonical_attempt cap nonblocking s =
     (if tt_interrupted s then (Done (Inl Interrupted), refresh_input_event (s\<lparr>tt_interrupted := False\<rparr>))
      else if tt_canonical_ready s \<noteq> 0 then
        let (bs, s1) = take_line cap s;
            s2 = (if length bs = cap \<and> (case tt_input s1 of IEof # is \<Rightarrow> True | _ \<Rightarrow> False) \<and> tt_canonical_ready s1 \<noteq> 0
                  then snd (pop_input s1) else s1)
        in (Done (Inr bs), refresh_input_event s2)
      else if tt_hung_up s then (Done (Inr []), s)
      else if nonblocking then (Done (Inl WouldBlock), s)
      else (Sleep, s\<lparr>tt_input_ready := False\<rparr>))"

fun take_raw :: "nat \<Rightarrow> input_item list \<Rightarrow> nat" where
  \<comment> \<open>how many items the raw loop pops to deliver at most that many bytes\<close>
  "take_raw 0 is = 0"
| "take_raw n [] = 0"
| "take_raw (Suc n) (IByte b # is) = Suc (take_raw n is)"
| "take_raw (Suc n) (IEof # is) = Suc (take_raw (Suc n) is)"

definition pop_many :: "nat \<Rightarrow> tty \<Rightarrow> tty" where
  "pop_many n s = ((\<lambda>s. snd (pop_input s)) ^^ n) s"

definition raw_minimum :: "tty \<Rightarrow> nat \<Rightarrow> nat" where
  "raw_minimum s cap = min (unat (control_at (tt_termios s) VMIN)) cap"

definition raw_timeout :: "tty \<Rightarrow> nat" where
  "raw_timeout s = unat (control_at (tt_termios s) VTIME) * 100000000"

definition item_data :: "input_item list \<Rightarrow> u8 list" where
  "item_data is = concat (map (\<lambda>i. case i of IByte b \<Rightarrow> [b] | IEof \<Rightarrow> []) is)"

definition raw_attempt :: "nat \<Rightarrow> nat \<Rightarrow> nat \<Rightarrow> bool \<Rightarrow> u8 list \<Rightarrow> tty \<Rightarrow> tty_read \<times> u8 list \<times> tty" where
  \<comment> \<open>one iteration of \<open>read_raw\<close> under the lock; the bytes read so far come in and go out\<close>
  "raw_attempt cap minimum timeout nonblocking got s =
     (if tt_interrupted s then
        if got \<noteq> [] then (Done (Inr got), got, refresh_input_event s)
        else (Done (Inl Interrupted), got, refresh_input_event (s\<lparr>tt_interrupted := False\<rparr>))
      else
        let n = take_raw (cap - length got) (tt_input s);
            all = got @ item_data (take n (tt_input s));
            s1 = pop_many n s
        in if length all = cap \<or> minimum \<noteq> 0 \<and> minimum \<le> length all \<or> minimum = 0 \<and> all \<noteq> [] \<or>
              tt_hung_up s1 \<and> tt_input_bytes s1 = 0
           then (Done (Inr all), all, refresh_input_event s1)
           else if nonblocking then
             (Done (if all = [] then Inl WouldBlock else Inr all), all, refresh_input_event s1)
           else if minimum = 0 \<and> timeout = 0 then (Done (Inr all), all, refresh_input_event s1)
           else (Sleep, all, s1\<lparr>tt_input_ready := False\<rparr>))"

definition queued_input :: "tty \<Rightarrow> nat" where
  "queued_input s =
     (if \<not> has_local (tt_termios s) ICANON then tt_input_bytes s
      else length (item_data (take (tt_canonical_ready s) (tt_input s))))"

section \<open>Writing\<close>

definition to_ascii_uppercase :: "u8 \<Rightarrow> u8" where
  "to_ascii_uppercase b = (if 97 \<le> b \<and> b \<le> 122 then b - 32 else b)"

definition transform_byte :: "termios \<Rightarrow> nat \<Rightarrow> u8 \<Rightarrow> (u8 list \<times> nat) panics" where
  \<comment> \<open>what a byte is sent as at a column, and the next column\<close>
  "transform_byte t column b0 =
     (let b = (if has_out t OLCUC then to_ascii_uppercase b0 else b0) in
      if b = 13 \<and> has_out t ONOCR \<and> column = 0 then Some ([], column)
      else if b = 13 \<and> has_out t OCRNL then Some ([10], if has_out t ONLRET then 0 else column)
      else if b = 10 \<and> has_out t ONLCR then Some ([13, 10], 0)
      else if b = 9 \<and> output_flags t AND output_bit TABDLY = output_bit TAB3
        then map_option (Pair (replicate (8 - column mod 8) 32)) (checked_add column (8 - column mod 8))
      else if b = 13 then Some ([b], 0)
      else if b = 10 then Some ([b], if has_out t ONLRET then 0 else column)
      else if b = 8 then Some ([b], column - 1)
      else Some ([b], if is_control b then column else saturating_add column 1))"

definition transforms_output :: "termios \<Rightarrow> bool" where
  "transforms_output t \<longleftrightarrow> has_out t OPOST \<and> output_flags t AND (output_bit OLCUC OR output_bit ONLCR OR
     output_bit OCRNL OR output_bit ONOCR OR output_bit ONLRET OR output_bit TABDLY) \<noteq> 0"

function write_chunks :: "'b console \<Rightarrow> u8 list \<Rightarrow> nat \<Rightarrow> 'b \<Rightarrow> (fs_error + nat) \<times> 'b" where
  \<comment> \<open>the loop of a write without blocking and without transformation\<close>
  "write_chunks cb input consumed b =
     (if input = [] then (Inr consumed, b)
      else let chunk = take OUTPUT_BATCH_SIZE input in
        case cb_write cb chunk True b of
          (Inl e, b') \<Rightarrow> (if consumed = 0 then Inl e else Inr consumed, b')
        | (Inr u, b') \<Rightarrow> write_chunks cb (drop OUTPUT_BATCH_SIZE input) (consumed + length chunk) b')"
  by pat_completeness auto
termination by (relation "measure (\<lambda>(cb, input, consumed, b). length input)") (auto simp: OUTPUT_BATCH_SIZE_def)

declare write_chunks.simps [simp del]

record out_batch =
  ob_output :: "u8 list"
  ob_buffered :: nat
  ob_consumed :: nat
  ob_current :: nat
  ob_sent :: nat

fun write_loop :: "'b console \<Rightarrow> bool \<Rightarrow> termios \<Rightarrow> u8 list \<Rightarrow> out_batch \<Rightarrow> 'b \<Rightarrow> ((fs_error + nat) \<times> nat \<times> 'b) panics" where
  \<comment> \<open>the result, the column that the device has reached, and the backend\<close>
  "write_loop cb nonblocking t [] ob b =
     (if ob_output ob = [] then Some (Inr (ob_consumed ob + ob_buffered ob), ob_current ob, b)
      else case cb_write cb (ob_output ob) nonblocking b of
        (Inl e, b') \<Rightarrow> Some (if ob_consumed ob = 0 then Inl e else Inr (ob_consumed ob), ob_sent ob, b')
      | (Inr u, b') \<Rightarrow> Some (Inr (ob_consumed ob + ob_buffered ob), ob_current ob, b'))"
| "write_loop cb nonblocking t (x # xs) ob b =
     Option.bind (transform_byte t (ob_current ob) x) (\<lambda>(bs, column).
       if OUTPUT_BATCH_SIZE < length (ob_output ob) + length bs then
         case cb_write cb (ob_output ob) nonblocking b of
           (Inl e, b') \<Rightarrow> Some (if ob_consumed ob = 0 then Inl e else Inr (ob_consumed ob), ob_sent ob, b')
         | (Inr u, b') \<Rightarrow> write_loop cb nonblocking t xs
             \<lparr>ob_output = bs, ob_buffered = 1, ob_consumed = ob_consumed ob + ob_buffered ob,
              ob_current = column, ob_sent = ob_current ob\<rparr> b'
       else write_loop cb nonblocking t xs
         (ob\<lparr>ob_output := ob_output ob @ bs, ob_buffered := ob_buffered ob + 1, ob_current := column\<rparr>) b)"

datatype write_step = Written "fs_error + nat" | Stopped

definition write_transformed ::
  "'b console \<Rightarrow> bool \<Rightarrow> bool \<Rightarrow> u8 list \<Rightarrow> tty \<times> 'b \<Rightarrow> (write_step \<times> tty \<times> 'b) panics" where
  \<comment> \<open>the first flag: another writer has the output lock; a stopped output makes a blocking writer wait\<close>
  "write_transformed cb contended nonblocking input x =
     (let (s, b) = x; s1 = snd (observe_hangup cb (s, b)) in
      if tt_hung_up s1 then Some (Written (Inl FsIo), s1, b)
      else if tt_output_stopped s1 then
        Some (if nonblocking then Written (Inl WouldBlock) else Stopped, s1, b)
      else if has_local (tt_termios s1) FLUSHO then Some (Written (Inr (length input)), s1, b)
      else if nonblocking \<and> contended then Some (Written (Inl WouldBlock), s1, b)
      else
        Option.bind
          (if \<not> transforms_output (tt_termios s1) then
             let (r, b1) = (if nonblocking then write_chunks cb input 0 b
               else (case cb_write cb input False b of (Inl e, b1) \<Rightarrow> (Inl e, b1) | (Inr u, b1) \<Rightarrow> (Inr (length input), b1)))
             in Some (r, tt_column s1, b1)
           else write_loop cb nonblocking (tt_termios s1) input
             \<lparr>ob_output = [], ob_buffered = 0, ob_consumed = 0, ob_current = tt_column s1, ob_sent = tt_column s1\<rparr> b)
          (\<lambda>(r, column, b1). map_option (\<lambda>y. (Written r, y)) (flush_echo cb True (s1\<lparr>tt_column := column\<rparr>, b1))))"

section \<open>Control\<close>

definition flush_input :: "'b console \<Rightarrow> tty \<times> 'b \<Rightarrow> tty \<times> 'b" where
  "flush_input cb x = (let (s, b) = x in
     ((clear_input s)\<lparr>tt_interrupted := False, tt_input_ready := False\<rparr>, snd (cb_flush_input cb b)))"

definition apply_termios ::
  "'b console \<Rightarrow> termios \<Rightarrow> bool \<Rightarrow> bool \<Rightarrow> tty \<times> 'b \<Rightarrow> ((fs_error + unit) \<times> tty \<times> 'b) panics" where
  "apply_termios cb t drain flush x =
     (case serial_settings_of t of Inl e \<Rightarrow> Some (Inl e, x)
      | Inr settings \<Rightarrow>
        Option.bind (if drain then flush_echo cb False x else Some x) (\<lambda>(s, b).
          case (if drain then cb_flush cb b else (Inr (), b)) of
            (Inl e, b1) \<Rightarrow> Some (Inl e, s, b1)
          | (Inr u, b1) \<Rightarrow> (case cb_configure cb settings b1 of
              (Inl e, b2) \<Rightarrow> Some (Inl e, s, b2)
            | (Inr u, b2) \<Rightarrow>
                let (s1, b3) = (if flush then flush_input cb (s, b2) else (s, b2))
                in Some (Inr (), refresh_input_event (recalculate_canonical_ready (s1\<lparr>tt_termios := t\<rparr>)), b3))))"

definition tty_new :: "u32 \<Rightarrow> tty option" where
  "tty_new baud = map_option (\<lambda>t. \<lparr>tt_termios = t,
     tt_winsize = \<lparr>ws_rows = 0, ws_columns = 0, ws_x_pixels = 0, ws_y_pixels = 0\<rparr>, tt_input = [], tt_echo = [],
     tt_canonical_ready = 0, tt_input_bytes = 0, tt_literal_next = False, tt_output_stopped = False,
     tt_interrupted = False, tt_exclusive = False, tt_soft_carrier = True, tt_foreground_group = 0, tt_session = 0,
     tt_hung_up = False, tt_column = 0, tt_input_ready = False, tt_output_resumed = False, tt_opens = 0,
     tt_sent = []\<rparr>) (with_baud baud)"

definition tty_open :: "'b console \<Rightarrow> tty \<times> 'b \<Rightarrow> (fs_error + unit) \<times> tty \<times> 'b" where
  "tty_open cb x =
     (let (s, b) = x in
      if tt_exclusive s \<and> tt_opens s \<noteq> 0 then (Inl Busy, x)
      else case cb_open cb b of (Inl e, b1) \<Rightarrow> (Inl e, s, b1)
        | (Inr u, b1) \<Rightarrow> (Inr (), s\<lparr>tt_opens := tt_opens s + 1, tt_hung_up := (tt_opens s \<noteq> 0 \<and> tt_hung_up s)\<rparr>, b1))"

definition tty_close :: "'b console \<Rightarrow> u32 \<Rightarrow> tty \<times> 'b \<Rightarrow> (tty \<times> 'b) panics" where
  "tty_close cb initial_baud x =
     (let (s, b) = x; previous = tt_opens s; s1 = s\<lparr>tt_opens := previous - 1\<rparr> in
      if previous = 0 then None
      else Option.bind (if previous = 1 then map_option (\<lambda>(s2, b2). (s2, snd (cb_flush cb b2))) (flush_echo cb False (s1, b))
                        else Some (s1, b)) (\<lambda>(s2, b2).
        let b3 = cb_close cb b2 in
        if previous = 1 \<and> cb_reset_on_last_close cb
        then map_option (\<lambda>new. (new\<lparr>tt_output_resumed := True, tt_sent := tt_sent s2\<rparr>, b3)) (tty_new initial_baud)
        else Some (s2, b3)))"

definition tty_poll :: "'b console \<Rightarrow> bool \<Rightarrow> u16 \<Rightarrow> bool \<Rightarrow> bool \<Rightarrow> tty \<times> 'b \<Rightarrow> (u16 \<times> tty \<times> 'b) panics" where
  \<comment> \<open>flags: an input worker runs; the descriptor may read, may write\<close>
  "tty_poll cb worker events readable writable x =
     Option.bind (if worker then Some x
                  else map_option (\<lambda>(n, s, b). (snd (observe_hangup cb (s, b)), b)) (pump_input cb True x)) (\<lambda>(s, b).
       let inp = (if (tt_interrupted s \<or> input_ready s) \<and> readable then events AND (POLL_IN OR POLL_RDNORM) else 0);
           hup = (if tt_hung_up s then POLL_HUP else 0);
           out = (if writable \<and> \<not> tt_output_stopped s \<and> cb_writable cb b then events AND (POLL_OUT OR POLL_WRNORM) else 0)
       in Some (inp OR hup OR out, s, b))"

definition terminal_state :: "tty \<Rightarrow> int \<times> int \<times> bool" where
  "terminal_state s = (tt_session s, tt_foreground_group s, has_local (tt_termios s) TOSTOP)"

definition tty_sync :: "'b console \<Rightarrow> tty \<times> 'b \<Rightarrow> ((fs_error + unit) \<times> tty \<times> 'b) panics" where
  "tty_sync cb x = map_option (\<lambda>(s, b). let (r, b1) = cb_flush cb b in (r, s, b1)) (flush_echo cb False x)"

section \<open>Requests\<close>

datatype tty_request =
    TCGETS | TCSETS | TCSETSW | TCSETSF | TCSBRK | TCXONC | TCFLSH | TIOCEXCL | TIOCNXCL | TIOCSCTTY
    | TIOCGPGRP | TIOCSPGRP | TIOCOUTQ | TIOCSTI | TIOCGWINSZ | TIOCSWINSZ | TIOCGSOFTCAR | TIOCSSOFTCAR
    | FIONREAD | TIOCNOTTY | TIOCGSID | TIOCGPTN | TIOCSPTLCK | TIOCGPATH

fun request_code :: "tty_request \<Rightarrow> nat" where
  "request_code TCGETS = 0x5401"
| "request_code TCSETS = 0x5402"
| "request_code TCSETSW = 0x5403"
| "request_code TCSETSF = 0x5404"
| "request_code TCSBRK = 0x5409"
| "request_code TCXONC = 0x540A"
| "request_code TCFLSH = 0x540B"
| "request_code TIOCEXCL = 0x540C"
| "request_code TIOCNXCL = 0x540D"
| "request_code TIOCSCTTY = 0x540E"
| "request_code TIOCGPGRP = 0x540F"
| "request_code TIOCSPGRP = 0x5410"
| "request_code TIOCOUTQ = 0x5411"
| "request_code TIOCSTI = 0x5412"
| "request_code TIOCGWINSZ = 0x5413"
| "request_code TIOCSWINSZ = 0x5414"
| "request_code TIOCGSOFTCAR = 0x5419"
| "request_code TIOCSSOFTCAR = 0x541A"
| "request_code FIONREAD = 0x541B"
| "request_code TIOCNOTTY = 0x5422"
| "request_code TIOCGSID = 0x5429"
| "request_code TIOCGPTN = 0x80045430"
| "request_code TIOCSPTLCK = 0x40045431"
| "request_code TIOCGPATH = 0x52540001"

definition all_requests :: "tty_request list" where
  "all_requests =
     [TCGETS, TCSETS, TCSETSW, TCSETSF, TCSBRK, TCXONC, TCFLSH, TIOCEXCL, TIOCNXCL, TIOCSCTTY
    , TIOCGPGRP, TIOCSPGRP, TIOCOUTQ, TIOCSTI, TIOCGWINSZ, TIOCSWINSZ, TIOCGSOFTCAR, TIOCSSOFTCAR
    , FIONREAD, TIOCNOTTY, TIOCGSID, TIOCGPTN, TIOCSPTLCK, TIOCGPATH]"

definition request_of :: "nat \<Rightarrow> tty_request option" where
  \<comment> \<open>the constant that a request matches\<close>
  "request_of code = List.find (\<lambda>r. request_code r = code) all_requests"

record ioctl_spec =
  sp_input :: bool
  sp_output :: bool
  sp_size :: nat

definition ioctl_spec_of :: "nat \<Rightarrow> ioctl_spec" where
  "ioctl_spec_of code =
     (let spec = (\<lambda>i out n. \<lparr>sp_input = i, sp_output = out, sp_size = n\<rparr>);
          default = (let dir = code div 2 ^ 30 mod 4 in spec (odd dir) (2 \<le> dir) (code div 2 ^ 16 mod 2 ^ 14))
      in case request_of code of None \<Rightarrow> default
       | Some r \<Rightarrow>
           if r = TCGETS then spec False True TERMIOS_SIZE
           else if r \<in> {TCSETS, TCSETSW, TCSETSF} then spec True False TERMIOS_SIZE
           else if r \<in> {TIOCGPGRP, TIOCOUTQ, TIOCGSOFTCAR, FIONREAD, TIOCGSID, TIOCGPTN} then spec False True 4
           else if r \<in> {TIOCSPGRP, TIOCSSOFTCAR, TIOCSPTLCK} then spec True False 4
           else if r = TIOCSTI then spec True False 1
           else if r = TIOCGWINSZ then spec False True WINSIZE_SIZE
           else if r = TIOCSWINSZ then spec True False WINSIZE_SIZE
           else if r = TIOCGPATH then spec False True TTY_PATH_SIZE
           else default)"

record ioctl_context =
  ic_session_id :: int
  ic_process_group :: int
  ic_session_leader :: bool

definition get_i32 :: "u8 list \<Rightarrow> fs_error + int" where
  "get_i32 arg = (if length arg \<noteq> 4 then Inl InvalidArgument else Inr (sint (word_of_nat (from_le_bytes arg) :: u32)))"

definition put_i32 :: "int \<Rightarrow> u8 list \<Rightarrow> fs_error + u8 list" where
  "put_i32 v arg = (if length arg \<noteq> 4 then Inl InvalidArgument else Inr (to_le_bytes 4 (unat (word_of_int v :: u32))))"

type_synonym 'b ioctl_run = "((fs_error + u8 list) \<times> tty \<times> 'b) panics"

definition keep_arg :: "u8 list \<Rightarrow> (fs_error + unit) \<times> tty \<times> 'b \<Rightarrow> (fs_error + u8 list) \<times> tty \<times> 'b" where
  "keep_arg arg y = (case y of (Inl e, z) \<Rightarrow> (Inl e, z) | (Inr u, z) \<Rightarrow> (Inr arg, z))"

definition ioctl_flow :: "'b console \<Rightarrow> nat \<Rightarrow> tty \<times> 'b \<Rightarrow> (fs_error + unit) \<times> tty \<times> 'b" where
  \<comment> \<open>\<open>TCXONC\<close>\<close>
  "ioctl_flow cb value x =
     (let (s, b) = x in
      if value = 0 then (Inr (), s\<lparr>tt_output_stopped := True, tt_output_resumed := False\<rparr>, b)
      else if value = 1 then (Inr (), s\<lparr>tt_output_stopped := False, tt_output_resumed := True\<rparr>, b)
      else if value = 2 then (let (r, b1) = cb_write cb [control_at (tt_termios s) VSTOP] False b in (r, s, b1))
      else if value = 3 then (let (r, b1) = cb_write cb [control_at (tt_termios s) VSTART] False b in (r, s, b1))
      else (Inl InvalidArgument, x))"

definition ioctl_flush :: "'b console \<Rightarrow> nat \<Rightarrow> tty \<times> 'b \<Rightarrow> (fs_error + unit) \<times> tty \<times> 'b" where
  \<comment> \<open>\<open>TCFLSH\<close>\<close>
  "ioctl_flush cb value x =
     (if 2 < value then (Inl InvalidArgument, x)
      else let (s, b) = (if value \<noteq> 1 then flush_input cb x else x) in
        if value = 0 then (Inr (), s, b)
        else let (r, b1) = cb_flush_output cb b in (r, s\<lparr>tt_echo := []\<rparr>, b1))"

definition ioctl_session :: "ioctl_context \<Rightarrow> nat \<Rightarrow> tty \<Rightarrow> (fs_error + unit) \<times> tty" where
  \<comment> \<open>\<open>TIOCSCTTY\<close>\<close>
  "ioctl_session ctx value s =
     (if \<not> ic_session_leader ctx then (Inl PermissionDenied, s)
      else if tt_session s \<noteq> 0 \<and> tt_session s \<noteq> ic_session_id ctx \<and> value = 0 then (Inl PermissionDenied, s)
      else (Inr (), s\<lparr>tt_session := ic_session_id ctx,
        tt_foreground_group := (if tt_foreground_group s = 0 then ic_process_group ctx else tt_foreground_group s)\<rparr>))"

definition ioctl_leave :: "ioctl_context \<Rightarrow> tty \<Rightarrow> (fs_error + unit) \<times> tty" where
  \<comment> \<open>\<open>TIOCNOTTY\<close>\<close>
  "ioctl_leave ctx s =
     (if tt_session s \<noteq> ic_session_id ctx then (Inl PermissionDenied, s)
      else if \<not> ic_session_leader ctx then (Inr (), s)
      else let g = tt_foreground_group s; s1 = s\<lparr>tt_session := 0, tt_foreground_group := 0\<rparr>
           in (Inr (), if 0 < g then send_group g SIGCONT (send_group g SIGHUP s1) else s1))"

definition ioctl_set_group :: "ioctl_context \<Rightarrow> u8 list \<Rightarrow> tty \<Rightarrow> (fs_error + unit) \<times> tty" where
  \<comment> \<open>\<open>TIOCSPGRP\<close>\<close>
  "ioctl_set_group ctx arg s =
     (case get_i32 arg of Inl e \<Rightarrow> (Inl e, s)
      | Inr g \<Rightarrow> if g \<le> 0 then (Inl InvalidArgument, s)
          else if tt_session s \<noteq> ic_session_id ctx then (Inl NotTty, s)
          else (Inr (), s\<lparr>tt_foreground_group := g\<rparr>))"

definition ioctl_set_winsize :: "u8 list \<Rightarrow> tty \<Rightarrow> (fs_error + unit) \<times> tty" where
  \<comment> \<open>\<open>TIOCSWINSZ\<close>\<close>
  "ioctl_set_winsize arg s =
     (case winsize_decode arg of Inl e \<Rightarrow> (Inl e, s)
      | Inr w \<Rightarrow> if tt_winsize s = w then (Inr (), s)
          else let s1 = s\<lparr>tt_winsize := w\<rparr> in
               (Inr (), if 0 < tt_foreground_group s then send_group (tt_foreground_group s) SIGWINCH s1 else s1))"

definition tty_ioctl ::
  "'b console \<Rightarrow> bool \<Rightarrow> u8 list \<Rightarrow> ioctl_context \<Rightarrow> nat \<Rightarrow> nat \<Rightarrow> u8 list \<Rightarrow> tty \<times> 'b \<Rightarrow> 'b ioctl_run" where
  "tty_ioctl cb worker path ctx code value arg x =
     (let (s, b) = x;
          reply = (\<lambda>r. Some (r, s, b)) :: fs_error + u8 list \<Rightarrow> 'b ioctl_run;
          update = (\<lambda>(r, s1). Some (keep_arg arg (r, s1, b))) :: (fs_error + unit) \<times> tty \<Rightarrow> 'b ioctl_run;
          full = (\<lambda>y. Some (keep_arg arg y)) :: (fs_error + unit) \<times> tty \<times> 'b \<Rightarrow> 'b ioctl_run
      in case request_of code of None \<Rightarrow> reply (Inl NotTty)
       | Some r \<Rightarrow> (case r of
           TCGETS \<Rightarrow> reply (termios_encode (tt_termios s) arg)
         | TCSETS \<Rightarrow> (case termios_decode arg of Inl e \<Rightarrow> reply (Inl e)
             | Inr t \<Rightarrow> map_option (keep_arg arg) (apply_termios cb t False False x))
         | TCSETSW \<Rightarrow> (case termios_decode arg of Inl e \<Rightarrow> reply (Inl e)
             | Inr t \<Rightarrow> map_option (keep_arg arg) (apply_termios cb t True False x))
         | TCSETSF \<Rightarrow> (case termios_decode arg of Inl e \<Rightarrow> reply (Inl e)
             | Inr t \<Rightarrow> map_option (keep_arg arg) (apply_termios cb t True True x))
         | TCSBRK \<Rightarrow> Option.bind (flush_echo cb False x) (\<lambda>(s1, b1).
             case cb_flush cb b1 of (Inl e, b2) \<Rightarrow> Some (Inl e, s1, b2)
             | (Inr u, b2) \<Rightarrow> if value \<noteq> 0 then Some (Inr arg, s1, b2)
                 else let (q, b3) = cb_send_break cb 250 b2 in full (q, s1, b3))
         | TCXONC \<Rightarrow> full (ioctl_flow cb value x)
         | TCFLSH \<Rightarrow> full (ioctl_flush cb value x)
         | TIOCEXCL \<Rightarrow> update (Inr (), s\<lparr>tt_exclusive := True\<rparr>)
         | TIOCNXCL \<Rightarrow> update (Inr (), s\<lparr>tt_exclusive := False\<rparr>)
         | TIOCSCTTY \<Rightarrow> update (ioctl_session ctx value s)
         | TIOCNOTTY \<Rightarrow> update (ioctl_leave ctx s)
         | TIOCGPGRP \<Rightarrow> if tt_session s \<noteq> ic_session_id ctx then reply (Inl NotTty)
             else reply (put_i32 (tt_foreground_group s) arg)
         | TIOCSPGRP \<Rightarrow> update (ioctl_set_group ctx arg s)
         | TIOCOUTQ \<Rightarrow> reply (put_i32 (int (min (cb_queued_output cb b) (2 ^ 31 - 1))) arg)
         | TIOCSTI \<Rightarrow> (case arg of [] \<Rightarrow> reply (Inl InvalidArgument)
             | byte # rest \<Rightarrow> map_option (Pair (Inr arg)) (process_input_generation cb [byte] False x))
         | TIOCGWINSZ \<Rightarrow> reply (winsize_encode (tt_winsize s) arg)
         | TIOCSWINSZ \<Rightarrow> update (ioctl_set_winsize arg s)
         | TIOCGSOFTCAR \<Rightarrow> reply (put_i32 (if tt_soft_carrier s then 1 else 0) arg)
         | TIOCSSOFTCAR \<Rightarrow> (case get_i32 arg of Inl e \<Rightarrow> reply (Inl e)
             | Inr v \<Rightarrow> update (Inr (), s\<lparr>tt_soft_carrier := (v \<noteq> 0)\<rparr>))
         | FIONREAD \<Rightarrow> Option.bind (if worker then Some x
               else map_option (\<lambda>(n, s1, b1). (snd (observe_hangup cb (s1, b1)), b1)) (pump_input cb True x)) (\<lambda>(s1, b1).
             Some (put_i32 (int (min (queued_input s1) (2 ^ 31 - 1))) arg, s1, b1))
         | TIOCGSID \<Rightarrow> reply (put_i32 (tt_session s) arg)
         | TIOCGPATH \<Rightarrow> if length arg \<noteq> TTY_PATH_SIZE \<or> length arg < length path + 1 then reply (Inl InvalidArgument)
             else reply (Inr (path @ replicate (length arg - length path) 0))
         | TIOCGPTN \<Rightarrow> reply (Inl NotTty)
         | TIOCSPTLCK \<Rightarrow> reply (Inl NotTty)))"

end
