(* ===== verification/Tty_Input.thy ===== *)
theory Tty_Input
  imports Tty
begin

text \<open>
  Correctness of the input side of the line discipline: the queues stay within their capacities
  and their counters agree with their contents, editing only touches the unfinished line,
  canonical reads deliver lines, and the block transfer of raw mode is equivalent to processing
  the bytes one by one.
\<close>

section \<open>Echo changes nothing but the echo queue\<close>

definition echoes :: "(tty \<Rightarrow> tty) \<Rightarrow> bool" where
  "echoes f \<longleftrightarrow> (\<forall>s. \<exists>e. f s = s\<lparr>tt_echo := e\<rparr> \<and> (length (tt_echo s) \<le> ECHO_CAPACITY \<longrightarrow> length e \<le> ECHO_CAPACITY))"

named_theorems echo_intros

lemma echoesI: "(\<And>s. f s = s\<lparr>tt_echo := e s\<rparr>) \<Longrightarrow>
    (\<And>s. length (tt_echo s) \<le> ECHO_CAPACITY \<Longrightarrow> length (e s) \<le> ECHO_CAPACITY) \<Longrightarrow> echoes f"
  unfolding echoes_def by blast

lemma echoes_id [echo_intros]: "echoes (\<lambda>s. s)" "echoes id"
  by (rule echoesI [of _ tt_echo]; simp)+

lemma echoes_comp: "echoes f \<Longrightarrow> echoes g \<Longrightarrow> echoes (\<lambda>s. f (g s))"
  unfolding echoes_def
proof
  fix s
  assume f: "\<forall>s. \<exists>e. f s = s\<lparr>tt_echo := e\<rparr> \<and> (length (tt_echo s) \<le> ECHO_CAPACITY \<longrightarrow> length e \<le> ECHO_CAPACITY)"
    and g: "\<forall>s. \<exists>e. g s = s\<lparr>tt_echo := e\<rparr> \<and> (length (tt_echo s) \<le> ECHO_CAPACITY \<longrightarrow> length e \<le> ECHO_CAPACITY)"
  obtain e where e: "g s = s\<lparr>tt_echo := e\<rparr>" "length (tt_echo s) \<le> ECHO_CAPACITY \<longrightarrow> length e \<le> ECHO_CAPACITY"
    using g by blast
  obtain e' where "f (g s) = (g s)\<lparr>tt_echo := e'\<rparr>" "length (tt_echo (g s)) \<le> ECHO_CAPACITY \<longrightarrow> length e' \<le> ECHO_CAPACITY"
    using f by blast
  then show "\<exists>e. f (g s) = s\<lparr>tt_echo := e\<rparr> \<and> (length (tt_echo s) \<le> ECHO_CAPACITY \<longrightarrow> length e \<le> ECHO_CAPACITY)"
    using e by auto
qed

lemma echoes_queue [echo_intros]: "length bs \<le> ECHO_CAPACITY \<Longrightarrow> echoes (queue_echo bs)"
  by (rule echoesI [of _ "\<lambda>s. if has_local (tt_termios s) FLUSHO then tt_echo s
        else drop (length (tt_echo s) + length bs - ECHO_CAPACITY) (tt_echo s) @ bs"])
    (auto simp: queue_echo_def)

lemma echoes_input [echo_intros]: "echoes (echo_input t b)"
  by (auto simp: echo_input_def echo_control_def ECHO_CAPACITY_def intro!: echoes_queue)

lemma echoes_rub_out [echo_intros]: "echoes (rub_out n)"
proof (induction n)
  case 0
  have "rub_out 0 = (\<lambda>s. s)" by (rule ext) (simp add: rub_out_def)
  then show ?case using echoes_id by simp
next
  case (Suc n)
  have "rub_out (Suc n) = (\<lambda>s. queue_echo [8, 32, 8] (rub_out n s))" by (rule ext) (simp add: rub_out_def)
  then show ?case using echoes_comp [OF echoes_queue Suc, of "[8, 32, 8]"] by (simp add: ECHO_CAPACITY_def)
qed

lemma echoes_reprint [echo_intros]: "echoes (reprint t is)"
proof (induction "is")
  case Nil
  have "reprint t [] = (\<lambda>s. s)" by (rule ext) simp
  then show ?case using echoes_id by simp
next
  case (Cons i "is")
  have "reprint t (i # is) = (\<lambda>s. reprint t is ((case i of IByte b \<Rightarrow> echo_input t b | IEof \<Rightarrow> \<lambda>s. s) s))"
    by (rule ext) (cases i; simp)
  moreover have "echoes (case i of IByte b \<Rightarrow> echo_input t b | IEof \<Rightarrow> \<lambda>s. s)"
    using echoes_input echoes_id by (cases i) simp_all
  ultimately show ?case using echoes_comp [OF Cons] by simp
qed

lemma echo_fields:
  assumes "echoes f"
  shows "tt_input (f s) = tt_input s" "tt_input_bytes (f s) = tt_input_bytes s" "tt_termios (f s) = tt_termios s"
    "tt_canonical_ready (f s) = tt_canonical_ready s" "tt_literal_next (f s) = tt_literal_next s"
    "tt_column (f s) = tt_column s" "tt_foreground_group (f s) = tt_foreground_group s"
    "tt_interrupted (f s) = tt_interrupted s" "tt_hung_up (f s) = tt_hung_up s" "tt_output_stopped (f s) = tt_output_stopped s"
    "length (tt_echo s) \<le> ECHO_CAPACITY \<Longrightarrow> length (tt_echo (f s)) \<le> ECHO_CAPACITY"
proof -
  obtain e where "f s = s\<lparr>tt_echo := e\<rparr>" "length (tt_echo s) \<le> ECHO_CAPACITY \<longrightarrow> length e \<le> ECHO_CAPACITY"
    using assms unfolding echoes_def by blast
  then show "tt_input (f s) = tt_input s" "tt_input_bytes (f s) = tt_input_bytes s" "tt_termios (f s) = tt_termios s"
    "tt_canonical_ready (f s) = tt_canonical_ready s" "tt_literal_next (f s) = tt_literal_next s"
    "tt_column (f s) = tt_column s" "tt_foreground_group (f s) = tt_foreground_group s"
    "tt_interrupted (f s) = tt_interrupted s" "tt_hung_up (f s) = tt_hung_up s" "tt_output_stopped (f s) = tt_output_stopped s"
    "length (tt_echo s) \<le> ECHO_CAPACITY \<Longrightarrow> length (tt_echo (f s)) \<le> ECHO_CAPACITY"
    by simp_all
qed

lemmas echo_input_fields [simp] = echo_fields [OF echoes_input]
lemmas rub_out_fields [simp] = echo_fields [OF echoes_rub_out]
lemmas reprint_fields [simp] = echo_fields [OF echoes_reprint]

lemma echoes_short [echo_intros]: "length bs \<le> 3 \<Longrightarrow> echoes (queue_echo bs)"
  by (rule echoes_queue) (simp add: ECHO_CAPACITY_def)

lemmas queue_echo_fields [simp] = echo_fields [OF echoes_short]

section \<open>The invariant\<close>

definition bytes_in :: "input_item list \<Rightarrow> nat" where
  "bytes_in is = sum_list (map item_bytes is)"

lemma bytes_in_simps [simp]:
  "bytes_in [] = 0" "bytes_in (i # is) = item_bytes i + bytes_in is" "bytes_in (is @ js) = bytes_in is + bytes_in js"
  "bytes_in (rev is) = bytes_in is" "bytes_in (map IByte bs) = length bs" "item_bytes (IByte b) = 1" "item_bytes IEof = 0"
  by (simp_all add: bytes_in_def item_bytes_def comp_def rev_map [symmetric] sum_list_triv)

lemma item_data_length: "length (item_data is) = bytes_in is"
  by (induction "is") (simp_all add: item_data_def bytes_in_def item_bytes_def split: input_item.splits)

definition tty_inv :: "tty \<Rightarrow> bool" where
  "tty_inv s \<longleftrightarrow> length (tt_input s) \<le> INPUT_CAPACITY \<and> tt_input_bytes s = bytes_in (tt_input s) \<and>
     length (tt_echo s) \<le> ECHO_CAPACITY \<and> tt_canonical_ready s \<le> INPUT_CAPACITY"

lemma tty_inv_echo: "echoes f \<Longrightarrow> tty_inv (f s) \<longleftrightarrow> length (tt_echo (f s)) \<le> ECHO_CAPACITY \<and> length (tt_input s) \<le> INPUT_CAPACITY \<and>
    tt_input_bytes s = bytes_in (tt_input s) \<and> tt_canonical_ready s \<le> INPUT_CAPACITY"
  by (auto simp: tty_inv_def echo_fields)

lemma tty_inv_echoI: "echoes f \<Longrightarrow> tty_inv s \<Longrightarrow> tty_inv (f s)"
  using echo_fields [of f s] by (simp add: tty_inv_def)

lemmas echo_invs = tty_inv_echoI [OF echoes_input] tty_inv_echoI [OF echoes_rub_out] tty_inv_echoI [OF echoes_reprint]
  tty_inv_echoI [OF echoes_short]

lemma push_inv: "tty_inv s \<Longrightarrow> length (tt_input s) < INPUT_CAPACITY \<Longrightarrow> tty_inv (push_input i s)"
  by (simp add: tty_inv_def push_input_def)

lemma enqueue_inv:
  assumes "tty_inv s"
  shows "tty_inv (enqueue i s)"
proof (cases "INPUT_CAPACITY \<le> length (tt_input s)")
  case True
  then have "tt_input s \<noteq> []" by (auto simp: INPUT_CAPACITY_def)
  then obtain init l where l: "tt_input s = init @ [l]" by (metis rev_exhaust)
  have bell: "tty_inv (queue_echo [7] s)" by (rule tty_inv_echoI [OF echoes_short assms]) simp
  show ?thesis using assms True l bell by (auto simp: enqueue_def Let_def tty_inv_def push_input_def)
next
  case False
  then show ?thesis using assms by (auto simp: enqueue_def Let_def tty_inv_def push_input_def)
qed

lemma clear_inv: "tty_inv s \<Longrightarrow> tty_inv (clear_input s)"
  by (simp add: tty_inv_def clear_input_def)

lemma pop_inv: "tty_inv s \<Longrightarrow> tty_inv (snd (pop_input s))"
  by (auto simp: tty_inv_def pop_input_def split: list.splits)

section \<open>Editing\<close>

definition erases :: "termios \<Rightarrow> input_item list \<Rightarrow> nat \<Rightarrow> input_item list \<Rightarrow> bool" where
  \<comment> \<open>bytes were removed from the back, none of them a delimiter\<close>
  "erases t input n input' \<longleftrightarrow>
     (\<exists>gone. input = input' @ gone \<and> n = bytes_in gone \<and> (\<forall>i\<in>set gone. \<not> is_delimiter i t))"

lemma erases_refl [simp]: "erases t input 0 input"
  by (auto simp: erases_def)

lemma erasesI: "input = input' @ gone \<Longrightarrow> n = bytes_in gone \<Longrightarrow> (\<And>i. i \<in> set gone \<Longrightarrow> \<not> is_delimiter i t) \<Longrightarrow>
    erases t input n input'"
  by (auto simp: erases_def)

lemma delimiter_Eof [simp]: "is_delimiter IEof t"
  by (simp add: is_delimiter_def)

lemma discard_loop_spec:
  "discard_loop t is = (n, rest) \<Longrightarrow>
    \<exists>gone. is = gone @ rest \<and> n = bytes_in gone \<and> (\<forall>i\<in>set gone. \<not> is_delimiter i t)"
proof (induction t "is" arbitrary: n rest rule: discard_loop.induct)
  case (2 t i "is")
  show ?case
  proof (cases "is_delimiter i t")
    case True
    then show ?thesis using 2(2) by auto
  next
    case False
    obtain m r where m: "discard_loop t is = (m, r)" by fastforce
    then obtain gone where "is = gone @ r" "m = bytes_in gone" "\<forall>i\<in>set gone. \<not> is_delimiter i t"
      using 2(1) [OF False] by blast
    then show ?thesis using 2(2) False m by (intro exI [of _ "i # gone"]) auto
  qed
qed simp

lemma discard_erases:
  assumes "discard_current_line input t = (n, input')"
  shows "erases t input n input'"
proof -
  obtain rest where r: "discard_loop t (rev input) = (n, rest)" "input' = rev rest"
    using assms by (auto simp: discard_current_line_def split: prod.splits)
  obtain gone where "rev input = gone @ rest" "n = bytes_in gone" "\<forall>i\<in>set gone. \<not> is_delimiter i t"
    using discard_loop_spec [OF r(1)] by blast
  then show ?thesis using r(2) by (intro erasesI [of _ _ "rev gone"]) (auto simp: rev_swap)
qed

lemma utf8_loop_spec:
  "utf8_loop t b is = (n, c, rest) \<Longrightarrow>
    \<exists>gone. is = gone @ rest \<and> n = bytes_in gone \<and> (\<forall>i\<in>set gone. \<not> is_delimiter i t)"
proof (induction t b "is" arbitrary: n c rest rule: utf8_loop.induct)
  case (1 t b p "is")
  consider (stop) "is_delimiter (IByte p) t" | (last) "\<not> is_delimiter (IByte p) t" "p AND 0xc0 \<noteq> 0x80"
    | (more) "\<not> is_delimiter (IByte p) t" "p AND 0xc0 = 0x80" by blast
  then show ?case
  proof cases
    case stop
    then show ?thesis using 1(2) by auto
  next
    case last
    then show ?thesis using 1(2) by (intro exI [of _ "[IByte p]"]) auto
  next
    case more
    obtain m d r where m: "utf8_loop t p is = (m, d, r)" using prod_cases3 by blast
    then obtain gone where "is = gone @ r" "m = bytes_in gone" "\<forall>i\<in>set gone. \<not> is_delimiter i t"
      using 1(1) [of m d r] more by auto
    then show ?thesis using 1(2) more m by (intro exI [of _ "IByte p # gone"]) auto
  qed
qed auto

lemma erase_last_erases:
  assumes "erase_last_character input t = (n, columns, input')"
  shows "erases t input n input'"
proof (cases "rev input")
  case (Cons i "is")
  show ?thesis
  proof (cases i)
    case (IByte b)
    show ?thesis
    proof (cases "is_delimiter (IByte b) t")
      case True
      then show ?thesis using assms Cons IByte by (auto simp: erase_last_character_def)
    next
      case False
      obtain m c rest where u: "(if has_in t IUTF8 \<and> b AND 0xc0 = 0x80 then utf8_loop t b is else (0, b, is)) = (m, c, rest)"
        using prod_cases3 by blast
      then obtain gone where g: "is = gone @ rest" "m = bytes_in gone" "\<forall>i\<in>set gone. \<not> is_delimiter i t"
        using utf8_loop_spec [of t b "is"] by (auto split: if_splits)
      have "n = Suc m" "input' = rev rest"
        using assms Cons IByte False u by (auto simp: erase_last_character_def split: prod.splits)
      moreover have "input = rev rest @ rev gone @ [IByte b]"
        using Cons IByte g(1) by (metis append.assoc rev.simps(2) rev_append rev_rev_ident)
      ultimately show ?thesis using g False by (intro erasesI [of _ _ "rev gone @ [IByte b]"]) auto
    qed
  next
    case IEof
    then show ?thesis using assms Cons by (auto simp: erase_last_character_def)
  qed
qed (use assms in \<open>auto simp: erase_last_character_def\<close>)

lemma erase_while_spec:
  "erase_while P t is = (n, rest) \<Longrightarrow>
    \<exists>gone. is = gone @ rest \<and> n = bytes_in gone \<and> (\<forall>i\<in>set gone. \<not> is_delimiter i t)"
proof (induction P t "is" arbitrary: n rest rule: erase_while.induct)
  case (1 P t b "is")
  show ?case
  proof (cases "\<not> is_delimiter (IByte b) t \<and> P b")
    case True
    obtain m r where m: "erase_while P t is = (m, r)" by fastforce
    then obtain gone where "is = gone @ r" "m = bytes_in gone" "\<forall>i\<in>set gone. \<not> is_delimiter i t"
      using 1(1) [OF True] by blast
    then show ?thesis using 1(2) True m by (intro exI [of _ "IByte b # gone"]) auto
  next
    case False
    then have "erase_while P t (IByte b # is) = (0, IByte b # is)" by auto
    then show ?thesis using 1(2) by auto
  qed
qed auto

lemma erase_word_erases:
  assumes "erase_word input t = (n, input')"
  shows "erases t input n input'"
proof -
  obtain m "is" k js where e: "erase_while is_ascii_whitespace t (rev input) = (m, is)"
    "erase_while (\<lambda>b. \<not> is_ascii_whitespace b) t is = (k, js)" by fastforce
  then have r: "n = m + k" "input' = rev js" using assms by (simp_all add: erase_word_def)
  obtain g h where g: "rev input = g @ is" "m = bytes_in g" "\<forall>i\<in>set g. \<not> is_delimiter i t"
    and h: "is = h @ js" "k = bytes_in h" "\<forall>i\<in>set h. \<not> is_delimiter i t"
    using erase_while_spec [OF e(1)] erase_while_spec [OF e(2)] by blast
  then have "input = rev js @ rev (g @ h)" by (metis append.assoc rev_append rev_rev_ident)
  then show ?thesis using g h r by (intro erasesI [of _ _ "rev (g @ h)"]) auto
qed

lemma erases_inv:
  "erases t (tt_input s) n input' \<Longrightarrow> tty_inv s \<Longrightarrow> tty_inv (s\<lparr>tt_input := input', tt_input_bytes := tt_input_bytes s - n\<rparr>)"
  by (auto simp: erases_def tty_inv_def)

lemma erase_key_form:
  obtains n input' f where "erases t (tt_input s) n input'" "echoes f"
    "erase_key t b s = f (s\<lparr>tt_input := input', tt_input_bytes := tt_input_bytes s - n\<rparr>)"
proof -
  obtain n c input' where e: "erase_last_character (tt_input s) t = (n, c, input')" using prod_cases3 by blast
  let ?f = "if n = 0 then (\<lambda>s. s) else if has_local t ECHOE then rub_out c else if has_local t ECHO then echo_input t b else (\<lambda>s. s)"
  have "erase_key t b s = ?f (s\<lparr>tt_input := input', tt_input_bytes := tt_input_bytes s - n\<rparr>)"
    using e by (auto simp: erase_key_def)
  moreover have "echoes ?f" by (auto intro: echo_intros)
  ultimately show thesis using that erase_last_erases [OF e] by blast
qed

lemma kill_key_form:
  obtains n input' f where "erases t (tt_input s) n input'" "echoes f"
    "kill_key t s = f (s\<lparr>tt_input := input', tt_input_bytes := tt_input_bytes s - n\<rparr>)"
proof -
  obtain n input' where e: "discard_current_line (tt_input s) t = (n, input')" by fastforce
  let ?f = "if has_local t ECHO \<and> has_local t ECHOE \<and> has_local t ECHOKE then rub_out n
     else if has_local t ECHO \<and> has_local t ECHOK then echo_input t 10 else (\<lambda>s. s)"
  have "kill_key t s = ?f (s\<lparr>tt_input := input', tt_input_bytes := tt_input_bytes s - n\<rparr>)"
    using e by (auto simp: kill_key_def Let_def)
  moreover have "echoes ?f" by (auto intro: echo_intros)
  ultimately show thesis using that discard_erases [OF e] by blast
qed

lemma word_erase_key_form:
  obtains n input' f where "erases t (tt_input s) n input'" "echoes f"
    "word_erase_key t s = f (s\<lparr>tt_input := input', tt_input_bytes := tt_input_bytes s - n\<rparr>)"
proof -
  obtain n input' where e: "erase_word (tt_input s) t = (n, input')" by fastforce
  let ?f = "if has_local t ECHOE then rub_out n else (\<lambda>s. s)"
  have "word_erase_key t s = ?f (s\<lparr>tt_input := input', tt_input_bytes := tt_input_bytes s - n\<rparr>)"
    using e by (auto simp: word_erase_key_def Let_def)
  moreover have "echoes ?f" by (auto intro: echo_intros)
  ultimately show thesis using that erase_word_erases [OF e] by blast
qed

section \<open>Input processing keeps the invariant\<close>

lemma erased_inv:
  assumes "tty_inv s" "erases t (tt_input s) n input'" "echoes f"
  shows "tty_inv (f (s\<lparr>tt_input := input', tt_input_bytes := tt_input_bytes s - n\<rparr>))"
  using tty_inv_echoI [OF assms(3) erases_inv [OF assms(2,1)]] .

lemma line_byte_inv:
  assumes "tty_inv s"
  shows "tty_inv (line_byte t b s)"
proof -
  have "tty_inv (erase_key t b s)"
    by (rule erase_key_form [of t s b]) (erule ssubst, rule erased_inv [OF assms])
  moreover have "tty_inv (kill_key t s)"
    by (rule kill_key_form [of t s]) (erule ssubst, rule erased_inv [OF assms])
  moreover have "tty_inv (word_erase_key t s)"
    by (rule word_erase_key_form [of t s]) (erule ssubst, rule erased_inv [OF assms])
  moreover have "tty_inv (reprint_key t b s)"
    unfolding reprint_key_def by (intro echo_invs assms)
  moreover have "tty_inv (plain_byte t b s)"
    by (auto simp: plain_byte_def Let_def intro!: echo_invs enqueue_inv assms)
  ultimately show ?thesis using enqueue_inv [OF assms] by (simp add: line_byte_def)
qed

lemma tty_inv_fields [simp]:
  "tty_inv (s\<lparr>tt_output_stopped := a\<rparr>) = tty_inv s" "tty_inv (s\<lparr>tt_output_resumed := a\<rparr>) = tty_inv s"
  "tty_inv (s\<lparr>tt_literal_next := a\<rparr>) = tty_inv s" "tty_inv (s\<lparr>tt_termios := t\<rparr>) = tty_inv s"
  "tty_inv (s\<lparr>tt_interrupted := a\<rparr>) = tty_inv s" "tty_inv (s\<lparr>tt_input_ready := a\<rparr>) = tty_inv s"
  "tty_inv (s\<lparr>tt_column := c\<rparr>) = tty_inv s" "tty_inv (s\<lparr>tt_sent := l\<rparr>) = tty_inv s"
  "tty_inv (s\<lparr>tt_hung_up := a\<rparr>) = tty_inv s" "tty_inv (s\<lparr>tt_exclusive := a\<rparr>) = tty_inv s"
  "tty_inv (s\<lparr>tt_session := g\<rparr>) = tty_inv s" "tty_inv (s\<lparr>tt_foreground_group := g\<rparr>) = tty_inv s"
  "tty_inv (s\<lparr>tt_winsize := w\<rparr>) = tty_inv s" "tty_inv (s\<lparr>tt_soft_carrier := a\<rparr>) = tty_inv s"
  "tty_inv (s\<lparr>tt_opens := n\<rparr>) = tty_inv s"
  by (simp_all add: tty_inv_def)

lemma flow_control_inv: "flow_control t b s = (used, s') \<Longrightarrow> tty_inv s' = tty_inv s"
  by (auto simp: flow_control_def split: if_splits)

lemma discard_output_inv: "discard_output t b s = (f, s') \<Longrightarrow> tty_inv s \<Longrightarrow> tty_inv s'"
  by (auto simp: discard_output_def Let_def split: if_splits intro!: echo_invs) (simp_all add: tty_inv_def)

lemma raise_signal_inv: "raise_signal t b s = (f, s') \<Longrightarrow> tty_inv s \<Longrightarrow> tty_inv s'"
  by (auto simp: raise_signal_def Let_def clear_input_def split: if_splits intro!: echo_invs) (simp_all add: tty_inv_def)

lemma process_input_byte_inv:
  assumes "tty_inv s"
  shows "tty_inv (fst (process_input_byte b (s, signals, flush)))"
proof (cases "map_byte (tt_termios s) b")
  case (Some c)
  let ?t = "tt_termios s"
  obtain used s1 where f: "flow_control ?t c s = (used, s1)" by fastforce
  have inv1: "tty_inv s1" using flow_control_inv [OF f] assms by simp
  have "tty_inv (echo_input ?t c (enqueue (IByte c) (s1\<lparr>tt_literal_next := False\<rparr>)))"
    using inv1 by (intro echo_invs enqueue_inv) simp
  moreover have "tty_inv (if has_local ?t ECHO then if has_local ?t ECHOE then queue_echo [0x5e, 8] (s1\<lparr>tt_literal_next := True\<rparr>)
      else echo_input ?t c (s1\<lparr>tt_literal_next := True\<rparr>) else s1\<lparr>tt_literal_next := True\<rparr>)"
    using inv1 by (auto intro!: echo_invs)
  moreover have "\<forall>f s'. discard_output ?t c s1 = (f, s') \<longrightarrow> tty_inv s'" "\<forall>f s'. raise_signal ?t c s1 = (f, s') \<longrightarrow> tty_inv s'"
    using discard_output_inv raise_signal_inv inv1 by blast+
  ultimately show ?thesis using assms inv1 line_byte_inv [OF inv1, of ?t c] Some f
    by (simp add: process_input_byte_def Let_def split: prod.splits option.splits)
qed (use assms in \<open>simp add: process_input_byte_def Let_def\<close>)

lemma process_input_bytes_inv:
  "tty_inv s \<Longrightarrow> tty_inv (fst (fold process_input_byte bs (s, signals, flush)))"
proof (induction bs arbitrary: s signals flush)
  case (Cons b bs)
  obtain s1 sg fl where p: "process_input_byte b (s, signals, flush) = (s1, sg, fl)" using prod_cases3 by blast
  then have "tty_inv s1" using process_input_byte_inv [OF Cons.prems, of b signals flush] by simp
  then show ?case using Cons.IH p by simp
qed simp

section \<open>Reading lines\<close>

lemma pop_many_Suc: "pop_many (Suc n) s = pop_many n (snd (pop_input s))"
  unfolding pop_many_def funpow_Suc_right by simp

lemma pop_many_0 [simp]: "pop_many 0 s = s"
  by (simp add: pop_many_def)

lemma pop_input_fields [simp]:
  "tt_termios (snd (pop_input s)) = tt_termios s" "tt_interrupted (snd (pop_input s)) = tt_interrupted s"
  "tt_hung_up (snd (pop_input s)) = tt_hung_up s" "tt_input (snd (pop_input s)) = tl (tt_input s)"
  "tt_canonical_ready (snd (pop_input s)) = (if tt_input s = [] then tt_canonical_ready s else tt_canonical_ready s - 1)"
  "tt_echo (snd (pop_input s)) = tt_echo s" "tt_column (snd (pop_input s)) = tt_column s"
  by (simp_all add: pop_input_def split: list.splits)

lemma pop_many_all:
  "tt_termios (pop_many n s) = tt_termios s \<and> tt_interrupted (pop_many n s) = tt_interrupted s \<and>
   tt_hung_up (pop_many n s) = tt_hung_up s \<and> tt_input (pop_many n s) = drop n (tt_input s) \<and>
   tt_column (pop_many n s) = tt_column s \<and>
   (n \<le> length (tt_input s) \<longrightarrow> tt_canonical_ready (pop_many n s) = tt_canonical_ready s - n) \<and>
   (tty_inv s \<longrightarrow> tty_inv (pop_many n s))"
proof (induction n arbitrary: s)
  case (Suc n)
  have "n \<le> length (tt_input (snd (pop_input s)))" "tt_input s \<noteq> []" if "Suc n \<le> length (tt_input s)"
    using that by (auto simp: Suc_le_length_iff)
  then show ?case using Suc [of "snd (pop_input s)"] pop_inv [of s] by (auto simp: pop_many_Suc drop_Suc)
qed simp

lemma pop_many_fields [simp]:
  "tt_termios (pop_many n s) = tt_termios s" "tt_interrupted (pop_many n s) = tt_interrupted s"
  "tt_hung_up (pop_many n s) = tt_hung_up s" "tt_input (pop_many n s) = drop n (tt_input s)"
  "tt_column (pop_many n s) = tt_column s"
  "n \<le> length (tt_input s) \<Longrightarrow> tt_canonical_ready (pop_many n s) = tt_canonical_ready s - n"
  "tty_inv s \<Longrightarrow> tty_inv (pop_many n s)"
  using pop_many_all [of n s] by simp_all

definition item_list :: "input_item \<Rightarrow> u8 list" where
  "item_list i = (case i of IByte b \<Rightarrow> [b] | IEof \<Rightarrow> [])"

lemma take_line_spec:
  assumes "tt_input s = map IByte bs @ d # rest" "\<forall>b\<in>set bs. \<not> is_delimiter (IByte b) (tt_termios s)"
    "is_delimiter d (tt_termios s)"
  shows "take_line n s = (if length bs < n then (bs @ item_list d, pop_many (Suc (length bs)) s) else (take n bs, pop_many n s))"
  using assms
proof (induction bs arbitrary: s n)
  case Nil
  then show ?case
    by (cases n; cases d) (auto simp: pop_input_def item_list_def pop_many_Suc)
next
  case (Cons b bs)
  show ?case
  proof (cases n)
    case (Suc m)
    define s1 where "s1 = snd (pop_input s)"
    have p: "pop_input s = (Some (IByte b), s1)" using Cons.prems(1) by (simp add: pop_input_def s1_def)
    have "tt_input s1 = map IByte bs @ d # rest" "tt_termios s1 = tt_termios s" using Cons.prems(1) by (simp_all add: s1_def)
    then have "take_line m s1 = (if length bs < m then (bs @ item_list d, pop_many (Suc (length bs)) s1) else (take m bs, pop_many m s1))"
      using Cons.IH [of s1 m] Cons.prems by simp
    moreover have "pop_many (Suc k) s = pop_many k s1" for k by (simp add: pop_many_Suc s1_def)
    ultimately show ?thesis using Suc p Cons.prems(2) \<open>tt_termios s1 = tt_termios s\<close> by (simp add: pop_many_Suc)
  qed simp
qed

lemma take_line_inv: "tty_inv s \<Longrightarrow> take_line n s = (bs, s') \<Longrightarrow> tty_inv s' \<and> length bs \<le> n \<and> tt_column s' = tt_column s"
proof (induction n s arbitrary: bs s' rule: take_line.induct)
  case (2 n s)
  obtain i s1 where p: "pop_input s = (i, s1)" by fastforce
  have inv: "tty_inv s1" "tt_column s1 = tt_column s"
    using pop_inv [OF 2(2)] pop_input_fields(7) [of s] p by (metis snd_conv)+
  show ?case
  proof (cases "\<exists>b. i = Some (IByte b) \<and> \<not> is_delimiter (IByte b) (tt_termios s1)")
    case True
    then obtain b where b: "i = Some (IByte b)" "\<not> is_delimiter (IByte b) (tt_termios s1)" by blast
    obtain cs s2 where t: "take_line n s1 = (cs, s2)" by fastforce
    have "tty_inv s2 \<and> length cs \<le> n \<and> tt_column s2 = tt_column s1"
      by (rule 2(1) [OF p [symmetric, unfolded b(1)] refl refl b(2) inv(1) t])
    then show ?thesis using 2(3) p b t inv by auto
  next
    case False
    then show ?thesis using 2(3) p inv by (auto split: option.splits input_item.splits)
  qed
qed simp

lemma refresh_fields [simp]:
  "tt_input (refresh_input_event s) = tt_input s" "tt_canonical_ready (refresh_input_event s) = tt_canonical_ready s"
  "tty_inv (refresh_input_event s) = tty_inv s" "tt_column (refresh_input_event s) = tt_column s"
  "tt_termios (refresh_input_event s) = tt_termios s"
  by (simp_all add: refresh_input_event_def)

lemma canonical_line:
  assumes "tt_input s = map IByte bs @ d # rest" "\<forall>b\<in>set bs. \<not> is_delimiter (IByte b) (tt_termios s)"
    "is_delimiter d (tt_termios s)" "tt_canonical_ready s \<noteq> 0" "\<not> tt_interrupted s" "length bs < cap"
  shows "\<exists>s'. canonical_attempt cap nonblocking s = (Done (Inr (bs @ item_list d)), s') \<and>
    (tt_input s' = rest \<or> tt_input s' = tl rest \<and> rest \<noteq> [] \<and> hd rest = IEof \<and> length (bs @ item_list d) = cap \<and>
       Suc (length bs) < tt_canonical_ready s)"
proof -
  have t: "take_line cap s = (bs @ item_list d, pop_many (Suc (length bs)) s)"
    using take_line_spec [OF assms(1-3), of cap] assms(6) by simp
  have i: "tt_input (pop_many (Suc (length bs)) s) = rest" using assms(1) by simp
  have r: "tt_canonical_ready (pop_many (Suc (length bs)) s) = tt_canonical_ready s - Suc (length bs)"
    using assms(1) by simp
  show ?thesis using assms(4,5) t i r
    by (auto simp: canonical_attempt_def Let_def split: list.splits input_item.splits)
qed

section \<open>Typing a line\<close>

definition passes :: "termios \<Rightarrow> u8 \<Rightarrow> bool" where
  \<comment> \<open>a byte that reaches the line editor as it is\<close>
  "passes t b \<longleftrightarrow> map_byte t b = Some b \<and>
     (has_in t IXON \<longrightarrow> \<not> control_matches t VSTOP b \<and> \<not> control_matches t VSTART b) \<and>
     (has_local t IEXTEN \<longrightarrow> \<not> control_matches t VLNEXT b \<and> \<not> control_matches t VDISCARD b) \<and> signal_of t b = None"

definition letter :: "termios \<Rightarrow> u8 \<Rightarrow> bool" where
  "letter t b \<longleftrightarrow> passes t b \<and> \<not> is_delimiter (IByte b) t \<and> \<not> control_matches t VERASE b \<and> \<not> control_matches t VKILL b \<and>
     \<not> (has_local t IEXTEN \<and> (control_matches t VWERASE b \<or> control_matches t VREPRINT b)) \<and> \<not> control_matches t VEOF b \<and>
     \<not> (has_in t IUTF8 \<and> b AND 0xc0 = 0x80)"

definition keystroke :: "termios \<Rightarrow> u8 \<Rightarrow> bool" where
  "keystroke t b \<longleftrightarrow> letter t b \<or> passes t b \<and> (control_matches t VERASE b \<or> control_matches t VKILL b)"

fun edit_line :: "termios \<Rightarrow> u8 list \<Rightarrow> u8 list \<Rightarrow> u8 list" where
  \<comment> \<open>the reference: a line and the keys that edit it\<close>
  "edit_line t line [] = line"
| "edit_line t line (b # bs) = edit_line t
     (if control_matches t VERASE b then butlast line else if control_matches t VKILL b then [] else line @ [b]) bs"

definition typing :: "termios \<Rightarrow> u8 list \<Rightarrow> tty \<Rightarrow> bool" where
  \<comment> \<open>the unfinished line is all there is\<close>
  "typing t line s \<longleftrightarrow> tt_termios s = t \<and> tt_input s = map IByte line \<and> tt_canonical_ready s = 0 \<and>
     \<not> tt_literal_next s \<and> \<not> tt_output_stopped s \<and> \<not> tt_interrupted s \<and> (\<forall>b\<in>set line. letter t b)"

lemma passes_step:
  assumes "has_control (tt_termios s) CREAD" "passes (tt_termios s) b" "\<not> tt_output_stopped s" "\<not> tt_literal_next s"
  shows "process_input_byte b (s, signals, flush) = (line_byte (tt_termios s) b s, signals, flush)"
proof -
  have "flow_control (tt_termios s) b s = (False, s)"
    using assms(2,3) by (auto simp: flow_control_def passes_def)
  then show ?thesis using assms by (auto simp: process_input_byte_def Let_def passes_def)
qed

lemma discard_letters: "(\<forall>i\<in>set is. \<not> is_delimiter i t) \<Longrightarrow> discard_loop t is = (bytes_in is, [])"
  by (induction "is") auto

lemma erase_letters:
  assumes "\<forall>b\<in>set line. letter t b"
  shows "\<exists>n c. erase_last_character (map IByte line) t = (n, c, map IByte (butlast line))"
proof (cases line rule: rev_cases)
  case (snoc init l)
  then have "\<not> is_delimiter (IByte l) t" "\<not> (has_in t IUTF8 \<and> l AND 0xc0 = 0x80)" using assms by (auto simp: letter_def)
  then show ?thesis using snoc by (auto simp: erase_last_character_def rev_map)
qed (simp add: erase_last_character_def)

lemma key_typed:
  assumes "typing t line s" "keystroke t b" "has_local t ICANON" "Suc (length line) < INPUT_CAPACITY"
  shows "typing t (if control_matches t VERASE b then butlast line else if control_matches t VKILL b then [] else line @ [b])
    (line_byte t b s)"
proof -
  have line: "tt_input s = map IByte line" "\<forall>b\<in>set line. letter t b" using assms(1) by (auto simp: typing_def)
  consider (erase) "control_matches t VERASE b" | (kill) "\<not> control_matches t VERASE b" "control_matches t VKILL b" | (letter) "letter t b"
    using assms(2) by (auto simp: keystroke_def)
  then show ?thesis
  proof cases
    case erase
    obtain n c where e: "erase_last_character (map IByte line) t = (n, c, map IByte (butlast line))"
      using erase_letters [OF line(2)] by blast
    have "line_byte t b s = erase_key t b s" using erase assms(3) by (simp add: line_byte_def)
    moreover have "typing t (butlast line) (erase_key t b s)"
      using assms(1) e line by (auto simp: erase_key_def Let_def typing_def dest: in_set_butlastD)
    ultimately show ?thesis using erase by simp
  next
    case kill
    have "discard_current_line (map IByte line) t = (length line, [])"
      using discard_letters [of "rev (map IByte line)" t] line(2) by (simp add: discard_current_line_def letter_def)
    moreover have "line_byte t b s = kill_key t s" using kill assms(3) by (simp add: line_byte_def)
    ultimately show ?thesis using kill assms(1) line(1) by (auto simp: kill_key_def Let_def typing_def)
  next
    case letter
    then have "line_byte t b s = plain_byte t b s" by (auto simp: line_byte_def letter_def)
    moreover have "enqueue (IByte b) s = push_input (IByte b) s"
      using letter assms(1,3,4) by (auto simp: enqueue_def Let_def typing_def letter_def push_input_def)
    ultimately show ?thesis using letter assms(1)
      by (auto simp: plain_byte_def Let_def typing_def push_input_def letter_def)
  qed
qed

lemma edit_line_length: "length (edit_line t line keys) \<le> length line + length keys"
  by (induction t line keys rule: edit_line.induct) (fastforce split: if_splits)+

lemma keys_typed:
  assumes "typing t line s" "\<forall>b\<in>set keys. keystroke t b" "has_local t ICANON" "has_control t CREAD"
    "length line + length keys < INPUT_CAPACITY"
  shows "\<exists>s'. fold process_input_byte keys (s, signals, flush) = (s', signals, flush) \<and> typing t (edit_line t line keys) s'"
  using assms
proof (induction keys arbitrary: line s)
  case (Cons b keys)
  let ?line = "if control_matches t VERASE b then butlast line else if control_matches t VKILL b then [] else line @ [b]"
  have t: "tt_termios s = t" "\<not> tt_output_stopped s" "\<not> tt_literal_next s" using Cons.prems(1) by (simp_all add: typing_def)
  have p: "passes t b" using Cons.prems(2) by (auto simp: keystroke_def letter_def)
  have "process_input_byte b (s, signals, flush) = (line_byte t b s, signals, flush)"
    using passes_step [of s b signals flush] t p Cons.prems(4) by simp
  moreover have "typing t ?line (line_byte t b s)"
    by (rule key_typed) (use Cons.prems in auto)
  moreover have "length ?line + length keys < INPUT_CAPACITY" using Cons.prems(5) by (auto split: if_splits)
  ultimately show ?case using Cons.IH [of ?line "line_byte t b s"] Cons.prems by simp
qed simp

text \<open>
  C35. The line discipline refines a line editor. Whatever keys are typed in canonical mode on an
  empty queue, letters, erase and kill characters, up to the capacity of the queue, and then a
  newline, the next read with a large enough buffer returns exactly the edited line, in which
  erase has removed the last letter and kill the whole line, followed by the newline, and
  nothing is left in the queue. No signal is raised and nothing is flushed.
\<close>

theorem tty_line_typed:
  assumes "typing t [] s" "has_local t ICANON" "has_control t CREAD" "\<forall>b\<in>set keys. keystroke t b"
    and newline: "passes t 10" "\<not> control_matches t VERASE 10" "\<not> control_matches t VKILL 10" "\<not> control_matches t VWERASE 10"
      "\<not> control_matches t VREPRINT 10" "\<not> control_matches t VEOF 10"
    and "Suc (length keys) < INPUT_CAPACITY" "length keys < cap"
  shows "\<exists>s' s''. fold process_input_byte (keys @ [10]) (s, {}, False) = (s', {}, False) \<and>
    canonical_attempt cap nonblocking s' = (Done (Inr (edit_line t [] keys @ [10])), s'') \<and> tt_input s'' = []"
proof -
  let ?line = "edit_line t [] keys"
  obtain s1 where s1: "fold process_input_byte keys (s, {}, False) = (s1, {}, False)" "typing t ?line s1"
    using keys_typed [OF assms(1,4,2,3)] assms(11) by auto
  have T: "tt_termios s1 = t" "tt_input s1 = map IByte ?line" "\<not> tt_output_stopped s1" "\<not> tt_literal_next s1"
    "\<not> tt_interrupted s1" "\<forall>b\<in>set ?line. \<not> is_delimiter (IByte b) t" using s1(2) by (auto simp: typing_def letter_def)
  have len: "length ?line < cap" "length ?line < INPUT_CAPACITY" using edit_line_length [of t "[]" keys] assms(11,12) by auto
  define s2 where "s2 = line_byte t 10 s1"
  have "process_input_byte 10 (s1, {}, False) = (s2, {}, False)"
    using passes_step [of s1 10] T newline(1) assms(3) by (simp add: s2_def)
  then have run: "fold process_input_byte (keys @ [10]) (s, {}, False) = (s2, {}, False)" using s1(1) by simp
  have nl: "is_delimiter (IByte 10) t" by (simp add: is_delimiter_def)
  have plain: "s2 = plain_byte t 10 s1" using newline(2-) by (simp add: s2_def line_byte_def)
  have "enqueue (IByte 10) s1 = (push_input (IByte 10) s1)\<lparr>tt_canonical_ready := Suc (length ?line)\<rparr>"
    using T len(2) nl by (simp add: enqueue_def Let_def push_input_def)
  then have s2: "tt_input s2 = map IByte ?line @ [IByte 10]" "tt_canonical_ready s2 = Suc (length ?line)" "tt_termios s2 = t"
    "\<not> tt_interrupted s2" using T by (simp_all add: plain plain_byte_def Let_def push_input_def)
  have "\<exists>s'. canonical_attempt cap nonblocking s2 = (Done (Inr (?line @ item_list (IByte 10))), s') \<and> (tt_input s' = [] \<or>
      tt_input s' = tl [] \<and> [] \<noteq> ([] :: input_item list) \<and> hd [] = IEof \<and> length (?line @ item_list (IByte 10)) = cap \<and>
      Suc (length ?line) < tt_canonical_ready s2)"
    by (rule canonical_line) (use s2 T nl len in auto)
  then show ?thesis using run by (auto simp: item_list_def)
qed

definition demo_tty :: tty where
  "demo_tty = the (tty_new 9600)"

lemma demo_tty_fields:
  "tt_input demo_tty = []" "tt_canonical_ready demo_tty = 0" "\<not> tt_literal_next demo_tty" "\<not> tt_output_stopped demo_tty"
  "\<not> tt_interrupted demo_tty" "tt_echo demo_tty = []" "tt_input_bytes demo_tty = 0"
  "t_control (tt_termios demo_tty) = t_control termios_default" "input_flags (tt_termios demo_tty) = 0x500"
  "local_flags (tt_termios demo_tty) = 0x8a3b" "has_control (tt_termios demo_tty) CREAD"
  by code_simp+

lemma demo_flags:
  "has_local (tt_termios demo_tty) f \<longleftrightarrow> f \<in> {ISIG, ICANON, ECHO, ECHOE, ECHOK, ECHOCTL, ECHOKE, IEXTEN}"
  "has_in (tt_termios demo_tty) g \<longleftrightarrow> g \<in> {ICRNL, IXON}"
  by (cases f; simp add: has_local_def demo_tty_fields) (cases g; simp add: has_in_def demo_tty_fields)

lemma default_control: "t_control termios_default =
    [3, 28, 0x7f, 21, 4, 0, 1, 0, 17, 19, 26, 0, 18, 15, 23, 22, 0, 0, 0, 0, 0, 0, 0, 0, 0, 0, 0, 0, 0, 0, 0, 0]"
  by code_simp

lemma demo_control: "control_at (tt_termios demo_tty) c = t_control termios_default ! control_index c"
  by (simp add: control_at_def demo_tty_fields)

theorem tty_line_typed_witness:
  "\<exists>s' s''. fold process_input_byte ([97, 98, 0x7f, 99] @ [10]) (demo_tty, {}, False) = (s', {}, False) \<and>
    canonical_attempt 100 True s' = (Done (Inr [97, 99, 10]), s'') \<and> tt_input s'' = []"
proof -
  let ?t = "tt_termios demo_tty"
  note keys = control_matches_def demo_control default_control
  have "typing ?t [] demo_tty" by (simp add: typing_def demo_tty_fields)
  moreover have "passes ?t b" if "b \<in> {97, 98, 99, 0x7f, 10}" for b
    using that by (auto simp: passes_def map_byte_def signal_of_def demo_flags keys)
  moreover have "letter ?t b" if "b \<in> {97, 98, 99}" for b
    using that calculation(2) [of b] by (auto simp: letter_def is_delimiter_def demo_flags keys)
  moreover have "control_matches ?t VERASE 0x7f" by (simp add: keys)
  moreover have "edit_line ?t [] [97, 98, 0x7f, 99] = [97, 99]" by (simp add: keys)
  ultimately show ?thesis
    using tty_line_typed [of ?t demo_tty "[97, 98, 0x7f, 99]" 100 True]
    by (simp add: demo_flags demo_tty_fields keystroke_def keys INPUT_CAPACITY_def)
qed

section \<open>Completed lines\<close>

lemma last_delimiter_le: "last_delimiter t is \<le> length is"
  by (induction "is") (auto simp: Let_def)

lemma last_delimiter_free: "(\<forall>i\<in>set gone. \<not> is_delimiter i t) \<Longrightarrow> last_delimiter t (is @ gone) = last_delimiter t is"
proof -
  assume free: "\<forall>i\<in>set gone. \<not> is_delimiter i t"
  then have "last_delimiter t gone = 0" by (induction gone) (auto simp: Let_def)
  then show ?thesis by (induction "is") (auto simp: Let_def)
qed

definition replaces_end :: "termios \<Rightarrow> input_item list \<Rightarrow> input_item list \<Rightarrow> bool" where
  \<comment> \<open>the queue was full and ended with a completed line; its delimiter became another one\<close>
  "replaces_end t input input' \<longleftrightarrow> has_local t ICANON \<and> INPUT_CAPACITY \<le> length input \<and> last_delimiter t input = length input \<and>
     (\<exists>i. is_delimiter i t \<and> input' = butlast input @ [i])"

definition keeps_lines :: "termios \<Rightarrow> input_item list \<Rightarrow> input_item list \<Rightarrow> bool" where
  "keeps_lines t input input' \<longleftrightarrow>
     take (last_delimiter t input) input' = take (last_delimiter t input) input \<or> replaces_end t input input'"

lemma keeps_lines_refl [simp]: "keeps_lines t input input" "keeps_lines t input (input @ extra)"
  using last_delimiter_le [of t input] by (simp_all add: keeps_lines_def)

lemma keeps_lines_erases: "erases t input n input' \<Longrightarrow> keeps_lines t input input'"
  using last_delimiter_free last_delimiter_le by (fastforce simp: erases_def keeps_lines_def)

lemma enqueue_keeps:
  assumes "tt_termios s = t"
  shows "keeps_lines t (tt_input s) (tt_input (enqueue i s))"
proof (cases "INPUT_CAPACITY \<le> length (tt_input s) \<and> is_delimiter i t \<and> has_local t ICANON")
  case True
  let ?in = "tt_input s"
  have input: "tt_input (enqueue i s) = butlast ?in @ [i]" using True assms by (simp add: enqueue_def Let_def push_input_def)
  show ?thesis
  proof (cases "last_delimiter t ?in = length ?in")
    case whole: True
    then have "replaces_end t ?in (butlast ?in @ [i])" using True by (auto simp: replaces_end_def)
    then show ?thesis using input by (simp add: keeps_lines_def)
  next
    case False
    then have "last_delimiter t ?in < length ?in" using last_delimiter_le [of t ?in] by simp
    then show ?thesis by (simp add: input keeps_lines_def take_butlast)
  qed
next
  case False
  then show ?thesis using assms by (auto simp: enqueue_def Let_def push_input_def)
qed

lemma erased_keeps:
  "erases t (tt_input s) n input' \<Longrightarrow> echoes f \<Longrightarrow>
    keeps_lines t (tt_input s) (tt_input (f (s\<lparr>tt_input := input', tt_input_bytes := m\<rparr>)))"
  by (simp add: echo_fields keeps_lines_erases)

lemma line_byte_keeps:
  assumes "tt_termios s = t"
  shows "keeps_lines t (tt_input s) (tt_input (line_byte t b s))"
proof -
  have "keeps_lines t (tt_input s) (tt_input (erase_key t b s))"
    by (rule erase_key_form [of t s b]) (erule ssubst, rule erased_keeps)
  moreover have "keeps_lines t (tt_input s) (tt_input (kill_key t s))"
    by (rule kill_key_form [of t s]) (erule ssubst, rule erased_keeps)
  moreover have "keeps_lines t (tt_input s) (tt_input (word_erase_key t s))"
    by (rule word_erase_key_form [of t s]) (erule ssubst, rule erased_keeps)
  moreover have "keeps_lines t (tt_input s) (tt_input (plain_byte t b s))" using enqueue_keeps [OF assms]
    by (simp add: plain_byte_def Let_def)
  ultimately show ?thesis using enqueue_keeps [OF assms] by (simp add: line_byte_def reprint_key_def)
qed

lemma flow_control_fields:
  "flow_control t b s = (used, s') \<Longrightarrow> tt_input s' = tt_input s \<and> tt_termios s' = tt_termios s \<and> tt_literal_next s' = tt_literal_next s"
  by (auto simp: flow_control_def split: if_splits)

text \<open>
  C36. Editing never reaches back into a completed line: no input byte that raises no signal,
  erase, kill and word-erase characters included, changes what the queue holds up to the last
  delimiter, with one exception. When the queue is full and its last item is itself a delimiter,
  a newline or an end-of-file character that is typed in canonical mode takes the place of that
  delimiter; everything before it is kept.
\<close>

theorem tty_editing_keeps_lines:
  assumes "process_input_byte b (s, signals, flush) = (s', signals', flush')" "t = tt_termios s"
    and "\<And>c. map_byte t b = Some c \<Longrightarrow> signal_of t c = None"
  shows "take (last_delimiter t (tt_input s)) (tt_input s') = take (last_delimiter t (tt_input s)) (tt_input s) \<or>
    has_local t ICANON \<and> INPUT_CAPACITY \<le> length (tt_input s) \<and> last_delimiter t (tt_input s) = length (tt_input s) \<and>
      (\<exists>i. is_delimiter i t \<and> tt_input s' = butlast (tt_input s) @ [i])"
proof (cases "has_control t CREAD \<and> map_byte t b \<noteq> None")
  case True
  obtain c where c: "map_byte t b = Some c" "signal_of t c = None" using True assms(3) by auto
  obtain used s1 where f: "flow_control t c s = (used, s1)" by fastforce
  then have s1: "tt_input s1 = tt_input s" "tt_termios s1 = t" using flow_control_fields assms(2) by simp_all
  have "keeps_lines t (tt_input s) (tt_input (line_byte t c s1))" using line_byte_keeps [of s1 t c] s1 by simp
  moreover have "keeps_lines t (tt_input s) (tt_input (enqueue (IByte c) (s1\<lparr>tt_literal_next := False\<rparr>)))"
    using enqueue_keeps [of "s1\<lparr>tt_literal_next := False\<rparr>" t] s1 by simp
  moreover have "tt_input (snd (discard_output t c s1)) = tt_input s" using s1 by (simp add: discard_output_def Let_def)
  ultimately have "keeps_lines t (tt_input s) (tt_input s')"
    using assms(1,2) True c f s1
    by (simp add: process_input_byte_def Let_def split: prod.splits if_splits) (auto split: if_splits)
  then show ?thesis by (simp add: keeps_lines_def replaces_end_def)
next
  case False
  then have "s' = s" using assms(1,2) by (auto simp: process_input_byte_def Let_def split: if_splits)
  then show ?thesis by simp
qed

theorem tty_editing_keeps_lines_witness:
  "let s = demo_tty\<lparr>tt_input := [IByte 97, IByte 10, IByte 98]\<rparr> in
   take 2 (tt_input (fst (process_input_byte 0x7f (s, {}, False)))) = [IByte 97, IByte 10] \<and>
   tt_input (fst (process_input_byte 0x7f (s, {}, False))) \<noteq> tt_input s"
proof -
  define s where "s = demo_tty\<lparr>tt_input := [IByte 97, IByte 10, IByte 98]\<rparr>"
  note keys = control_matches_def demo_control default_control
  obtain s' sg fl where r: "process_input_byte 0x7f (s, {}, False) = (s', sg, fl)" using prod_cases3 by blast
  have t: "tt_termios s = tt_termios demo_tty" "tt_input s = [IByte 97, IByte 10, IByte 98]" by (simp_all add: s_def)
  have m: "map_byte (tt_termios demo_tty) 0x7f = Some 0x7f" by (simp add: map_byte_def demo_flags)
  have l: "last_delimiter (tt_termios demo_tty) [IByte 97, IByte 10, IByte 98] = 2"
    by (simp add: is_delimiter_def demo_control default_control demo_flags)
  have "take 2 (tt_input s') = [IByte 97, IByte 10]"
    using tty_editing_keeps_lines [OF r] t m l
    by (simp add: INPUT_CAPACITY_def signal_of_def keys)
  moreover have "tt_input s' = [IByte 97, IByte 10]"
  proof -
    have p: "passes (tt_termios s) 0x7f"
      by (auto simp: passes_def t map_byte_def signal_of_def demo_flags keys)
    have "s' = line_byte (tt_termios s) 0x7f s"
      using passes_step [of s "0x7f" "{}" False] p r by (simp add: t demo_tty_fields s_def)
    moreover have "erase_last_character [IByte 97, IByte 10, IByte 98] (tt_termios demo_tty) = (1, 1, [IByte 97, IByte 10])"
      by (simp add: erase_last_character_def is_delimiter_def demo_control default_control demo_flags is_control_def)
    ultimately show ?thesis by (simp add: line_byte_def t demo_flags keys erase_key_def Let_def)
  qed
  ultimately show ?thesis using r t by (simp add: Let_def s_def [symmetric])
qed

lemma tty_delimiter_replaced:
  \<comment> \<open>the end-of-file character on a full queue that ends with a newline: the line loses its newline\<close>
  assumes "length (tt_input s) = INPUT_CAPACITY" "tt_input s = line @ [IByte 10]" "has_local (tt_termios s) ICANON"
  shows "tt_input (enqueue IEof s) = line @ [IEof]"
  using assms by (simp add: enqueue_def Let_def push_input_def is_delimiter_def)

section \<open>Raw mode\<close>

lemma raw_flags:
  assumes "raw_mode s"
  shows "has_control (tt_termios s) CREAD" "\<not> tt_literal_next s"
    and "f \<in> {ISTRIP, INLCR, IGNCR, ICRNL, IXON} \<Longrightarrow> \<not> has_in (tt_termios s) f"
    and "g \<in> {ISIG, ICANON, ECHO, ECHONL, IEXTEN} \<Longrightarrow> \<not> has_local (tt_termios s) g"
proof -
  have z: "x AND (a OR b) = 0 \<longleftrightarrow> x AND a = 0 \<and> x AND b = 0" for x a b :: u32
    by (simp only: bit.conj_disj_distrib or_eq_0_iff)
  show "has_control (tt_termios s) CREAD" "\<not> tt_literal_next s" using assms by (simp_all add: raw_mode_def Let_def)
  show "f \<in> {ISTRIP, INLCR, IGNCR, ICRNL, IXON} \<Longrightarrow> \<not> has_in (tt_termios s) f"
    using assms unfolding raw_mode_def Let_def has_in_def z by blast
  show "g \<in> {ISIG, ICANON, ECHO, ECHONL, IEXTEN} \<Longrightarrow> \<not> has_local (tt_termios s) g"
    using assms unfolding raw_mode_def Let_def has_local_def z by blast
qed

lemma raw_step:
  assumes "raw_mode s"
  shows "process_input_byte b (s, signals, flush) = (enqueue (IByte b) s, signals, flush)"
proof -
  note R = raw_flags [OF assms]
  have "map_byte (tt_termios s) b = Some b" using R(3) by (simp add: map_byte_def)
  moreover have "flow_control (tt_termios s) b s = (False, s)" using R(3) by (simp add: flow_control_def)
  moreover have "signal_of (tt_termios s) b = None" using R(4) by (simp add: signal_of_def)
  moreover have "line_byte (tt_termios s) b s = enqueue (IByte b) s" using R(4) by (simp add: line_byte_def plain_byte_def)
  ultimately show ?thesis using R by (simp add: process_input_byte_def Let_def)
qed

definition raw_queue :: "input_item list \<Rightarrow> tty \<Rightarrow> tty" where
  \<comment> \<open>the state with a longer queue, all of it ready\<close>
  "raw_queue is s = s\<lparr>tt_input := is, tt_input_bytes := bytes_in is, tt_canonical_ready := length is\<rparr>"

lemma raw_fold:
  assumes "raw_mode s" "tt_input_bytes s = bytes_in (tt_input s)" "tt_canonical_ready s = length (tt_input s)"
    "length (tt_input s) \<le> INPUT_CAPACITY" "\<not> has_in (tt_termios s) IMAXBEL \<or> length (tt_input s) + length bs \<le> INPUT_CAPACITY"
  shows "fold process_input_byte bs (s, signals, flush) =
    (raw_queue (tt_input s @ map IByte (take (INPUT_CAPACITY - length (tt_input s)) bs)) s, signals, flush)"
  using assms
proof (induction bs arbitrary: s)
  case Nil
  then show ?case by (simp add: raw_queue_def)
next
  case (Cons b bs)
  note R = raw_flags [OF Cons.prems(1)]
  show ?case
  proof (cases "length (tt_input s) < INPUT_CAPACITY")
    case True
    define s1 where "s1 = enqueue (IByte b) s"
    have s1: "s1 = raw_queue (tt_input s @ [IByte b]) s"
      using True R(4) Cons.prems(2) by (simp add: s1_def enqueue_def Let_def push_input_def raw_queue_def)
    have "raw_mode s1" using Cons.prems(1) by (simp add: s1 raw_queue_def raw_mode_def)
    then have "fold process_input_byte bs (s1, signals, flush) =
        (raw_queue (tt_input s1 @ map IByte (take (INPUT_CAPACITY - length (tt_input s1)) bs)) s1, signals, flush)"
      using Cons.prems(5) True by (intro Cons.IH) (auto simp: s1 raw_queue_def)
    moreover have "INPUT_CAPACITY - length (tt_input s) = Suc (INPUT_CAPACITY - Suc (length (tt_input s)))" using True by simp
    ultimately show ?thesis using raw_step [OF Cons.prems(1), of b signals flush]
      by (simp add: s1_def [symmetric]) (simp add: s1 raw_queue_def)
  next
    case False
    then have "enqueue (IByte b) s = s" using Cons.prems(5) R(4) by (auto simp: enqueue_def Let_def)
    then show ?thesis using raw_step [OF Cons.prems(1), of b signals flush] Cons False by simp
  qed
qed

text \<open>
  C37. The block transfer of raw mode is an optimisation: in the settings under which it is used
  it never overflows the queue, and it leaves the terminal as processing the bytes one by one
  would, without raising a signal or flushing output. The only difference is the event that wakes
  readers, which the callers set in both cases. Excepted are terminals that ring the bell on a full
  queue: the block transfer drops the excess bytes silently.
\<close>

theorem tty_raw_equivalence:
  assumes "raw_mode s" "tty_inv s" "tt_canonical_ready s = length (tt_input s)"
    and "\<not> has_in (tt_termios s) IMAXBEL \<or> length (tt_input s) + length bs \<le> INPUT_CAPACITY"
  shows "\<exists>s'. accept_raw bs s = Some s' \<and> tty_inv s' \<and>
    fold process_input_byte bs (s, signals, flush) = (s'\<lparr>tt_input_ready := tt_input_ready s\<rparr>, signals, flush)"
proof -
  let ?n = "INPUT_CAPACITY - length (tt_input s)"
  have len: "length (tt_input s) \<le> INPUT_CAPACITY" and b: "tt_input_bytes s = bytes_in (tt_input s)"
    and e: "length (tt_echo s) \<le> ECHO_CAPACITY" using assms(2) by (simp_all add: tty_inv_def)
  define s' where "s' = (let s1 = raw_queue (tt_input s @ map IByte (take ?n bs)) s in
    if min (length bs) ?n \<noteq> 0 then s1\<lparr>tt_input_ready := True\<rparr> else s1)"
  have "accept_raw bs s = Some s'"
    using len b by (auto simp: accept_raw_def s'_def raw_queue_def Let_def min_def)
  moreover have "tty_inv s'" using len e by (auto simp: s'_def Let_def raw_queue_def tty_inv_def min_def)
  moreover have "s'\<lparr>tt_input_ready := tt_input_ready s\<rparr> = raw_queue (tt_input s @ map IByte (take ?n bs)) s"
    by (simp add: s'_def Let_def raw_queue_def)
  ultimately show ?thesis using raw_fold [OF assms(1) b assms(3) len assms(4)] by simp
qed

theorem tty_raw_equivalence_witness:
  "let s = demo_tty\<lparr>tt_termios := (tt_termios demo_tty)\<lparr>input_flags := 0, local_flags := 0\<rparr>\<rparr> in
   \<exists>s'. accept_raw [3, 10] s = Some s' \<and> tt_input s' = [IByte 3, IByte 10] \<and>
     fold process_input_byte [3, 10] (s, {}, False) = (s'\<lparr>tt_input_ready := tt_input_ready s\<rparr>, {}, False)"
proof -
  define s where "s = demo_tty\<lparr>tt_termios := (tt_termios demo_tty)\<lparr>input_flags := 0, local_flags := 0\<rparr>\<rparr>"
  have "raw_mode s" using demo_tty_fields(3,11) by (simp add: raw_mode_def s_def Let_def has_control_def)
  moreover have "tty_inv s" "tt_canonical_ready s = length (tt_input s)" by (simp_all add: s_def tty_inv_def demo_tty_fields)
  moreover have "\<not> has_in (tt_termios s) IMAXBEL" by (simp add: s_def has_in_def)
  ultimately obtain s' where "accept_raw [3, 10] s = Some s'" "fold process_input_byte [3, 10] (s, {}, False) =
      (s'\<lparr>tt_input_ready := tt_input_ready s\<rparr>, {}, False)" using tty_raw_equivalence [of s "[3, 10]" "{}" False] by auto
  moreover have "tt_input s' = [IByte 3, IByte 10]" using calculation(1)
    by (auto simp: accept_raw_def Let_def s_def demo_tty_fields INPUT_CAPACITY_def)
  ultimately show ?thesis by (simp add: Let_def s_def [symmetric])
qed

end
