(* ===== verification/Tty_Output.thy ===== *)
theory Tty_Output
  imports Tty_Input
begin

text \<open>
  Correctness of the output side of the line discipline, of its settings, and of whole runs of a
  terminal: batched writes send exactly the transformed bytes and account for them, the column
  follows the device, settings survive the way through user memory, and no run that stays below
  the range of the column panics. The last part exhibits an end-of-file condition that nobody
  typed.
\<close>

section \<open>Columns\<close>

lemma column_step:
  assumes "c + 8 < u64_limit"
  shows "\<exists>c'. update_output_column c b = Some c' \<and> c' \<le> c + 8"
  using assms by (auto simp: update_output_column_def saturating_add_def checked_add_def)

lemma columns_step:
  "c + 8 * length bs < u64_limit \<Longrightarrow> \<exists>c'. update_columns c bs = Some c' \<and> c' \<le> c + 8 * length bs"
proof (induction bs arbitrary: c)
  case (Cons b bs)
  have "c + 8 < u64_limit" using Cons.prems by simp
  then obtain d where d: "update_output_column c b = Some d" "d \<le> c + 8" using column_step by blast
  then have "d + 8 * length bs < u64_limit" using Cons.prems by simp
  then obtain e where "update_columns d bs = Some e" "e \<le> d + 8 * length bs" using Cons.IH by blast
  then show ?case using d by auto
qed simp

lemma echo_write_some: "echo_write cb nonblocking bs b = (Some n, b') \<Longrightarrow> bs \<noteq> [] \<Longrightarrow> 0 < n \<and> n \<le> length bs"
proof (induction cb nonblocking bs b rule: echo_write.induct)
  case (1 cb nonblocking bs b)
  show ?case
  proof (cases "cb_write cb bs nonblocking b")
    case (Pair r b1)
    show ?thesis
    proof (cases r)
      case (Inl e)
      show ?thesis
      proof (cases "e = WouldBlock \<and> nonblocking \<and> 1 < length bs")
        case True
        then have "echo_write cb nonblocking (take (length bs div 2) bs) b1 = (Some n, b')"
          using 1(2) Pair Inl by (subst (asm) echo_write.simps) simp
        moreover have "take (length bs div 2) bs \<noteq> []" using True by auto
        ultimately show ?thesis using 1(1) [OF Pair [symmetric] Inl True] by auto
      next
        case False
        then show ?thesis using 1(2) Pair Inl by (subst (asm) echo_write.simps) (auto split: if_splits)
      qed
    next
      case (Inr u)
      then show ?thesis using 1(2,3) Pair by (subst (asm) echo_write.simps) auto
    qed
  qed
qed

lemma flush_echo_ok:
  "tty_inv s \<Longrightarrow> tt_column s + 8 * length (tt_echo s) < u64_limit \<Longrightarrow>
    \<exists>s' b'. flush_echo cb nonblocking (s, b) = Some (s', b') \<and> tty_inv s' \<and> tt_column s' \<le> tt_column s + 8 * length (tt_echo s)"
proof (induction "length (tt_echo s)" arbitrary: s b rule: less_induct)
  case less
  let ?batch = "take OUTPUT_BATCH_SIZE (tt_echo s)"
  obtain r b1 where w: "echo_write cb nonblocking ?batch b = (r, b1)" by fastforce
  show ?case
  proof (cases "tt_echo s = [] \<or> r = None")
    case True
    then show ?thesis using less.prems w by (subst flush_echo.simps) (auto split: option.splits)
  next
    case False
    then obtain n where n: "r = Some n" and ne: "tt_echo s \<noteq> []" by blast
    have nn: "0 < n" "n \<le> length ?batch"
      using echo_write_some [OF w [unfolded n]] ne by (auto simp: OUTPUT_BATCH_SIZE_def)
    then have ln: "n \<le> length (tt_echo s)" by simp
    have "tt_column s + 8 * length (take n ?batch) < u64_limit" using less.prems(2) nn ln by auto
    then obtain c where c: "update_columns (tt_column s) (take n ?batch) = Some c" "c \<le> tt_column s + 8 * length (take n ?batch)"
      using columns_step by blast
    define s1 where "s1 = s\<lparr>tt_column := c, tt_echo := drop n (tt_echo s)\<rparr>"
    have "length (tt_echo s1) < length (tt_echo s)" "tty_inv s1" "tt_column s1 + 8 * length (tt_echo s1) \<le> tt_column s + 8 * length (tt_echo s)"
      using less.prems nn ln c by (auto simp: s1_def tty_inv_def min_def split: if_splits)
    then obtain s' b' where "flush_echo cb nonblocking (s1, b1) = Some (s', b')" "tty_inv s'" "tt_column s' \<le> tt_column s + 8 * length (tt_echo s)"
      using less.hyps [of s1 b1] less.prems(2) by fastforce
    then show ?thesis using w n nn ne c by (subst flush_echo.simps) (auto simp: s1_def)
  qed
qed

lemma flush_echo_empty: "tt_echo s = [] \<Longrightarrow> flush_echo cb nonblocking (s, b) = Some (s, b)"
  by (subst flush_echo.simps) simp

section \<open>Writing\<close>

fun transform_all :: "termios \<Rightarrow> nat \<Rightarrow> u8 list \<Rightarrow> (u8 list \<times> nat) panics" where
  \<comment> \<open>the reference: the transformation of all bytes from a column, and the column after them\<close>
  "transform_all t c [] = Some ([], c)"
| "transform_all t c (x # xs) = Option.bind (transform_byte t c x) (\<lambda>(bs, c').
     map_option (\<lambda>(out, d). (bs @ out, d)) (transform_all t c' xs))"

lemma transform_byte_ok:
  assumes "c + 8 < u64_limit"
  shows "\<exists>bs c'. transform_byte t c b = Some (bs, c') \<and> c' \<le> c + 8 \<and> length bs \<le> 8"
proof -
  define d where "d = (if has_out t OLCUC then to_ascii_uppercase b else b)"
  have "c + (8 - c mod 8) < u64_limit" "saturating_add c 1 \<le> c + 8" "c - 1 \<le> c + 8" using assms by (simp_all add: saturating_add_def)
  then show ?thesis unfolding transform_byte_def Let_def d_def [symmetric] checked_add_def by (simp split: if_split)
qed

lemma transform_all_append:
  "transform_all t c (xs @ ys) = Option.bind (transform_all t c xs) (\<lambda>(a, c').
     map_option (\<lambda>(out, d). (a @ out, d)) (transform_all t c' ys))"
proof (induction t c xs rule: transform_all.induct)
  case (1 t c)
  show ?case by (cases "transform_all t c ys") auto
next
  case (2 t c x xs)
  show ?case
  proof (cases "transform_byte t c x")
    case (Some p)
    obtain bs c' where p: "p = (bs, c')" by fastforce
    show ?thesis
    proof (cases "transform_all t c' xs")
      case None
      then show ?thesis using 2 [OF Some p [symmetric]] Some p by simp
    next
      case (Some q)
      then show ?thesis using 2 [OF \<open>transform_byte t c x = Some p\<close> p [symmetric]] \<open>transform_byte t c x = Some p\<close> p
        by (cases "transform_all t (snd q) ys") (simp_all add: case_prod_beta)
    qed
  qed simp
qed

definition exact_backend :: "'b console \<Rightarrow> ('b \<Rightarrow> u8 list) \<Rightarrow> bool" where
  \<comment> \<open>what the interface asks of a backend: a write takes every byte or none\<close>
  "exact_backend cb sent \<longleftrightarrow> (\<forall>bs nb b u b'. cb_write cb bs nb b = (Inr u, b') \<longrightarrow> sent b' = sent b @ bs) \<and>
     (\<forall>bs nb b e b'. cb_write cb bs nb b = (Inl e, b') \<longrightarrow> sent b' = sent b)"

definition batch_ok :: "termios \<Rightarrow> nat \<Rightarrow> u8 list \<Rightarrow> u8 list \<Rightarrow> out_batch \<Rightarrow> u8 list \<Rightarrow> bool" where
  \<comment> \<open>what the loop has sent and what it still holds back, after a part of the input\<close>
  "batch_ok t c0 sent0 pre ob now \<longleftrightarrow> ob_consumed ob \<le> length pre \<and> ob_buffered ob = length pre - ob_consumed ob \<and>
     (\<exists>out. transform_all t c0 (take (ob_consumed ob) pre) = Some (out, ob_sent ob) \<and> now = sent0 @ out) \<and>
     transform_all t (ob_sent ob) (drop (ob_consumed ob) pre) = Some (ob_output ob, ob_current ob)"

definition write_exact :: "termios \<Rightarrow> nat \<Rightarrow> u8 list \<Rightarrow> u8 list \<Rightarrow> fs_error + nat \<Rightarrow> nat \<Rightarrow> u8 list \<Rightarrow> bool" where
  \<comment> \<open>a result that accounts for what was sent\<close>
  "write_exact t c0 sent0 input r column now \<longleftrightarrow>
     (case r of Inl e \<Rightarrow> column = c0 \<and> now = sent0
      | Inr n \<Rightarrow> n \<le> length input \<and> (\<exists>out. transform_all t c0 (take n input) = Some (out, column) \<and> now = sent0 @ out))"

lemma batch_stop:
  assumes "batch_ok t c0 sent0 pre ob now"
  shows "write_exact t c0 sent0 (pre @ xs) (if ob_consumed ob = 0 then Inl e else Inr (ob_consumed ob)) (ob_sent ob) now"
  using assms by (auto simp: batch_ok_def write_exact_def)

lemma batch_all:
  assumes "batch_ok t c0 sent0 pre ob now"
  shows "\<exists>out. transform_all t c0 pre = Some (out, ob_current ob) \<and> now @ ob_output ob = sent0 @ out"
proof -
  obtain out where o: "transform_all t c0 (take (ob_consumed ob) pre) = Some (out, ob_sent ob)" "now = sent0 @ out"
    using assms by (auto simp: batch_ok_def)
  have "transform_all t c0 (take (ob_consumed ob) pre @ drop (ob_consumed ob) pre) = Some (out @ ob_output ob, ob_current ob)"
    using o assms by (subst transform_all_append) (simp add: batch_ok_def)
  then show ?thesis using o by simp
qed

lemma write_loop_exact:
  assumes "exact_backend cb sent" "batch_ok t c0 sent0 pre ob (sent b)" "write_loop cb nonblocking t xs ob b = Some (r, column, b')"
  shows "write_exact t c0 sent0 (pre @ xs) r column (sent b')"
  using assms(2,3)
proof (induction xs arbitrary: pre ob b)
  case Nil
  note ok = Nil.prems(1)
  obtain out where out: "transform_all t c0 pre = Some (out, ob_current ob)" "sent b @ ob_output ob = sent0 @ out"
    using batch_all [OF ok] by blast
  have n: "ob_consumed ob + ob_buffered ob = length pre" using ok by (simp add: batch_ok_def)
  obtain q b1 where w: "cb_write cb (ob_output ob) nonblocking b = (q, b1)" by fastforce
  show ?case
  proof (cases "ob_output ob = []")
    case True
    then show ?thesis using Nil.prems(2) out n by (auto simp: write_exact_def)
  next
    case False
    show ?thesis
    proof (cases q)
      case (Inl e)
      then have "sent b1 = sent b" using assms(1) w unfolding exact_backend_def by blast
      then show ?thesis using batch_stop [OF ok, of "[]" e] False w Inl Nil.prems(2) by auto
    next
      case (Inr u)
      then have "sent b1 = sent b @ ob_output ob" using assms(1) w unfolding exact_backend_def by blast
      then show ?thesis using False w Inr Nil.prems(2) out n by (auto simp: write_exact_def)
    qed
  qed
next
  case (Cons x xs)
  note ok = Cons.prems(1)
  obtain bs c1 where tr: "transform_byte t (ob_current ob) x = Some (bs, c1)"
    using Cons.prems(2) by (cases "transform_byte t (ob_current ob) x") auto
  obtain q b1 where w: "cb_write cb (ob_output ob) nonblocking b = (q, b1)" by fastforce
  show ?case
  proof (cases "OUTPUT_BATCH_SIZE < length (ob_output ob) + length bs")
    case full: True
    show ?thesis
    proof (cases q)
      case (Inl e)
      then have "sent b1 = sent b" using assms(1) w unfolding exact_backend_def by blast
      then show ?thesis using batch_stop [OF ok, of "x # xs" e] full w Inl tr Cons.prems(2) by auto
    next
      case (Inr u)
      have s1: "sent b1 = sent b @ ob_output ob" using assms(1) w Inr unfolding exact_backend_def by blast
      let ?ob = "\<lparr>ob_output = bs, ob_buffered = 1, ob_consumed = ob_consumed ob + ob_buffered ob, ob_current = c1, ob_sent = ob_current ob\<rparr>"
      have n: "ob_consumed ob + ob_buffered ob = length pre" using ok by (simp add: batch_ok_def)
      have "batch_ok t c0 sent0 (pre @ [x]) ?ob (sent b1)"
        using batch_all [OF ok] n s1 tr by (auto simp: batch_ok_def)
      moreover have "write_loop cb nonblocking t xs ?ob b1 = Some (r, column, b')"
        using Cons.prems(2) full w Inr tr by simp
      ultimately show ?thesis using Cons.IH by fastforce
    qed
  next
    case False
    let ?ob = "ob\<lparr>ob_output := ob_output ob @ bs, ob_buffered := ob_buffered ob + 1, ob_current := c1\<rparr>"
    have "batch_ok t c0 sent0 (pre @ [x]) ?ob (sent b)"
      using ok tr by (auto simp: batch_ok_def transform_all_append)
    moreover have "write_loop cb nonblocking t xs ?ob b = Some (r, column, b')" using Cons.prems(2) False tr by simp
    ultimately show ?thesis using Cons.IH by fastforce
  qed
qed

definition always_writes :: "'b console \<Rightarrow> bool \<Rightarrow> bool" where
  "always_writes cb nonblocking \<longleftrightarrow> (\<forall>bs b. fst (cb_write cb bs nonblocking b) = Inr ())"

lemma write_loop_returns:
  "ob_current ob + 8 * length xs < u64_limit \<Longrightarrow> ob_sent ob \<le> c \<Longrightarrow> ob_current ob \<le> c \<Longrightarrow>
    \<exists>r column b'. write_loop cb nonblocking t xs ob b = Some (r, column, b') \<and> column \<le> c + 8 * length xs \<and>
      (always_writes cb nonblocking \<longrightarrow> r = Inr (ob_consumed ob + ob_buffered ob + length xs))"
proof (induction xs arbitrary: ob b c)
  case Nil
  obtain q b1 where "cb_write cb (ob_output ob) nonblocking b = (q, b1)" by fastforce
  moreover have "always_writes cb nonblocking \<Longrightarrow> q = Inr ()" using calculation unfolding always_writes_def by (metis fst_conv)
  ultimately show ?case using Nil by (cases q; cases "ob_output ob = []") auto
next
  case (Cons x xs)
  have "ob_current ob + 8 < u64_limit" using Cons.prems(1) by simp
  then obtain bs c1 where tr: "transform_byte t (ob_current ob) x = Some (bs, c1)" "c1 \<le> ob_current ob + 8"
    using transform_byte_ok by blast
  obtain q b1 where w: "cb_write cb (ob_output ob) nonblocking b = (q, b1)" by fastforce
  have c1: "c1 + 8 * length xs < u64_limit" using tr(2) Cons.prems(1) by simp
  show ?case
  proof (cases "OUTPUT_BATCH_SIZE < length (ob_output ob) + length bs")
    case True
    let ?ob = "\<lparr>ob_output = bs, ob_buffered = 1, ob_consumed = ob_consumed ob + ob_buffered ob, ob_current = c1, ob_sent = ob_current ob\<rparr>"
    show ?thesis
    proof (cases q)
      case (Inl e)
      have "\<not> always_writes cb nonblocking" using w Inl unfolding always_writes_def by (metis Inl_Inr_False fst_conv)
      then show ?thesis using True w Inl tr Cons.prems(2) by auto
    next
      case (Inr u)
      then show ?thesis using Cons.IH [of ?ob "c + 8" b1] c1 tr Cons.prems True w by auto
    qed
  next
    case False
    then show ?thesis
      using Cons.IH [of "ob\<lparr>ob_output := ob_output ob @ bs, ob_buffered := ob_buffered ob + 1, ob_current := c1\<rparr>" "c + 8" b] c1 tr Cons.prems by auto
  qed
qed

text \<open>
  C38. A write accounts exactly for what the device was sent. For every backend that takes the
  bytes of a write completely or not at all, a write to a terminal with output processing returns
  without panic; if it reports a number of bytes, the device has received precisely the
  transformation of that many leading bytes of the input, computed byte by byte from the current
  column, and the recorded column is the column after them; if it reports an error, the device has
  received nothing and the column is unchanged. If the backend never fails, all bytes are
  written. Batching is invisible.
\<close>

theorem tty_write_exact:
  assumes "exact_backend cb sent" "\<not> cb_hung_up cb b" "\<not> tt_hung_up s" "\<not> tt_output_stopped s"
    and "\<not> has_local (tt_termios s) FLUSHO" "transforms_output (tt_termios s)" "tt_echo s = []"
    and "tt_column s + 8 * length input < u64_limit"
  shows "\<exists>r s' b'. write_transformed cb False nonblocking input (s, b) = Some (Written r, s', b') \<and>
    (case r of Inl e \<Rightarrow> sent b' = sent b \<and> tt_column s' = tt_column s
     | Inr n \<Rightarrow> n \<le> length input \<and> (\<exists>out. transform_all (tt_termios s) (tt_column s) (take n input) = Some (out, tt_column s') \<and>
         sent b' = sent b @ out)) \<and>
    (always_writes cb nonblocking \<longrightarrow> r = Inr (length input))"
proof -
  let ?t = "tt_termios s" and ?c = "tt_column s"
  let ?ob = "\<lparr>ob_output = [], ob_buffered = 0, ob_consumed = 0, ob_current = ?c, ob_sent = ?c\<rparr>"
  obtain r column b' where w: "write_loop cb nonblocking ?t input ?ob b = Some (r, column, b')"
    and full: "always_writes cb nonblocking \<longrightarrow> r = Inr (length input)"
    using write_loop_returns [of ?ob input ?c cb nonblocking ?t b] assms(8) by auto
  have "batch_ok ?t ?c (sent b) [] ?ob (sent b)" by (simp add: batch_ok_def)
  then have x: "write_exact ?t ?c (sent b) input r column (sent b')" using write_loop_exact [OF assms(1) _ w, of ?c "sent b" "[]"] by simp
  have h: "snd (observe_hangup cb (s, b)) = s" using assms(2) by (simp add: observe_hangup_def)
  have "write_transformed cb False nonblocking input (s, b) = Some (Written r, s\<lparr>tt_column := column\<rparr>, b')"
    using assms(3-7) h w by (simp add: write_transformed_def Let_def flush_echo_empty)
  then show ?thesis using x full by (auto simp: write_exact_def split: sum.splits)
qed

definition tape :: "u8 list console" where
  \<comment> \<open>a device that records what it is sent\<close>
  "tape = \<lparr>cb_open = (\<lambda>b. (Inr (), b)), cb_close = (\<lambda>b. b), cb_read = (\<lambda>n b. (Inr [], b)), cb_write = (\<lambda>bs nb b. (Inr (), b @ bs)),
     cb_configure = (\<lambda>s b. (Inr (), b)), cb_flush = (\<lambda>b. (Inr (), b)), cb_flush_input = (\<lambda>b. (Inr (), b)),
     cb_flush_output = (\<lambda>b. (Inr (), b)), cb_send_break = (\<lambda>n b. (Inr (), b)), cb_hung_up = (\<lambda>b. False), cb_writable = (\<lambda>b. True),
     cb_queued_output = (\<lambda>b. 0), cb_reset_on_last_close = False\<rparr>"

lemma demo_output:
  "output_flags (tt_termios demo_tty) = output_flags termios_default" "tt_column demo_tty = 0" "\<not> tt_hung_up demo_tty"
  by code_simp+

lemma demo_out: "has_out (tt_termios demo_tty) f \<longleftrightarrow> f \<in> {OPOST, ONLCR}"
  by (cases f; simp add: has_out_def demo_output termios_default_def)

lemma demo_transforms: "transforms_output (tt_termios demo_tty)"
  by (simp add: transforms_output_def demo_out demo_output termios_default_def)

lemma demo_line: "transform_all (tt_termios demo_tty) 0 [97, 10] = Some ([97, 13, 10], 0)"
  by (simp add: transform_byte_def Let_def demo_out demo_flags saturating_add_def is_control_def)

theorem tty_write_exact_witness:
  "\<exists>s'. write_transformed tape False False [97, 10] (demo_tty, []) = Some (Written (Inr 2), s', [97, 13, 10]) \<and> tt_column s' = 0"
proof -
  have "exact_backend tape id" "always_writes tape False" by (auto simp: exact_backend_def always_writes_def tape_def)
  moreover have "\<not> cb_hung_up tape []" by (simp add: tape_def)
  moreover have "\<not> has_local (tt_termios demo_tty) FLUSHO" by (simp add: demo_flags)
  moreover have "tt_column demo_tty + 8 * length [97 :: u8, 10] < u64_limit" by (simp add: demo_output)
  ultimately obtain r s' b' where "write_transformed tape False False [97, 10] (demo_tty, []) = Some (Written r, s', b')" "r = Inr 2"
    "case r of Inl e \<Rightarrow> id b' = id [] \<and> tt_column s' = tt_column demo_tty
     | Inr n \<Rightarrow> n \<le> length [97 :: u8, 10] \<and> (\<exists>out. transform_all (tt_termios demo_tty) (tt_column demo_tty) (take n [97, 10]) = Some (out, tt_column s') \<and>
         id b' = id [] @ out)"
    using tty_write_exact [of tape id "[]" demo_tty "[97, 10]" False] demo_output demo_transforms demo_tty_fields(4,6) by auto
  then show ?thesis using demo_line by (auto simp: demo_output)
qed

section \<open>Settings in user memory\<close>

lemma word32_bytes [simp]: "word_of_nat (from_le_bytes (to_le_bytes 4 (unat w))) = w" for w :: u32
proof -
  have "unat w < 256 ^ 4" using unsigned_less [of w, where ?'a = nat] by simp
  then show ?thesis by (simp add: from_to_le_bytes)
qed

text \<open>
  C39. Terminal settings survive the way through user memory. Reading the settings into a buffer of
  the right size and decoding that buffer gives the settings back, for every record with its 32
  control characters; a buffer of any other size is refused both ways.
\<close>

theorem termios_roundtrip:
  assumes "length (t_control t) = 32"
  shows "(if length buf = TERMIOS_SIZE then \<exists>bytes. termios_encode t buf = Inr bytes \<and> length bytes = TERMIOS_SIZE \<and> termios_decode bytes = Inr t
    else termios_encode t buf = Inl InvalidArgument \<and> termios_decode buf = Inl InvalidArgument)"
  using assms by (auto simp: termios_encode_def termios_decode_def field_def TERMIOS_SIZE_def nth_append)

theorem termios_roundtrip_witness:
  "\<exists>bytes. termios_encode termios_default (replicate 60 0) = Inr bytes \<and> termios_decode bytes = Inr termios_default"
proof -
  have "length (t_control termios_default) = 32" by (simp add: default_control)
  then show ?thesis using termios_roundtrip [of termios_default "replicate 60 0"] by (auto simp: TERMIOS_SIZE_def)
qed

section \<open>A full queue\<close>

lemma edit_letters: "\<forall>b\<in>set keys. letter t b \<Longrightarrow> edit_line t line keys = line @ keys"
  by (induction keys arbitrary: line) (auto simp: letter_def)

lemma full_typed:
  assumes "typing t [] s" "has_local t ICANON" "has_control t CREAD" "\<forall>b\<in>set keys. letter t b" "length keys = INPUT_CAPACITY"
  shows "\<exists>s'. fold process_input_byte keys (s, {}, False) = (s', {}, False) \<and> typing t keys (s'\<lparr>tt_canonical_ready := 0\<rparr>) \<and>
    tt_canonical_ready s' = INPUT_CAPACITY"
proof -
  obtain ks k where keys: "keys = ks @ [k]" using assms(5) by (cases keys rule: rev_cases) (auto simp: INPUT_CAPACITY_def)
  have ks: "\<forall>b\<in>set ks. letter t b" "letter t k" using assms(4) keys by auto
  then have "\<forall>b\<in>set ks. keystroke t b" by (simp add: keystroke_def)
  then obtain s1 where s1: "fold process_input_byte ks (s, {}, False) = (s1, {}, False)" "typing t ks s1"
    using keys_typed [OF assms(1) _ assms(2,3)] edit_letters [OF ks(1), of "[]"] assms(5) keys by fastforce
  have "process_input_byte k (s1, {}, False) = (line_byte t k s1, {}, False)"
    using passes_step [of s1 k] s1(2) ks(2) assms(3) by (simp add: typing_def letter_def)
  moreover have "line_byte t k s1 = plain_byte t k s1" using ks(2) by (auto simp: line_byte_def letter_def)
  moreover have "enqueue (IByte k) s1 = (push_input (IByte k) s1)\<lparr>tt_canonical_ready := INPUT_CAPACITY\<rparr>"
    using s1(2) assms(5) keys by (auto simp: enqueue_def Let_def typing_def push_input_def)
  ultimately show ?thesis using s1 keys ks
    by (auto simp: plain_byte_def Let_def typing_def push_input_def)
qed

text \<open>
  C40. Deleting a line that filled the queue reads as end of file. When exactly the capacity of the
  queue is typed without a delimiter the line is made readable, and the kill character then
  empties the queue without taking that back: every following read returns zero bytes and leaves
  the terminal as it is, although nobody typed an end-of-file character.
\<close>

theorem tty_kill_full_line:
  assumes "typing t [] s" "has_local t ICANON" "has_control t CREAD" "\<forall>b\<in>set keys. letter t b" "length keys = INPUT_CAPACITY"
    and "passes t k" "control_matches t VKILL k" "\<not> control_matches t VERASE k" "0 < cap"
  shows "\<exists>s' s''. fold process_input_byte (keys @ [k]) (s, {}, False) = (s', {}, False) \<and> tt_input s' = [] \<and>
    canonical_attempt cap nonblocking s' = (Done (Inr []), s'') \<and> canonical_attempt cap nonblocking s'' = (Done (Inr []), s'')"
proof -
  obtain s1 where s1: "fold process_input_byte keys (s, {}, False) = (s1, {}, False)" "typing t keys (s1\<lparr>tt_canonical_ready := 0\<rparr>)"
    "tt_canonical_ready s1 = INPUT_CAPACITY" using full_typed [OF assms(1-5)] by blast
  have T: "tt_termios s1 = t" "tt_input s1 = map IByte keys" "\<not> tt_output_stopped s1" "\<not> tt_literal_next s1" "\<not> tt_interrupted s1"
    using s1(2) by (simp_all add: typing_def)
  have "process_input_byte k (s1, {}, False) = (line_byte t k s1, {}, False)"
    using passes_step [of s1 k] T assms(3,6) by simp
  moreover have "line_byte t k s1 = kill_key t s1" using assms(2,7,8) by (simp add: line_byte_def)
  moreover have "discard_current_line (map IByte keys) t = (length keys, [])"
    using discard_letters [of "rev (map IByte keys)" t] assms(4) by (simp add: discard_current_line_def letter_def)
  then have killed: "tt_input (kill_key t s1) = []" "tt_canonical_ready (kill_key t s1) = INPUT_CAPACITY" "\<not> tt_interrupted (kill_key t s1)"
    using T s1(3) by (auto simp: kill_key_def Let_def)
  have attempt: "canonical_attempt cap nonblocking x = (Done (Inr []), refresh_input_event x)"
    if "tt_input x = []" "tt_canonical_ready x = INPUT_CAPACITY" "\<not> tt_interrupted x" for x
  proof -
    obtain n where "cap = Suc n" using assms(9) by (cases cap) auto
    then show ?thesis using that by (simp add: canonical_attempt_def INPUT_CAPACITY_def pop_input_def)
  qed
  have "refresh_input_event (refresh_input_event x) = refresh_input_event x" "tt_interrupted (refresh_input_event x) = tt_interrupted x" for x
    by (simp_all add: refresh_input_event_def input_ready_def)
  then show ?thesis using attempt [OF killed] attempt [of "refresh_input_event (kill_key t s1)"] killed calculation s1(1)
    by simp
qed

theorem tty_kill_full_line_witness:
  "\<exists>s' s''. fold process_input_byte (replicate 4096 97 @ [21]) (demo_tty, {}, False) = (s', {}, False) \<and> tt_input s' = [] \<and>
    canonical_attempt 100 True s' = (Done (Inr []), s'') \<and> canonical_attempt 100 True s'' = (Done (Inr []), s'')"
proof -
  let ?t = "tt_termios demo_tty"
  note keys = control_matches_def demo_control default_control
  have p: "passes ?t b" if "b \<in> {97, 21}" for b
    using that by (auto simp: passes_def map_byte_def signal_of_def demo_flags keys)
  then have "letter ?t 97" by (auto simp: letter_def is_delimiter_def demo_flags keys)
  moreover have "typing ?t [] demo_tty" by (simp add: typing_def demo_tty_fields)
  ultimately show ?thesis using p
    by (intro tty_kill_full_line [of ?t]) (auto simp: demo_flags demo_tty_fields keys INPUT_CAPACITY_def)
qed

end
