(* ===== verification/Tty_Run.thy ===== *)
theory Tty_Run
  imports Tty_Output
begin

text \<open>
  Whole runs of a terminal device: any sequence of calls from its clients and of input from its
  backend keeps the queues within their capacities and the byte count exact, and no call panics
  as long as the output column cannot leave its range.
\<close>

section \<open>Calls\<close>

datatype tty_call =
    CallOpen | CallClose | CallPump bool | CallHangup | CallPoll bool u16 bool bool
  | CallLine nat bool | CallRaw nat nat nat bool "u8 list" | CallWrite bool bool "u8 list" | CallSync
  | CallIoctl bool "u8 list" ioctl_context nat nat "u8 list"

definition tty_do :: "'b console \<Rightarrow> u32 \<Rightarrow> tty_call \<Rightarrow> tty \<times> 'b \<Rightarrow> (tty \<times> 'b) panics" where
  \<comment> \<open>what a call leaves of the terminal and of the device\<close>
  "tty_do cb baud c x =
     (case c of
        CallOpen \<Rightarrow> Some (snd (tty_open cb x))
      | CallClose \<Rightarrow> tty_close cb baud x
      | CallPump nonblocking \<Rightarrow> map_option snd (pump_input cb nonblocking x)
      | CallHangup \<Rightarrow> Some (snd (observe_hangup cb x), snd x)
      | CallPoll worker events r w \<Rightarrow> map_option snd (tty_poll cb worker events r w x)
      | CallLine cap nonblocking \<Rightarrow> Some (snd (canonical_attempt cap nonblocking (fst x)), snd x)
      | CallRaw cap least timeout nonblocking got \<Rightarrow> Some (snd (snd (raw_attempt cap least timeout nonblocking got (fst x))), snd x)
      | CallWrite contended nonblocking input \<Rightarrow> map_option snd (write_transformed cb contended nonblocking input x)
      | CallSync \<Rightarrow> map_option snd (tty_sync cb x)
      | CallIoctl worker path ctx code value arg \<Rightarrow> map_option snd (tty_ioctl cb worker path ctx code value arg x))"

definition flush_cost :: nat where
  "flush_cost = 8 * ECHO_CAPACITY"

definition call_cost :: "tty_call \<Rightarrow> nat" where
  \<comment> \<open>how far a call may move the column\<close>
  "call_cost c = (case c of CallWrite contended nonblocking input \<Rightarrow> 8 * length input | _ \<Rightarrow> 0) + INPUT_CAPACITY * flush_cost"

inductive tty_reachable :: "'b console \<Rightarrow> u32 \<Rightarrow> nat \<Rightarrow> tty \<times> 'b \<Rightarrow> bool" for cb baud where
  created: "tty_new baud = Some s \<Longrightarrow> tty_reachable cb baud 0 (s, b)"
| called: "tty_reachable cb baud k x \<Longrightarrow> tty_do cb baud c x = Some y \<Longrightarrow> k + call_cost c < u64_limit \<Longrightarrow>
    tty_reachable cb baud (k + call_cost c) y"

section \<open>Every call\<close>

definition tty_ok :: "nat \<Rightarrow> tty \<Rightarrow> bool" where
  "tty_ok k s \<longleftrightarrow> tty_inv s \<and> tt_column s \<le> k"

definition sound :: "nat \<Rightarrow> (tty \<times> 'b) panics \<Rightarrow> bool" where
  "sound k r \<longleftrightarrow> (\<exists>s b. r = Some (s, b) \<and> tty_ok k s)"

lemma soundE: "sound k r \<Longrightarrow> (\<And>s b. r = Some (s, b) \<Longrightarrow> tty_ok k s \<Longrightarrow> P) \<Longrightarrow> P"
  by (auto simp: sound_def)

lemma sound_Some [simp]: "sound k (Some (s, b)) \<longleftrightarrow> tty_ok k s"
  by (auto simp: sound_def)

lemma sound_mono: "sound k r \<Longrightarrow> k \<le> k' \<Longrightarrow> sound k' r"
  by (auto simp: sound_def tty_ok_def)

lemma tty_ok_mono: "tty_ok k s \<Longrightarrow> k \<le> k' \<Longrightarrow> tty_ok k' s"
  by (auto simp: tty_ok_def)

lemma tty_ok_fields [simp]:
  "tty_ok k (s\<lparr>tt_output_stopped := a\<rparr>) = tty_ok k s" "tty_ok k (s\<lparr>tt_output_resumed := a\<rparr>) = tty_ok k s"
  "tty_ok k (s\<lparr>tt_literal_next := a\<rparr>) = tty_ok k s" "tty_ok k (s\<lparr>tt_termios := t\<rparr>) = tty_ok k s"
  "tty_ok k (s\<lparr>tt_interrupted := a\<rparr>) = tty_ok k s" "tty_ok k (s\<lparr>tt_input_ready := a\<rparr>) = tty_ok k s"
  "tty_ok k (s\<lparr>tt_sent := l\<rparr>) = tty_ok k s" "tty_ok k (s\<lparr>tt_opens := n\<rparr>) = tty_ok k s"
  "tty_ok k (s\<lparr>tt_hung_up := a\<rparr>) = tty_ok k s" "tty_ok k (s\<lparr>tt_exclusive := a\<rparr>) = tty_ok k s"
  "tty_ok k (s\<lparr>tt_session := g\<rparr>) = tty_ok k s" "tty_ok k (s\<lparr>tt_foreground_group := g\<rparr>) = tty_ok k s"
  "tty_ok k (s\<lparr>tt_winsize := w\<rparr>) = tty_ok k s" "tty_ok k (s\<lparr>tt_soft_carrier := a\<rparr>) = tty_ok k s"
  "tty_ok k (refresh_input_event s) = tty_ok k s" "tty_ok k (send_group g sig s) = tty_ok k s"
  by (simp_all add: tty_ok_def send_group_def)

lemma tty_ok_quiet: "tty_ok k s \<Longrightarrow> tty_ok k (s\<lparr>tt_echo := []\<rparr>)"
  by (simp add: tty_ok_def tty_inv_def)

lemma tty_ok_clear: "tty_ok k s \<Longrightarrow> tty_ok k (clear_input s)"
  using clear_inv [of s] by (simp add: tty_ok_def clear_input_def)

lemma hangup_ok [simp]: "tty_ok k (snd (observe_hangup cb (s, b))) = tty_ok k s"
  by (simp add: observe_hangup_def Let_def)

lemma flush_echo_sound:
  assumes "tty_ok k s" "k + flush_cost < u64_limit"
  shows "sound (k + flush_cost) (flush_echo cb nonblocking (s, b))"
proof -
  have "8 * length (tt_echo s) \<le> flush_cost" using assms(1) by (simp add: tty_ok_def tty_inv_def flush_cost_def)
  then show ?thesis using flush_echo_ok [of s cb nonblocking b] assms by (fastforce simp: tty_ok_def)
qed

lemma new_ok: "tty_new baud = Some s \<Longrightarrow> tty_ok 0 s"
  by (auto simp: tty_new_def tty_ok_def tty_inv_def)

subsection \<open>Input\<close>

lemma line_byte_column: "tt_column (line_byte t b s) = tt_column s"
proof -
  have e: "tt_column (enqueue i s) = tt_column s" for i s by (auto simp: enqueue_def Let_def push_input_def)
  have "tt_column (erase_key t b s) = tt_column s" "tt_column (kill_key t s) = tt_column s"
    "tt_column (word_erase_key t s) = tt_column s" "tt_column (reprint_key t b s) = tt_column s"
    by (auto simp: erase_key_def kill_key_def word_erase_key_def reprint_key_def Let_def split: prod.splits)
  moreover have "tt_column (plain_byte t b s) = tt_column s" by (auto simp: plain_byte_def Let_def e)
  ultimately show ?thesis by (simp add: line_byte_def e)
qed

lemma process_input_byte_column: "tt_column (fst (process_input_byte b (s, signals, flush))) = tt_column s"
proof -
  have e: "tt_column (enqueue i s) = tt_column s" for i s by (auto simp: enqueue_def Let_def push_input_def)
  have f: "tt_column s' = tt_column s" if "flow_control t c s = (u, s')" for t c s u s'
    using that by (auto simp: flow_control_def split: if_splits)
  have d: "tt_column s' = tt_column s" if "discard_output t c s = (u, s')" for t c s u s'
    using that by (auto simp: discard_output_def Let_def split: if_splits)
  have r: "tt_column s' = tt_column s" if "raise_signal t c s = (u, s')" for t c s u s'
    using that by (auto simp: raise_signal_def Let_def clear_input_def split: if_splits)
  show ?thesis
    by (simp add: process_input_byte_def Let_def line_byte_column e split: prod.splits option.splits) (auto dest!: f d r)
qed

lemma process_input_ok: "tty_ok k s \<Longrightarrow> tty_ok k (fst (fold process_input_byte bs (s, signals, flush)))"
proof (induction bs arbitrary: s signals flush)
  case (Cons b bs)
  obtain s1 sg fl where p: "process_input_byte b (s, signals, flush) = (s1, sg, fl)" using prod_cases3 by blast
  then have "tty_ok k s1"
    using process_input_byte_inv [of s b signals flush] process_input_byte_column [of b s signals flush] Cons.prems
    by (simp add: tty_ok_def)
  then show ?case using Cons.IH p by simp
qed simp

lemma accept_raw_ok: "tty_ok k s \<Longrightarrow> \<exists>s'. accept_raw input s = Some s' \<and> tty_ok k s'"
  by (auto simp: accept_raw_def Let_def tty_ok_def tty_inv_def)

lemma generation_sound:
  assumes "tty_ok k s" "k + flush_cost < u64_limit"
  shows "sound (k + flush_cost) (process_input_generation cb input nonblocking (s, b))"
proof (cases "raw_mode s")
  case True
  then show ?thesis using accept_raw_ok [OF assms(1), of input]
      tty_ok_mono [of k _ "k + flush_cost"] by (auto simp: process_input_generation_def)
next
  case False
  obtain s1 signals flush where f: "fold process_input_byte input (s, {}, False) = (s1, signals, flush)" using prod_cases3 by blast
  then have "tty_ok k s1" using process_input_ok [OF assms(1), of input "{}" False] by simp
  then have "sound (k + flush_cost) (flush_echo cb nonblocking (s1, if flush then snd (cb_flush_output cb b) else b))"
    using assms(2) by (rule flush_echo_sound)
  then show ?thesis using False f by (elim soundE) (auto simp: process_input_generation_def Let_def)
qed

lemma pump_loop_sound:
  "tty_ok k s \<Longrightarrow> k + fuel * flush_cost < u64_limit \<Longrightarrow>
    sound (k + fuel * flush_cost) (map_option snd (pump_loop fuel cb nonblocking n (s, b)))"
proof (induction fuel arbitrary: k s b n)
  case (Suc fuel)
  obtain r b1 where r: "cb_read cb INPUT_BATCH_SIZE b = (r, b1)" by fastforce
  have ok: "tty_ok (k + Suc fuel * flush_cost) s" using Suc.prems(1) by (rule tty_ok_mono) simp
  show ?case
  proof (cases "n < INPUT_CAPACITY \<and> (\<exists>bytes. r = Inr bytes \<and> bytes \<noteq> [])")
    case True
    then obtain bytes where bytes: "r = Inr bytes" "bytes \<noteq> []" by blast
    have "sound (k + flush_cost) (process_input_generation cb bytes nonblocking (s, b1))"
      by (rule generation_sound) (use Suc.prems in auto)
    then obtain s2 b2 where g: "process_input_generation cb bytes nonblocking (s, b1) = Some (s2, b2)" "tty_ok (k + flush_cost) s2"
      by (rule soundE)
    have "tty_ok (k + Suc fuel * flush_cost) s2" using g(2) by (rule tty_ok_mono) simp
    moreover have "sound (k + Suc fuel * flush_cost) (map_option snd (pump_loop fuel cb nonblocking (n + length bytes) (s2, b2)))"
      using Suc.IH [OF g(2), of "n + length bytes" b2] Suc.prems(2) by (simp add: ac_simps)
    ultimately show ?thesis using True r bytes g(1) by simp
  next
    case False
    then show ?thesis using r ok by (auto split: sum.splits)
  qed
qed simp

lemma pump_sound:
  assumes "tty_ok k s" "k + INPUT_CAPACITY * flush_cost < u64_limit"
  shows "sound (k + INPUT_CAPACITY * flush_cost) (map_option snd (pump_input cb nonblocking (s, b)))"
  using pump_loop_sound [OF assms] by (simp add: pump_input_def)

subsection \<open>Reading\<close>

lemma canonical_attempt_ok:
  assumes "tty_ok k s"
  shows "tty_ok k (snd (canonical_attempt cap nonblocking s))"
proof -
  obtain bs s1 where t: "take_line cap s = (bs, s1)" by fastforce
  have ok: "tty_ok k s1" using take_line_inv [OF _ t] assms by (simp add: tty_ok_def)
  then have "tty_ok k (snd (pop_input s1))" using pop_inv [of s1] by (simp add: tty_ok_def)
  then show ?thesis using assms t ok by (simp add: canonical_attempt_def)
qed

lemma raw_attempt_ok: "tty_ok k s \<Longrightarrow> tty_ok k (snd (snd (raw_attempt cap least timeout nonblocking got s)))"
proof -
  assume "tty_ok k s"
  then have "tty_ok k (pop_many n s)" for n by (simp add: tty_ok_def)
  with \<open>tty_ok k s\<close> show ?thesis by (simp add: raw_attempt_def Let_def)
qed

subsection \<open>Writing\<close>

lemma write_sound:
  assumes "tty_ok k s" "k + 8 * length input + flush_cost < u64_limit"
  shows "sound (k + 8 * length input + flush_cost) (map_option snd (write_transformed cb contended nonblocking input (s, b)))"
proof -
  define s1 where "s1 = snd (observe_hangup cb (s, b))"
  have ok: "tty_ok k s1" using assms(1) by (simp add: s1_def)
  then have ok': "tty_ok (k + 8 * length input + flush_cost) s1" by (rule tty_ok_mono) simp
  have fl: "\<exists>s' b'. flush_echo cb True (s1\<lparr>tt_column := c\<rparr>, b1) = Some (s', b') \<and> tty_ok (k + 8 * length input + flush_cost) s'"
    if "c \<le> k + 8 * length input" for c b1
  proof -
    have "tty_ok (k + 8 * length input) (s1\<lparr>tt_column := c\<rparr>)" using ok that by (simp add: tty_ok_def)
    then show ?thesis using flush_echo_sound [OF _ assms(2)] by (auto simp: sound_def)
  qed
  have c: "tt_column s1 \<le> k" using ok by (simp add: tty_ok_def)
  let ?ob = "\<lparr>ob_output = [], ob_buffered = 0, ob_consumed = 0, ob_current = tt_column s1, ob_sent = tt_column s1\<rparr>"
  obtain r col b' where w: "write_loop cb nonblocking (tt_termios s1) input ?ob b = Some (r, col, b')" "col \<le> k + 8 * length input"
    using write_loop_returns [of ?ob input k cb nonblocking "tt_termios s1" b] c assms(2) by auto
  consider (early) "tt_hung_up s1 \<or> tt_output_stopped s1 \<or> has_local (tt_termios s1) FLUSHO \<or> nonblocking \<and> contended"
    | (plain) "\<not> (tt_hung_up s1 \<or> tt_output_stopped s1 \<or> has_local (tt_termios s1) FLUSHO \<or> nonblocking \<and> contended)"
        "\<not> transforms_output (tt_termios s1)"
    | (loop) "\<not> (tt_hung_up s1 \<or> tt_output_stopped s1 \<or> has_local (tt_termios s1) FLUSHO \<or> nonblocking \<and> contended)"
        "transforms_output (tt_termios s1)" by blast
  then show ?thesis
  proof cases
    case early
    then show ?thesis using ok' by (auto simp: write_transformed_def Let_def s1_def [symmetric])
  next
    case plain
    obtain q b2 where q: "(if nonblocking then write_chunks cb input 0 b
               else (case cb_write cb input False b of (Inl e, b1) \<Rightarrow> (Inl e, b1) | (Inr u, b1) \<Rightarrow> (Inr (length input), b1))) = (q, b2)"
      by fastforce
    obtain s' b' where "flush_echo cb True (s1\<lparr>tt_column := tt_column s1\<rparr>, b2) = Some (s', b')" "tty_ok (k + 8 * length input + flush_cost) s'"
      using fl [of "tt_column s1" b2] c by auto
    then show ?thesis using plain q by (auto simp: write_transformed_def Let_def s1_def [symmetric])
  next
    case loop
    obtain s' b'' where "flush_echo cb True (s1\<lparr>tt_column := col\<rparr>, b') = Some (s', b'')" "tty_ok (k + 8 * length input + flush_cost) s'"
      using fl [OF w(2), of b'] by auto
    then show ?thesis using loop w by (auto simp: write_transformed_def Let_def s1_def [symmetric])
  qed
qed

subsection \<open>Control\<close>

lemma recalculate_ok: "tty_ok k s \<Longrightarrow> tty_ok k (recalculate_canonical_ready s)"
  using last_delimiter_le [of "tt_termios s" "tt_input s"]
  by (auto simp: recalculate_canonical_ready_def tty_ok_def tty_inv_def)

lemma flush_input_ok: "tty_ok k s \<Longrightarrow> tty_ok k (fst (flush_input cb (s, b)))"
  by (simp add: flush_input_def tty_ok_clear)

lemma apply_termios_sound:
  assumes "tty_ok k s" "k + flush_cost < u64_limit"
  shows "sound (k + flush_cost) (map_option snd (apply_termios cb t drain flush (s, b)))"
proof (cases "serial_settings_of t")
  case (Inl e)
  then show ?thesis using assms(1) tty_ok_mono [of k _ "k + flush_cost"] by (simp add: apply_termios_def)
next
  case (Inr settings)
  have "sound (k + flush_cost) (if drain then flush_echo cb False (s, b) else Some (s, b))"
    using flush_echo_sound [OF assms, of cb False b] assms(1) tty_ok_mono [of k _ "k + flush_cost"] by simp
  then obtain s1 b1 where e: "(if drain then flush_echo cb False (s, b) else Some (s, b)) = Some (s1, b1)" "tty_ok (k + flush_cost) s1"
    by (rule soundE)
  obtain q b2 where q: "(if drain then cb_flush cb b1 else (Inr (), b1)) = (q, b2)" by fastforce
  obtain r b3 where r: "cb_configure cb settings b2 = (r, b3)" by fastforce
  obtain s2 b4 where f: "(if flush then flush_input cb (s1, b3) else (s1, b3)) = (s2, b4)" by fastforce
  have "tty_ok (k + flush_cost) s2"
    using e(2) flush_input_ok [OF e(2), of cb b3] f by (cases flush) auto
  then have "tty_ok (k + flush_cost) (recalculate_canonical_ready (s2\<lparr>tt_termios := t\<rparr>))" by (intro recalculate_ok) simp
  then show ?thesis using Inr e q r f by (cases q; cases r) (simp_all add: apply_termios_def)
qed

lemma request_ok:
  assumes "tty_ok k s"
  shows "tty_ok k (fst (snd (ioctl_flow cb value (s, b))))" "tty_ok k (fst (snd (ioctl_flush cb value (s, b))))"
    "tty_ok k (snd (ioctl_session ctx value s))" "tty_ok k (snd (ioctl_leave ctx s))"
    "tty_ok k (snd (ioctl_set_group ctx arg s))" "tty_ok k (snd (ioctl_set_winsize arg s))"
  using assms flush_input_ok [OF assms, of cb b]
  by (auto simp: ioctl_flow_def ioctl_flush_def ioctl_session_def ioctl_leave_def ioctl_set_group_def ioctl_set_winsize_def
      Let_def tty_ok_quiet split: prod.splits sum.splits)

definition soundly :: "nat \<Rightarrow> ('r \<times> tty \<times> 'b) panics \<Rightarrow> bool" where
  \<comment> \<open>the same of a call with a result\<close>
  "soundly k r \<longleftrightarrow> sound k (map_option snd r)"

lemma soundly_Some [simp]: "soundly k (Some (q, s, b)) \<longleftrightarrow> tty_ok k s"
  by (simp add: soundly_def)

lemma soundly_kept [simp]: "soundly k (Some (keep_arg arg y)) \<longleftrightarrow> tty_ok k (fst (snd y))"
  by (auto simp: soundly_def keep_arg_def split: prod.splits sum.splits)

lemma soundly_keep: "soundly k r \<Longrightarrow> soundly k (map_option (keep_arg arg) r)"
  by (cases r) (auto simp: soundly_def sound_def keep_arg_def split: prod.splits sum.splits)

lemma tty_ioctl_sound:
  assumes "tty_ok k s" and k: "k + INPUT_CAPACITY * flush_cost < u64_limit"
  shows "soundly (k + INPUT_CAPACITY * flush_cost) (tty_ioctl cb worker path ctx code value arg (s, b))"
proof (cases "request_of code")
  case None
  then show ?thesis using tty_ok_mono [OF assms(1)] by (simp add: tty_ioctl_def)
next
  case (Some r)
  let ?k = "k + INPUT_CAPACITY * flush_cost"
  have le: "k + flush_cost \<le> ?k" by (simp add: INPUT_CAPACITY_def)
  then have lt: "k + flush_cost < u64_limit" using k by (rule le_less_trans)
  have ok: "tty_ok ?k s" by (rule tty_ok_mono [OF assms(1)]) simp
  have set: "soundly ?k (map_option (keep_arg arg) (apply_termios cb t d f (s, b)))" for t d f
    using sound_mono [OF apply_termios_sound [OF assms(1) lt] le] by (intro soundly_keep) (simp add: soundly_def)
  obtain s1 b1 where echo: "flush_echo cb False (s, b) = Some (s1, b1)" "tty_ok ?k s1"
    using sound_mono [OF flush_echo_sound [OF assms(1) lt, of cb False b] le] by (rule soundE)
  have sti: "soundly ?k (map_option (Pair q) (process_input_generation cb [byte] False (s, b)))" for byte and q :: "fs_error + u8 list"
    using sound_mono [OF generation_sound [OF assms(1) lt, of cb "[byte]" False b] le]
    by (cases "process_input_generation cb [byte] False (s, b)") (auto simp: soundly_def sound_def)
  obtain n s3 b3 where pump: "pump_input cb True (s, b) = Some (n, s3, b3)" "tty_ok ?k s3"
    using pump_sound [OF assms, of cb True b] by (auto simp: sound_def)
  have upd: "soundly ?k (case y of (q, s') \<Rightarrow> Some (keep_arg arg (q, s', b)))" if "tty_ok ?k (snd y)" for y
    using that by (cases y) simp
  show ?thesis using Some ok
    by (cases r) (simp_all add: tty_ioctl_def set sti upd request_ok echo pump split: prod.splits sum.splits list.splits)
qed

subsection \<open>Runs\<close>

lemma tty_close_sound:
  assumes "tty_ok k s" "k + flush_cost < u64_limit" "tt_opens s \<noteq> 0" "tty_new baud = Some new"
  shows "sound (k + flush_cost) (tty_close cb baud (s, b))"
proof -
  let ?s = "s\<lparr>tt_opens := tt_opens s - 1\<rparr>"
  have "sound (k + flush_cost) (flush_echo cb False (?s, b))" by (rule flush_echo_sound) (use assms in auto)
  then obtain s1 b1 where "flush_echo cb False (?s, b) = Some (s1, b1)" "tty_ok (k + flush_cost) s1" by (rule soundE)
  moreover have "tty_ok (k + flush_cost) s" "tty_ok (k + flush_cost) new"
    using tty_ok_mono [OF assms(1)] tty_ok_mono [OF new_ok [OF assms(4)]] by simp_all
  ultimately show ?thesis using assms(3,4) by (auto simp: tty_close_def Let_def)
qed

lemma tty_poll_sound:
  assumes "tty_ok k s" "k + INPUT_CAPACITY * flush_cost < u64_limit"
  shows "soundly (k + INPUT_CAPACITY * flush_cost) (tty_poll cb worker events r w (s, b))"
proof -
  obtain n s1 b1 where "pump_input cb True (s, b) = Some (n, s1, b1)" "tty_ok (k + INPUT_CAPACITY * flush_cost) s1"
    using pump_sound [OF assms, of cb True b] by (auto simp: sound_def)
  then show ?thesis using tty_ok_mono [OF assms(1)] by (auto simp: tty_poll_def Let_def)
qed

lemma tty_do_sound:
  assumes "tty_ok k s" and c: "k + call_cost c < u64_limit" and "tty_new baud = Some new" "c = CallClose \<Longrightarrow> tt_opens s \<noteq> 0"
  shows "sound (k + call_cost c) (tty_do cb baud c (s, b))"
proof -
  have le: "k + flush_cost \<le> k + INPUT_CAPACITY * flush_cost" by (simp add: INPUT_CAPACITY_def)
  have ok: "tty_ok (k + call_cost c) s" by (rule tty_ok_mono [OF assms(1)]) simp
  have lt: "k + INPUT_CAPACITY * flush_cost < u64_limit" using c by (simp add: call_cost_def)
  have lt1: "k + flush_cost < u64_limit" using le lt by (rule le_less_trans)
  show ?thesis
  proof (cases c)
    case CallOpen
    then show ?thesis using ok by (auto simp: tty_do_def tty_open_def split: prod.splits sum.splits)
  next
    case CallClose
    then show ?thesis using sound_mono [OF tty_close_sound [OF assms(1) lt1 _ assms(3), of cb b] le] assms(4)
      by (simp add: tty_do_def call_cost_def)
  next
    case (CallPump nonblocking)
    then show ?thesis using pump_sound [OF assms(1) lt] by (simp add: tty_do_def call_cost_def)
  next
    case CallHangup
    then show ?thesis using ok by (simp add: tty_do_def)
  next
    case (CallPoll worker events r w)
    then show ?thesis using tty_poll_sound [OF assms(1) lt] by (simp add: tty_do_def call_cost_def soundly_def)
  next
    case (CallLine cap nonblocking)
    then show ?thesis using canonical_attempt_ok [OF ok] by (simp add: tty_do_def)
  next
    case (CallRaw cap least timeout nonblocking got)
    then show ?thesis using raw_attempt_ok [OF ok] by (simp add: tty_do_def)
  next
    case (CallWrite contended nonblocking input)
    have "k + 8 * length input + flush_cost \<le> k + call_cost c"
      using le CallWrite by (simp add: call_cost_def)
    moreover have "k + 8 * length input + flush_cost < u64_limit" using calculation c by (rule le_less_trans)
    ultimately show ?thesis using sound_mono [OF write_sound [OF assms(1), of input cb contended nonblocking b]] CallWrite by (simp add: tty_do_def)
  next
    case CallSync
    obtain s1 b1 where "flush_echo cb False (s, b) = Some (s1, b1)" "tty_ok (k + INPUT_CAPACITY * flush_cost) s1"
      using sound_mono [OF flush_echo_sound [OF assms(1) lt1, of cb False b] le] by (rule soundE)
    then show ?thesis using CallSync by (auto simp: tty_do_def tty_sync_def call_cost_def split: prod.splits)
  next
    case (CallIoctl worker path ctx code v arg)
    then show ?thesis using tty_ioctl_sound [OF assms(1) lt] by (simp add: tty_do_def call_cost_def soundly_def)
  qed
qed

lemma tty_reachable_ok: "tty_reachable cb baud k x \<Longrightarrow> tty_ok k (fst x) \<and> (\<exists>new. tty_new baud = Some new)"
proof (induction rule: tty_reachable.induct)
  case (called k x c y)
  obtain s b where x: "x = (s, b)" by fastforce
  obtain new where new: "tty_new baud = Some new" using called.IH by blast
  have "c = CallClose \<Longrightarrow> tt_opens s \<noteq> 0" using called.hyps(2) x by (auto simp: tty_do_def tty_close_def Let_def split: if_splits)
  then show ?case using tty_do_sound [of k s c baud new cb b] called x new by (auto simp: sound_def)
qed (simp add: new_ok)

text \<open>
  C34. A terminal never panics and never overruns its queues. After any sequence of opens, closes,
  input from the device, hangups, polls, reads, writes and control requests on a new terminal,
  whatever the device does, the input queue and the echo buffer are within their capacities, the
  byte count is the number of bytes queued, and the next call returns, as long as the calls can
  not have moved the output column out of 64 bits and only an open terminal is closed.
\<close>

theorem tty_runs_safely:
  assumes "tty_reachable cb baud k (s, b)"
  shows "length (tt_input s) \<le> INPUT_CAPACITY \<and> length (tt_echo s) \<le> ECHO_CAPACITY \<and>
    tt_input_bytes s = length (item_data (tt_input s)) \<and> tt_column s \<le> k \<and>
    (k + call_cost c < u64_limit \<and> (c = CallClose \<longrightarrow> tt_opens s \<noteq> 0) \<longrightarrow> (\<exists>y. tty_do cb baud c (s, b) = Some y))"
proof -
  obtain new where ok: "tty_ok k s" "tty_new baud = Some new" using tty_reachable_ok [OF assms] by auto
  have "\<exists>y. tty_do cb baud c (s, b) = Some y" if "k + call_cost c < u64_limit" "c = CallClose \<longrightarrow> tt_opens s \<noteq> 0"
    using tty_do_sound [OF ok(1) that(1) ok(2), of cb b] that(2) by (auto simp: sound_def)
  then show ?thesis using ok(1) by (auto simp: tty_ok_def tty_inv_def item_data_length)
qed

theorem tty_runs_safely_witness:
  "\<exists>s b. tty_reachable tape 9600 (INPUT_CAPACITY * flush_cost) (s, b) \<and> (\<exists>y. tty_do tape 9600 CallClose (s, b) = Some y)"
proof -
  have "tty_new 9600 \<noteq> None" by code_simp
  then have new: "tty_new 9600 = Some demo_tty" by (auto simp: demo_tty_def)
  define s where "s = demo_tty\<lparr>tt_opens := 1, tt_hung_up := False\<rparr>"
  have "tt_opens demo_tty = 0" "\<not> tt_exclusive demo_tty" by code_simp+
  then have "tty_do tape 9600 CallOpen (demo_tty, []) = Some (s, [])"
    by (simp add: tty_do_def tty_open_def tape_def s_def)
  moreover have cost: "call_cost CallOpen = INPUT_CAPACITY * flush_cost" "call_cost CallClose = INPUT_CAPACITY * flush_cost"
    "INPUT_CAPACITY * flush_cost + INPUT_CAPACITY * flush_cost < u64_limit"
    by (simp_all add: call_cost_def flush_cost_def INPUT_CAPACITY_def ECHO_CAPACITY_def)
  ultimately have "tty_reachable tape 9600 (INPUT_CAPACITY * flush_cost) (s, [])"
    using tty_reachable.called [OF tty_reachable.created [OF new]] by fastforce
  moreover have "tt_opens s \<noteq> 0" by (simp add: s_def)
  ultimately show ?thesis using tty_runs_safely [of tape 9600 "INPUT_CAPACITY * flush_cost" s "[]" CallClose] cost by auto
qed

end
