(* ===== verification/Spec2Isabelle.thy ===== *)
theory Spec2Isabelle
  imports Addr Vmem_Client Path Partition Initramfs Device_Tables Calendar Timerfd Pipe Mutex Rwlock Once Namecache_Sync Tty_Run
begin

text \<open>
  Verification of the Roanix kernel (\<open>kernel/src\<close> and \<open>drivers\<close>), by shallow embedding.

  \<^bold>\<open>The program.\<close> Roanix is a Unix-like kernel. Its memory subsystem (\<open>mem\<close>) hands out address
  ranges from arenas, keeps them in ordered indexes and copies between kernel and user memory. The
  file layer (\<open>fs\<close>) parses paths, caches names, discovers partitions and imports the archive of
  the boot loader. Processes (\<open>proc\<close>) use pipes, timers and signals. The system core (\<open>sys\<close>) has
  the clock with its callouts, the locks and the scheduler. Terminals (\<open>dev\<close>) edit and echo what
  is typed and transform what is written. The driver framework (\<open>driver\<close>)
  describes devices by tables of resources and properties and matches drivers to them.

  \<^bold>\<open>Conventions.\<close> A function that can panic returns an option, with no value for the panic; a
  \<open>Result\<close> is a sum with the error on the left; flag words are words of their width; sizes, counters
  and addresses are natural numbers with the comparison against \<open>2^64\<close> written out. Code outside
  the sources, the hardware, the clock, the contents of disks and of user memory and the answers
  of allocators are arguments of the definitions. Code that runs concurrently is a step relation
  per thread; the theory \<open>Protocol\<close> states once how an invariant carries over to every state that
  any interleaving reaches. A panic of such code is a point of the program counter.

  \<^bold>\<open>Theories and sources.\<close>
    \<^item> \<open>Prelude\<close>, \<open>Results\<close>, \<open>Bytes\<close>, \<open>Protocol\<close>: shared vocabulary; the locales \<open>safe_machine\<close> (runs
      of operations with an invariant) and \<open>protocol\<close> (interleavings with an invariant).
    \<^item> \<open>Addr\<close> (\<open>mem/addr.rs\<close>): rounding on 64-bit words is exact and panics only when it must.
    \<^item> \<open>Index\<close> (\<open>mem/index.rs\<close>, \<open>mem/error.rs\<close>): the ordered index is a finite map with range
      queries; the locale \<open>ordered_index\<close> is the contract its clients use.
    \<^item> \<open>Vmem\<close> and its parts \<open>Vmem_Lists\<close>, \<open>Vmem_Core\<close>, \<open>Vmem_Arena\<close>, \<open>Vmem_Search\<close>, \<open>Vmem_Correct\<close>,
      \<open>Vmem_Ops\<close>, \<open>Vmem_Props\<close> (\<open>mem/vmem.rs\<close>): the arena with its threaded free lists. No admissible
      run panics or loops; each operation is specified on every branch. \<open>Vmem_Client\<close> is the view
      of its clients, who write a ledger from the results of their calls: grants are disjoint, and
      what can be allocated depends only on the ledger, so that no space is ever lost.
    \<^item> \<open>Io\<close> (\<open>mem/io.rs\<close>): transfers through windows that end at page boundaries are exact and
      change nothing else, also when pages are read-only or copied on the first write.
    \<^item> \<open>Errors\<close> (\<open>fs/error.rs\<close>, \<open>driver/error.rs\<close>): conversions of errors round-trip.
    \<^item> \<open>Path\<close> (\<open>fs/path.rs\<close>), \<open>Partition\<close> (\<open>fs/partition.rs\<close>), \<open>Initramfs\<close> (\<open>sys/initramfs.rs\<close>):
      parsers of untrusted bytes. They never panic, end, and return only well-formed values. The
      import makes hard links through \<open>link_at\<close> of \<open>fs/vfs.rs\<close>, over arbitrary lookups.
    \<^item> \<open>Namecache\<close>, \<open>Namecache_Sync\<close> (\<open>fs/namecache.rs\<close>): buckets with least-recently-used
      replacement, and the protocol that keeps the cache coherent with the directories.
    \<^item> \<open>Device_Tables\<close> (\<open>driver/core/resource.rs\<close>, \<open>property.rs\<close>, \<open>match_table.rs\<close>).
    \<^item> \<open>Clock\<close>, \<open>Calendar\<close> (\<open>sys/clock.rs\<close>): the calendar queue refines a priority queue; the timer
      interrupt delivers what has expired and arms for the rest; the locale \<open>callout_queue\<close> is what
      the interrupt relies on.
    \<^item> \<open>Mutex\<close>, \<open>Rwlock\<close>, \<open>Once\<close> (\<open>sys/sync.rs\<close>, \<open>sys/sync/rwlock.rs\<close>): exclusion, no lost wake-up and
      no failing assertion on the state of a lock, in any interleaving; one-time initialisation
      runs once and never hands out memory that was not written.
    \<^item> \<open>Usermem\<close> (\<open>syscall.rs\<close>), \<open>Poll\<close> (\<open>fs/vnode.rs\<close>), \<open>Timerfd\<close> (\<open>proc/timerfd.rs\<close>), \<open>Pipe\<close>
      (\<open>proc/pipe.rs\<close>): system-call helpers, timers that count every expiration once and whose
      reads return, and pipes as bounded queues, with the interleaving that loses a wake-up.
    \<^item> \<open>Tty\<close>, \<open>Tty_Input\<close>, \<open>Tty_Output\<close>, \<open>Tty_Run\<close> (\<open>dev/tty.rs\<close>): the line discipline. Typed lines read
      back edited, completed lines are safe from later keys except for a delimiter at the end of a
      full queue, batched output accounts for every byte for a backend that keeps its contract, no run panics or overruns a queue; a killed full line reads as end of file.

  \<^bold>\<open>Fuel.\<close> Loops whose end is not structural carry a bound that is proved to be enough: the list
  walks of the arena are bounded by the number of tags, the link rounds of the importer by the
  number of links, the parser by the length of the archive, the reader of user strings by its limit,
  the input pump of a terminal by the capacity of the queue, since every round takes a byte.
  A blocking read of a timer is a partial function, without a value when it sleeps forever; it is
  shown to return when the interrupts of its sleeps come and the event is signalled finitely often.

  \<^bold>\<open>Not modelled.\<close> Registers, page tables, interrupt controllers, context switches and assembly
  (\<open>arch\<close>, \<open>mem/pmap.rs\<close>, \<open>mem/tlb.rs\<close>, \<open>mem/kstack.rs\<close>, \<open>driver/io\<close>, the loadable drivers): their
  effects are effects of hardware. Raw memory with pointers inside freed blocks (\<open>mem/alloc.rs\<close>)
  and graphs of reference-counted objects behind trait objects (\<open>fs/vfs.rs\<close>, \<open>fs/vnode.rs\<close>,
  \<open>mem/object.rs\<close>, \<open>driver/core/device.rs\<close>). The foreign-function layer of the drivers
  (\<open>driver/abi\<close>). The delivery of signals and the rest of the processes (\<open>proc\<close>). Writers that sleep
  on a full pipe, and calls of a terminal that interleave: an operation of a terminal is atomic in
  the model, while \<open>flush_echo\<close> releases the lock of the state during its write. Start-up (\<open>main.rs\<close>). Memory ordering: a step of a thread takes effect at once
  for all threads, so that the models cover interleavings but not reordering.
\<close>

end
